(* ===== verification/Prelude.thy ===== *)
theory Prelude
  imports Main "HOL-Library.Word" "HOL-Library.Sublist" "HOL-Library.Char_ord"
    "HOL-Library.List_Lexorder"
begin

section \<open>What the components share: C++ results, characters, strings, numbers\<close>

text \<open>
  This theory models the parts of the C++ standard library that the programs use: the
  outcome of an operation that may throw or be undefined, the C locale's character
  classes, \<open>std::string\<close> searching and slicing, and the number conversions
  \<open>std::to_string\<close>, \<open>std::from_chars\<close>, \<open>std::stoi\<close>, \<open>std::stoul\<close>, \<open>std::stoll\<close>,
  \<open>strtoull\<close> and \<open>strtoll\<close>. A \<open>char\<close> is a byte, a \<open>std::string\<close> is a byte list, and
  \<open>std::string::npos\<close> is \<open>None\<close>. The lemmas are the ones several components use.
\<close>

named_theorems strings \<open>facts about slicing and searching strings\<close>
named_theorems numbers \<open>facts about printing and parsing numbers\<close>

subsection \<open>Outcomes\<close>

text \<open>
  A C++ computation returns, throws, or has undefined behaviour. The exceptions are the two
  that the \<open>std::sto*\<close> family throws and the one that a container throws when asked for
  more elements than it can ever hold; nothing in the programs catches them.
\<close>

datatype cpp_error = Undefined_Behaviour | Invalid_Argument | Out_Of_Range | Length_Error

type_synonym 'a cpp = "cpp_error + 'a"

fun cbind :: "'a cpp \<Rightarrow> ('a \<Rightarrow> 'b cpp) \<Rightarrow> 'b cpp" where
  "cbind (Inl e) f = Inl e"
| "cbind (Inr x) f = f x"

lemma cbind_Inr_iff: "cbind m f = Inr y \<longleftrightarrow> (\<exists>x. m = Inr x \<and> f x = Inr y)"
  by (cases m) auto

text \<open>Construction of a vector of \<open>n\<close> elements of \<open>sz\<close> bytes: \<open>max_size()\<close> is checked.\<close>

definition vector_length_ok :: "nat \<Rightarrow> nat \<Rightarrow> bool" where
  "vector_length_ok sz n \<longleftrightarrow> n \<le> (2 ^ 63 - 1) div sz"

lemma vector_length_ok_int [code]:
  "vector_length_ok sz n \<longleftrightarrow> int n \<le> (2 ^ 63 - 1) div int sz"
proof -
  have "(2 ^ 63 - 1) div int sz = int ((2 ^ 63 - 1) div sz)" by (simp add: zdiv_int)
  then show ?thesis by (simp only: vector_length_ok_def of_nat_le_iff)
qed

subsection \<open>Machine integers\<close>

text \<open>
  A signed \<open>long long\<close> (and \<open>long\<close> on the target, LP64) is an \<open>int\<close> in range; arithmetic
  that leaves the range is undefined behaviour, so it is checked. A conversion that
  narrows is implementation-defined and wraps.
\<close>

definition ll_range :: "int \<Rightarrow> bool" where
  "ll_range n \<longleftrightarrow> - (2 ^ 63) \<le> n \<and> n < 2 ^ 63"

definition ll_checked :: "int \<Rightarrow> int cpp" where
  "ll_checked n = (if ll_range n then Inr n else Inl Undefined_Behaviour)"

definition int_range :: "int \<Rightarrow> bool" where
  "int_range n \<longleftrightarrow> - (2 ^ 31) \<le> n \<and> n < 2 ^ 31"

definition to_int32 :: "int \<Rightarrow> int" where
  "to_int32 n = signed_take_bit 31 n"

lemma ll_checked_Inr [simp]: "ll_checked n = Inr m \<longleftrightarrow> ll_range n \<and> m = n"
  by (auto simp: ll_checked_def)

lemma to_int32_id: "int_range n \<Longrightarrow> to_int32 n = n"
  by (simp add: to_int32_def int_range_def signed_take_bit_int_eq_self)

lemma to_int32_range: "int_range (to_int32 n)"
  using signed_take_bit_int_greater_eq_minus_exp [of 31 n]
    signed_take_bit_int_less_exp [of 31 n]
  by (simp add: to_int32_def int_range_def)

subsection \<open>Character classes (C locale)\<close>

abbreviation newline :: string where
  "newline \<equiv> [CHR 0x0A]"

abbreviation ord :: "char \<Rightarrow> nat" where
  "ord c \<equiv> of_char c"

definition isspace :: "char \<Rightarrow> bool" where
  "isspace c \<longleftrightarrow> ord c = 32 \<or> (9 \<le> ord c \<and> ord c \<le> 13)"

definition isdigit :: "char \<Rightarrow> bool" where
  "isdigit c \<longleftrightarrow> 48 \<le> ord c \<and> ord c \<le> 57"

definition toupper :: "char \<Rightarrow> char" where
  "toupper c = (if 97 \<le> ord c \<and> ord c \<le> 122 then char_of (ord c - 32) else c)"

text \<open>The value of a digit in a base up to 36, as \<open>strtoull\<close> reads it.\<close>

definition digit_value :: "char \<Rightarrow> nat option" where
  "digit_value c =
     (if isdigit c then Some (ord c - 48)
      else if 65 \<le> ord (toupper c) \<and> ord (toupper c) \<le> 90 then Some (ord (toupper c) - 55)
      else None)"

definition is_digit_of :: "nat \<Rightarrow> char \<Rightarrow> bool" where
  "is_digit_of b c \<longleftrightarrow> (case digit_value c of None \<Rightarrow> False | Some d \<Rightarrow> d < b)"

definition digit_char :: "nat \<Rightarrow> char" where
  "digit_char d = char_of (if d < 10 then 48 + d else 87 + d)"

lemma ord_digit_char: "d < 16 \<Longrightarrow> ord (digit_char d) = (if d < 10 then 48 + d else 87 + d)"
  by (auto simp: digit_char_def)

lemma isdigit_not_isspace [simp]: "isdigit c \<Longrightarrow> \<not> isspace c"
  by (auto simp: isdigit_def isspace_def)

lemma isdigit_digit_char [simp]: "d < 10 \<Longrightarrow> isdigit (digit_char d)"
  by (simp add: isdigit_def ord_digit_char)

lemma digit_value_digit_char: "d < 16 \<Longrightarrow> digit_value (digit_char d) = Some d"
  by (auto simp: digit_value_def isdigit_def toupper_def ord_digit_char)

lemma is_digit_of_digit_char [simp]: "b \<le> 16 \<Longrightarrow> d < b \<Longrightarrow> is_digit_of b (digit_char d)"
  by (simp add: is_digit_of_def digit_value_digit_char)

lemma isspace_digit_char [simp]: "d < 16 \<Longrightarrow> \<not> isspace (digit_char d)"
  by (auto simp: isspace_def ord_digit_char)

lemma isdigit_eq_is_digit_of_10: "is_digit_of 10 c \<longleftrightarrow> isdigit c"
  by (auto simp: is_digit_of_def digit_value_def isdigit_def split: if_splits)

subsection \<open>Searching and slicing\<close>

text \<open>
  \<open>substr s pos n\<close> is \<open>std::string::substr\<close> within range (it throws when \<open>pos\<close> is past the
  end, which no caller does). \<open>find_from c s i\<close> is \<open>s.find(c, i)\<close>, \<open>rfind\<close> is
  \<open>s.rfind(c)\<close>, and \<open>find_str\<close> is \<open>s.find("...")\<close>. A prefix test written
  \<open>s.rfind("--x=", 0) == 0\<close> is \<open>prefix\<close> of the library.
\<close>

definition substr :: "string \<Rightarrow> nat \<Rightarrow> nat \<Rightarrow> string" where
  "substr s pos n = take n (drop pos s)"

primrec find_char :: "char \<Rightarrow> string \<Rightarrow> nat option" where
  "find_char c [] = None"
| "find_char c (x # xs) = (if x = c then Some 0 else map_option Suc (find_char c xs))"

definition find_from :: "char \<Rightarrow> string \<Rightarrow> nat \<Rightarrow> nat option" where
  "find_from c s i = map_option ((+) i) (find_char c (drop i s))"

primrec rfind :: "char \<Rightarrow> string \<Rightarrow> nat option" where
  "rfind c [] = None"
| "rfind c (x # xs) =
     (case rfind c xs of Some i \<Rightarrow> Some (Suc i) | None \<Rightarrow> if x = c then Some 0 else None)"

primrec find_str :: "string \<Rightarrow> string \<Rightarrow> nat option" where
  "find_str p [] = (if p = [] then Some 0 else None)"
| "find_str p (x # xs) =
     (if prefix p (x # xs) then Some 0 else map_option Suc (find_str p xs))"

lemma find_char_None [strings]: "find_char c s = None \<longleftrightarrow> c \<notin> set s"
  by (induction s) auto

lemma find_char_append [strings]:
  "c \<notin> set xs \<Longrightarrow> find_char c (xs @ c # ys) = Some (length xs)"
  by (induction xs) auto

lemma find_char_Some [strings]:
  "find_char c s = Some i \<Longrightarrow> i < length s \<and> s ! i = c \<and> c \<notin> set (take i s)"
proof (induction s arbitrary: i)
  case Nil
  then show ?case by simp
next
  case (Cons x xs)
  then show ?case by (cases "x = c") auto
qed

lemma rfind_None [strings]: "rfind c s = None \<longleftrightarrow> c \<notin> set s"
  by (induction s) (auto split: option.splits)

lemma rfind_append [strings]:
  "c \<notin> set ys \<Longrightarrow> rfind c (xs @ c # ys) = Some (length xs)"
proof (induction xs)
  case Nil
  then have "rfind c ys = None" by (simp add: rfind_None)
  then show ?case by simp
next
  case (Cons x xs)
  then show ?case by simp
qed

lemma rfind_Some [strings]:
  "rfind c s = Some i \<Longrightarrow> i < length s \<and> s ! i = c \<and> c \<notin> set (drop (Suc i) s)"
proof (induction s arbitrary: i)
  case Nil
  then show ?case by simp
next
  case (Cons x xs)
  then show ?case by (auto simp: rfind_None split: option.splits if_splits)
qed

lemma find_str_Some [strings]:
  "find_str p s = Some i \<Longrightarrow> i \<le> length s \<and> prefix p (drop i s)"
proof (induction s arbitrary: i)
  case Nil
  then show ?case by (auto split: if_splits)
next
  case (Cons x xs)
  then show ?case by (auto split: if_splits)
qed

lemma find_str_None [strings]: "find_str p s = None \<longleftrightarrow> \<not> sublist p s"
  by (induction s) (auto simp: sublist_Cons_right)

end
