(* ===== verification/Os.thy ===== *)
theory Os
  imports Prelude "HOL-Library.Monad_Syntax"
begin

section \<open>The operating system interface\<close>

text \<open>
  The programs talk to the Linux kernel and the C library through system calls. The kernel
  is not part of the repository, so it is a parameter: a record \<^theory_text>\<open>kernel\<close> of functions
  over a world of any type \<open>'w\<close>, which every model function takes as its argument \<open>K\<close>.
  Whatever a theorem needs of the kernel is a hypothesis about \<open>K\<close>; with none, it holds for
  every kernel behaviour, failures included.

  The state \<^theory_text>\<open>os\<close> a program threads through its calls is the world, the C variable
  \<open>errno\<close>, the two output streams, and the trace of all calls with their results, in order.
  A call returns what C sees: \<open>-1\<close> with \<open>errno\<close> set, or a non-negative result (an
  unsuccessful call never clears \<open>errno\<close> and a successful one leaves it alone).

  A function whose loop may run for ever (a read loop that sees no end of file, a wait that
  is interrupted every time) is a \<^theory_text>\<open>partial_function\<close> into \<open>option\<close>: \<open>None\<close> is "does not
  return".
\<close>

type_synonym errno = nat

abbreviation (input) EINTR :: errno where "EINTR \<equiv> 4"
abbreviation (input) EAGAIN :: errno where "EAGAIN \<equiv> 11"  \<comment> \<open>\<open>EWOULDBLOCK\<close> is the same number on Linux\<close>
abbreviation (input) EBUSY :: errno where "EBUSY \<equiv> 16"
abbreviation (input) EEXIST :: errno where "EEXIST \<equiv> 17"

datatype flag =
  O_RDONLY | O_WRONLY | O_RDWR | O_CLOEXEC | O_NONBLOCK
| MS_REC | MS_PRIVATE | MS_BIND | MNT_DETACH
| CLONE_NEWPID | CLONE_NEWNS | CLONE_NEWUTS | CLONE_NEWIPC | CLONE_NEWNET | SIGCHLD
| EPOLLIN | EPOLLET | EPOLLHUP | EPOLLERR | EPOLL_CLOEXEC
| SOCK_NONBLOCK | SOCK_CLOEXEC | SFD_NONBLOCK | SFD_CLOEXEC
| SO_REUSEADDR | TCP_NODELAY | INADDR_ANY | INADDR_LOOPBACK | SIGINT | SIGTERM
| PROT_READ | PROT_WRITE | MAP_SHARED | MAP_PRIVATE | POLLIN
| O_CREAT | O_TRUNC | POSIX_FADV_DONTNEED

text \<open>
  What a \<open>void *\<close> argument points to, spelled out: \<open>clone\<close> hands such memory to the new
  process, which starts from a copy of it.
\<close>

datatype datum = D_int int | D_bool bool | D_string string | D_list "datum list"

text \<open>Calls whose result is an \<open>int\<close>, with the arguments the programs pass.\<close>

datatype syscall =
  Sys_open string "flag list"
| Sys_close int
| Sys_mkdir string nat
| Sys_rmdir string
| Sys_statfs string                          \<comment> \<open>the result is \<open>f_type\<close>\<close>
| Sys_mount "string option" string "string option" "flag list"
| Sys_pivot_root string string
| Sys_chdir string
| Sys_umount2 string flag
| Sys_sethostname string
| Sys_execvp "string list"
| Sys_clone "flag list" datum               \<comment> \<open>what the child's argument points to\<close>
| Sys_geteuid
| Sys_getpid
| Sys_socket
| Sys_setsockopt int flag
| Sys_bind int flag "16 word"
| Sys_listen int int
| Sys_connect int flag "16 word"
| Sys_getfl int
| Sys_setfl int nat flag                     \<comment> \<open>the flags read before, and the one added\<close>
| Sys_sigprocmask "flag list"
| Sys_signalfd "flag list" "flag list"
| Sys_epoll_create1 flag
| Sys_epoll_add int int "flag list"
| Sys_epoll_del int int
| Sys_accept4 int "flag list"
| Sys_uring_setup nat                        \<comment> \<open>\<open>io_uring_queue_init\<close>\<close>
| Sys_uring_exit                             \<comment> \<open>\<open>io_uring_queue_exit\<close>\<close>
| Sys_uring_accept int                       \<comment> \<open>the next four: an operation is put into the ring\<close>
| Sys_uring_poll int flag
| Sys_uring_recv int nat
| Sys_uring_send int nat
| Sys_uring_submit                           \<comment> \<open>\<open>io_uring_submit\<close>: the queued entries are handed over\<close>
| Sys_uring_wait                             \<comment> \<open>\<open>io_uring_submit_and_wait\<close>\<close>
| Sys_uring_polled int flag                  \<comment> \<open>a poll in the ring has completed\<close>
| Sys_fstat int                              \<comment> \<open>the result is \<open>st_size\<close>\<close>
| Sys_mmap nat "flag list" flag int          \<comment> \<open>the result is the address\<close>
| Sys_munmap int nat
| Sys_unlink string
| Sys_sync
| Sys_fadvise int flag
| Sys_malloc nat                             \<comment> \<open>failure is the null pointer\<close>
| Sys_load int                               \<comment> \<open>a byte of mapped memory; failure is a bus error\<close>
| Sys_store int nat nat                      \<comment> \<open>\<open>memset\<close>: address, byte, length\<close>

text \<open>An event of the trace: a call with what it returned.\<close>

datatype event =
  E_call syscall "errno + int"
| E_read int nat "errno + string"            \<comment> \<open>descriptor, count, bytes stored\<close>
| E_write int string "errno + nat"           \<comment> \<open>descriptor, bytes offered, number taken\<close>
| E_readlink string nat "errno + string"
| E_wait int nat "errno + (int \<times> flag list) list" \<comment> \<open>\<open>epoll_wait\<close>: the events reported\<close>
| E_pipe "errno + int \<times> int"
| E_waitpid int "errno + int"                \<comment> \<open>pid, status word\<close>
| E_listdir string "string list"
| E_mincore int nat "errno + string"         \<comment> \<open>address, length, one byte per page\<close>

record 'w kernel =
  k_call :: "syscall \<Rightarrow> 'w \<Rightarrow> (errno + int) \<times> 'w"
  k_read :: "int \<Rightarrow> nat \<Rightarrow> 'w \<Rightarrow> (errno + string) \<times> 'w"
  k_write :: "int \<Rightarrow> string \<Rightarrow> 'w \<Rightarrow> (errno + nat) \<times> 'w"
  k_readlink :: "string \<Rightarrow> nat \<Rightarrow> 'w \<Rightarrow> (errno + string) \<times> 'w"
  k_wait :: "int \<Rightarrow> nat \<Rightarrow> 'w \<Rightarrow> (errno + (int \<times> flag list) list) \<times> 'w"
  k_pipe :: "'w \<Rightarrow> (errno + int \<times> int) \<times> 'w"
  k_waitpid :: "int \<Rightarrow> 'w \<Rightarrow> (errno + int) \<times> 'w"
  k_listdir :: "string \<Rightarrow> 'w \<Rightarrow> string list \<times> 'w"
  k_mincore :: "int \<Rightarrow> nat \<Rightarrow> 'w \<Rightarrow> (errno + string) \<times> 'w"
  strerror :: "errno \<Rightarrow> string"

record 'w os =
  world :: 'w
  errno :: errno
  trace :: "event list"
  out :: string
  err :: string

subsection \<open>Calls\<close>

text \<open>The record of a finished call: the new world, \<open>errno\<close> on failure, one event.\<close>

definition finish :: "'w \<Rightarrow> errno + 'a \<Rightarrow> event \<Rightarrow> 'w os \<Rightarrow> 'w os" where
  "finish w r ev s =
     s\<lparr>world := w, errno := (case r of Inl e \<Rightarrow> e | Inr _ \<Rightarrow> errno s), trace := trace s @ [ev]\<rparr>"

text \<open>The \<open>int\<close> that C sees.\<close>

definition c_int :: "errno + int \<Rightarrow> int" where
  "c_int r = (case r of Inl _ \<Rightarrow> -1 | Inr n \<Rightarrow> n)"

lemma c_int_simps [simp]: "c_int (Inl e) = -1" "c_int (Inr n) = n"
  by (simp_all add: c_int_def)

definition call :: "'w kernel \<Rightarrow> syscall \<Rightarrow> 'w os \<Rightarrow> int \<times> 'w os" where
  "call K c s =
     (let (r, w) = k_call K c (world s) in
      (c_int r, finish w r (E_call c r) s))"

text \<open>
  A call that returns 0 and stores a number through a pointer (\<open>statfs\<close>, \<open>fstat\<close>): the result
  and the number, which a failed call leaves at its initial 0.
\<close>

definition call_value :: "'w kernel \<Rightarrow> syscall \<Rightarrow> 'w os \<Rightarrow> (int \<times> int) \<times> 'w os" where
  "call_value K c s =
     (let (r, w) = k_call K c (world s) in
      (case r of Inl _ \<Rightarrow> (-1, 0) | Inr n \<Rightarrow> (0, n), finish w r (E_call c r) s))"

text \<open>The bound that the interface puts on an answer.\<close>

definition at_most :: "nat \<Rightarrow> errno + 'a list \<Rightarrow> errno + 'a list" where
  "at_most n r = map_sum id (take n) r"

text \<open>The C result of a call that fills a buffer: the number of elements, or \<open>-1\<close>.\<close>

definition filled :: "errno + 'a list \<Rightarrow> int \<times> 'a list" where
  "filled r = (case r of Inl _ \<Rightarrow> (-1, []) | Inr d \<Rightarrow> (int (length d), d))"

text \<open>\<open>read(2)\<close> stores at most \<open>count\<close> bytes, so the kernel's answer is cut there.\<close>

definition sys_read :: "'w kernel \<Rightarrow> int \<Rightarrow> nat \<Rightarrow> 'w os \<Rightarrow> (int \<times> string) \<times> 'w os" where
  "sys_read K fd n s =
     (let (r, w) = k_read K fd n (world s); r = at_most n r in
      (filled r, finish w r (E_read fd n r) s))"

text \<open>\<open>write(2)\<close> reports at most the number of bytes offered.\<close>

definition sys_write :: "'w kernel \<Rightarrow> int \<Rightarrow> string \<Rightarrow> 'w os \<Rightarrow> int \<times> 'w os" where
  "sys_write K fd d s =
     (let (r, w) = k_write K fd d (world s); r = map_sum id (min (length d)) r in
      (case r of Inl _ \<Rightarrow> -1 | Inr n \<Rightarrow> int n, finish w r (E_write fd d r) s))"

definition sys_readlink :: "'w kernel \<Rightarrow> string \<Rightarrow> nat \<Rightarrow> 'w os \<Rightarrow> (int \<times> string) \<times> 'w os" where
  "sys_readlink K p n s =
     (let (r, w) = k_readlink K p n (world s); r = at_most n r in
      (filled r, finish w r (E_readlink p n r) s))"

text \<open>\<open>epoll_wait\<close> stores at most \<open>maxevents\<close> events.\<close>

definition sys_wait ::
  "'w kernel \<Rightarrow> int \<Rightarrow> nat \<Rightarrow> 'w os \<Rightarrow> (int \<times> (int \<times> flag list) list) \<times> 'w os" where
  "sys_wait K fd n s =
     (let (r, w) = k_wait K fd n (world s); r = at_most n r in
      (filled r, finish w r (E_wait fd n r) s))"

text \<open>\<open>pipe\<close>: the result and the two descriptors.\<close>

definition sys_pipe :: "'w kernel \<Rightarrow> 'w os \<Rightarrow> (int \<times> int \<times> int) \<times> 'w os" where
  "sys_pipe K s =
     (let (r, w) = k_pipe K (world s) in
      (case r of Inl _ \<Rightarrow> (-1, -1, -1) | Inr (a, b) \<Rightarrow> (0, a, b), finish w r (E_pipe r) s))"

text \<open>\<open>waitpid\<close>: the result and the status word.\<close>

definition sys_waitpid :: "'w kernel \<Rightarrow> int \<Rightarrow> 'w os \<Rightarrow> (int \<times> int) \<times> 'w os" where
  "sys_waitpid K pid s =
     (let (r, w) = k_waitpid K pid (world s) in
      (case r of Inl _ \<Rightarrow> (-1, 0) | Inr st \<Rightarrow> (pid, st), finish w r (E_waitpid pid r) s))"

definition sys_listdir :: "'w kernel \<Rightarrow> string \<Rightarrow> 'w os \<Rightarrow> string list \<times> 'w os" where
  "sys_listdir K p s =
     (let (ns, w) = k_listdir K p (world s) in
      (ns, finish w (Inr ns) (E_listdir p ns) s))"

text \<open>\<open>mincore\<close> stores one byte per page.\<close>

definition sys_mincore ::
  "'w kernel \<Rightarrow> int \<Rightarrow> nat \<Rightarrow> nat \<Rightarrow> 'w os \<Rightarrow> (int \<times> string) \<times> 'w os" where
  "sys_mincore K addr len pages s =
     (let (r, w) = k_mincore K addr len (world s); r = at_most pages r in
      (case r of Inl _ \<Rightarrow> (-1, []) | Inr v \<Rightarrow> (0, v), finish w r (E_mincore addr len r) s))"

definition put_out :: "string \<Rightarrow> 'w os \<Rightarrow> 'w os" where
  "put_out x s = s\<lparr>out := out s @ x\<rparr>"

definition put_err :: "string \<Rightarrow> 'w os \<Rightarrow> 'w os" where
  "put_err x s = s\<lparr>err := err s @ x\<rparr>"

subsection \<open>What a call does to the state\<close>

named_theorems os_simps \<open>effects of calls on the fields of the state\<close>

lemma finish_simps [os_simps, simp]:
  "world (finish w r ev s) = w"
  "trace (finish w r ev s) = trace s @ [ev]"
  "errno (finish w r ev s) = (case r of Inl e \<Rightarrow> e | Inr _ \<Rightarrow> errno s)"
  "out (finish w r ev s) = out s"
  "err (finish w r ev s) = err s"
  by (simp_all add: finish_def)

lemma put_simps [os_simps, simp]:
  "world (put_out x s) = world s" "trace (put_out x s) = trace s"
  "errno (put_out x s) = errno s" "out (put_out x s) = out s @ x" "err (put_out x s) = err s"
  "world (put_err x s) = world s" "trace (put_err x s) = trace s"
  "errno (put_err x s) = errno s" "out (put_err x s) = out s" "err (put_err x s) = err s @ x"
  by (simp_all add: put_out_def put_err_def)

text \<open>
  Each call appends one event, and its C result is read off the event. The rules are in
  destruction form: from the equation of a call to what it appended.
\<close>

lemma call_trace:
  "call K c s = (n, s') \<Longrightarrow>
    \<exists>r. trace s' = trace s @ [E_call c r] \<and> n = c_int r \<and>
      (\<forall>e. r = Inl e \<longrightarrow> errno s' = e) \<and> out s' = out s \<and> err s' = err s"
  by (auto simp: call_def Let_def split: prod.splits)

lemma call_eq: "\<exists>r w. call K c s = (c_int r, finish w r (E_call c r) s)"
  by (cases "k_call K c (world s)") (auto simp: call_def)

lemma c_int_zero: "c_int r = 0 \<longleftrightarrow> r = Inr 0"
  by (cases r) auto

lemma c_int_pos: "0 \<le> c_int r \<longleftrightarrow> (\<exists>n. r = Inr n \<and> 0 \<le> n)"
  by (cases r) auto

lemma call_value_trace:
  "call_value K c s = ((n, v), s') \<Longrightarrow>
    \<exists>r. trace s' = trace s @ [E_call c r] \<and>
      (n, v) = (case r of Inl _ \<Rightarrow> (-1, 0) | Inr v \<Rightarrow> (0, v)) \<and>
      (\<forall>e. r = Inl e \<longrightarrow> errno s' = e) \<and> out s' = out s \<and> err s' = err s"
  by (cases "fst (k_call K c (world s))")
     (auto simp: call_value_def Let_def case_prod_beta)

lemma sys_read_trace:
  "sys_read K fd n s = ((m, d), s') \<Longrightarrow>
    \<exists>r. trace s' = trace s @ [E_read fd n r] \<and> (m, d) = filled r \<and> length d \<le> n \<and>
      (\<forall>e. r = Inl e \<longrightarrow> errno s' = e) \<and> out s' = out s \<and> err s' = err s"
  by (cases "fst (k_read K fd n (world s))")
     (auto simp: sys_read_def Let_def at_most_def filled_def case_prod_beta)

lemma sys_write_trace:
  "sys_write K fd d s = (m, s') \<Longrightarrow>
    \<exists>r. trace s' = trace s @ [E_write fd d r] \<and>
      m = (case r of Inl _ \<Rightarrow> -1 | Inr k \<Rightarrow> int k) \<and> m \<le> int (length d) \<and>
      (\<forall>e. r = Inl e \<longrightarrow> errno s' = e) \<and> out s' = out s \<and> err s' = err s"
  by (cases "fst (k_write K fd d (world s))")
     (auto simp: sys_write_def Let_def case_prod_beta)

lemma sys_wait_trace:
  "sys_wait K fd n s = ((m, evs), s') \<Longrightarrow>
    \<exists>r. trace s' = trace s @ [E_wait fd n r] \<and> (m, evs) = filled r \<and> length evs \<le> n \<and>
      (\<forall>e. r = Inl e \<longrightarrow> errno s' = e) \<and> out s' = out s \<and> err s' = err s"
  by (cases "fst (k_wait K fd n (world s))")
     (auto simp: sys_wait_def Let_def at_most_def filled_def case_prod_beta)

lemma sys_pipe_trace:
  "sys_pipe K s = ((m, a, b), s') \<Longrightarrow>
    \<exists>r. trace s' = trace s @ [E_pipe r] \<and>
      (m, a, b) = (case r of Inl _ \<Rightarrow> (-1, -1, -1) | Inr (a, b) \<Rightarrow> (0, a, b)) \<and>
      out s' = out s \<and> err s' = err s"
  by (auto simp: sys_pipe_def Let_def split: prod.splits)

lemma sys_waitpid_trace:
  "sys_waitpid K pid s = ((m, st), s') \<Longrightarrow>
    \<exists>r. trace s' = trace s @ [E_waitpid pid r] \<and>
      (m, st) = (case r of Inl _ \<Rightarrow> (-1, 0) | Inr st \<Rightarrow> (pid, st)) \<and>
      (\<forall>e. r = Inl e \<longrightarrow> errno s' = e) \<and> out s' = out s \<and> err s' = err s"
  by (auto simp: sys_waitpid_def Let_def split: prod.splits)

text \<open>A run that makes these calls and prints nothing.\<close>

definition extends :: "event list \<Rightarrow> 'w os \<Rightarrow> 'w os \<Rightarrow> bool" where
  "extends evs s s' \<longleftrightarrow> trace s' = trace s @ evs \<and> out s' = out s \<and> err s' = err s"

lemma extends_refl [simp]: "extends [] s s"
  by (simp add: extends_def)

lemma extends_trans: "extends evs s s1 \<Longrightarrow> extends evs' s1 s' \<Longrightarrow> extends (evs @ evs') s s'"
  by (simp add: extends_def)

text \<open>
  Events in which only descriptors are closed that were opened there before, or that are in a
  given set.
\<close>

fun fd_opened :: "event \<Rightarrow> int set" where
  "fd_opened (E_call (Sys_open p fl) (Inr fd)) = {fd}"
| "fd_opened _ = {}"

fun fd_closed :: "event \<Rightarrow> int set" where
  "fd_closed (E_call (Sys_close fd) r) = {fd}"
| "fd_closed _ = {}"

fun closes_from :: "int set \<Rightarrow> event list \<Rightarrow> bool" where
  "closes_from fds [] \<longleftrightarrow> True"
| "closes_from fds (ev # evs) \<longleftrightarrow>
     fd_closed ev \<subseteq> fds \<and> closes_from (fds \<union> fd_opened ev) evs"

definition closes_own :: "event list \<Rightarrow> bool" where
  "closes_own evs \<longleftrightarrow> closes_from {} evs"

lemma closes_from_mono: "closes_from fds evs \<Longrightarrow> fds \<subseteq> fds' \<Longrightarrow> closes_from fds' evs"
proof (induction evs arbitrary: fds fds')
  case Nil
  then show ?case by simp
next
  case (Cons ev evs)
  then have "closes_from (fds \<union> fd_opened ev) evs" "fds \<union> fd_opened ev \<subseteq> fds' \<union> fd_opened ev"
    by auto
  from Cons.IH [OF this] Cons.prems show ?case by auto
qed

lemma closes_from_append:
  "closes_from fds (evs @ evs') \<longleftrightarrow>
    closes_from fds evs \<and> closes_from (fds \<union> \<Union> (fd_opened ` set evs)) evs'"
  by (induction evs arbitrary: fds) (auto simp: Un_assoc)

lemma closes_own_simps [simp]:
  "closes_own []" "closes_own evs \<Longrightarrow> closes_own evs' \<Longrightarrow> closes_own (evs @ evs')"
  by (auto simp: closes_own_def closes_from_append intro: closes_from_mono)

lemma closes_own_concat: "\<forall>b \<in> set bs. closes_own b \<Longrightarrow> closes_own (concat bs)"
  by (induction bs) simp_all

lemma closes_from_quiet:
  "\<forall>ev \<in> set evs. fd_closed ev = {} \<Longrightarrow> closes_from fds evs"
  by (induction evs arbitrary: fds) auto

text \<open>
  A descriptor that is open from before is not closed by such events, when \<open>open\<close> hands out
  only descriptors that were closed.
\<close>

lemma closes_own_other:
  assumes "closes_own evs"
    and "\<forall>e1 ev e2. evs = e1 @ ev # e2 \<and> fd \<in> fd_opened ev \<longrightarrow> fd \<in> \<Union> (fd_closed ` set e1)"
  shows "fd \<notin> \<Union> (fd_closed ` set evs) \<and> fd \<notin> \<Union> (fd_opened ` set evs)"
  using assms
proof (induction evs rule: rev_induct)
  case Nil
  then show ?case by simp
next
  case (snoc ev evs)
  have "\<forall>e1 ev e2. evs = e1 @ ev # e2 \<and> fd \<in> fd_opened ev \<longrightarrow> fd \<in> \<Union> (fd_closed ` set e1)"
    using snoc.prems(2) by (metis append_Cons append_assoc)
  moreover have "closes_own evs" using snoc.prems(1) by (simp add: closes_own_def closes_from_append)
  ultimately have IH: "fd \<notin> \<Union> (fd_closed ` set evs)" "fd \<notin> \<Union> (fd_opened ` set evs)"
    using snoc.IH by auto
  moreover have "fd \<notin> fd_opened ev" using snoc.prems(2) IH(1) by blast
  moreover have "fd \<notin> fd_closed ev"
    using snoc.prems(1) IH(2) by (auto simp: closes_own_def closes_from_append)
  ultimately show ?case by simp
qed

definition quiet :: "'w os \<Rightarrow> 'w os \<Rightarrow> bool" where
  "quiet s s' \<longleftrightarrow> (\<exists>evs. extends evs s s' \<and> closes_own evs)"

lemma quietI: "extends evs s s' \<Longrightarrow> closes_own evs \<Longrightarrow> quiet s s'"
  by (auto simp: quiet_def)

lemma quiet_refl [simp]: "quiet s s"
  by (rule quietI [OF extends_refl]) simp

lemma quiet_trans [trans]: "quiet s s1 \<Longrightarrow> quiet s1 s' \<Longrightarrow> quiet s s'"
  unfolding quiet_def by (meson extends_trans closes_own_simps(2))

lemma call_extends:
  "call K c s = (n, s') \<Longrightarrow> \<exists>r. n = c_int r \<and> extends [E_call c r] s s' \<and>
    (\<forall>e. r = Inl e \<longrightarrow> errno s' = e)"
  by (auto simp: extends_def dest: call_trace)

lemma call_quiet: "call K c s = (n, s') \<Longrightarrow> \<forall>fd. c \<noteq> Sys_close fd \<Longrightarrow> quiet s s'"
  by (cases c) (auto dest!: call_extends intro!: quietI simp: closes_own_def)

lemma sys_read_extends:
  "sys_read K fd n s = ((m, d), s') \<Longrightarrow> \<exists>r. extends [E_read fd n r] s s' \<and> (m, d) = filled r \<and>
    length d \<le> n \<and> (\<forall>e. r = Inl e \<longrightarrow> errno s' = e)"
  by (auto simp: extends_def dest: sys_read_trace)

lemma sys_write_extends:
  "sys_write K fd d s = (m, s') \<Longrightarrow> \<exists>r. extends [E_write fd d r] s s' \<and>
    m = (case r of Inl _ \<Rightarrow> -1 | Inr k \<Rightarrow> int k) \<and> m \<le> int (length d) \<and>
    (\<forall>e. r = Inl e \<longrightarrow> errno s' = e)"
  by (auto simp: extends_def dest: sys_write_trace)

lemma sys_wait_extends:
  "sys_wait K fd n s = ((m, evs), s') \<Longrightarrow> \<exists>r. extends [E_wait fd n r] s s' \<and>
    (m, evs) = filled r \<and> length evs \<le> n \<and> (\<forall>e. r = Inl e \<longrightarrow> errno s' = e)"
  by (auto simp: extends_def dest: sys_wait_trace)

lemma call_value_extends:
  "call_value K c s = (x, s') \<Longrightarrow> \<exists>r. extends [E_call c r] s s'"
  by (cases x) (auto simp: extends_def dest!: call_value_trace)

lemma call_value_quiet:
  "call_value K c s = (x, s') \<Longrightarrow> \<forall>fd. c \<noteq> Sys_close fd \<Longrightarrow> quiet s s'"
  by (cases c) (auto dest!: call_value_extends intro!: quietI simp: closes_own_def)

subsection \<open>Errors through an out-parameter\<close>

text \<open>A \<open>std::string *error\<close> that may be null; a message is stored when it is not.\<close>

definition set_error :: "string \<Rightarrow> string option \<Rightarrow> string option" where
  "set_error msg error = map_option (\<lambda>_. msg) error"

lemma set_error_simps [simp]:
  "set_error msg None = None" "set_error msg (Some e) = Some msg"
  "set_error msg (set_error msg' error) = set_error msg error"
  by (simp_all add: set_error_def option.map_comp comp_def)

subsection \<open>A scripted kernel\<close>

text \<open>
  The kernel the examples run against: its world is the list of answers still to give. A
  call takes the next answer (a failure with \<open>EAGAIN\<close> when the script is exhausted or the
  answer is not of the kind the call returns).
\<close>

datatype answer =
  A_int int | A_bytes string | A_events "(int \<times> flag list) list" | A_pair int int
| A_names "string list" | A_fail errno

definition scripted :: "(answer list) kernel" where
  "scripted = \<lparr>
     k_call = (\<lambda>_ w. case w of
         A_int n # as \<Rightarrow> (Inr n, as) | A_fail e # as \<Rightarrow> (Inl e, as)
       | _ \<Rightarrow> (Inl EAGAIN, tl w)),
     k_read = (\<lambda>_ _ w. case w of
         A_bytes d # as \<Rightarrow> (Inr d, as) | A_fail e # as \<Rightarrow> (Inl e, as)
       | _ \<Rightarrow> (Inl EAGAIN, tl w)),
     k_write = (\<lambda>_ _ w. case w of
         A_int n # as \<Rightarrow> (Inr (nat n), as) | A_fail e # as \<Rightarrow> (Inl e, as)
       | _ \<Rightarrow> (Inl EAGAIN, tl w)),
     k_readlink = (\<lambda>_ _ w. case w of
         A_bytes d # as \<Rightarrow> (Inr d, as) | A_fail e # as \<Rightarrow> (Inl e, as)
       | _ \<Rightarrow> (Inl EAGAIN, tl w)),
     k_wait = (\<lambda>_ _ w. case w of
         A_events evs # as \<Rightarrow> (Inr evs, as) | A_fail e # as \<Rightarrow> (Inl e, as)
       | _ \<Rightarrow> (Inl EAGAIN, tl w)),
     k_pipe = (\<lambda>w. case w of
         A_pair a b # as \<Rightarrow> (Inr (a, b), as) | A_fail e # as \<Rightarrow> (Inl e, as)
       | _ \<Rightarrow> (Inl EAGAIN, tl w)),
     k_waitpid = (\<lambda>_ w. case w of
         A_int n # as \<Rightarrow> (Inr n, as) | A_fail e # as \<Rightarrow> (Inl e, as)
       | _ \<Rightarrow> (Inl EAGAIN, tl w)),
     k_listdir = (\<lambda>_ w. case w of A_names ns # as \<Rightarrow> (ns, as) | _ \<Rightarrow> ([], tl w)),
     k_mincore = (\<lambda>_ _ w. case w of
         A_bytes d # as \<Rightarrow> (Inr d, as) | A_fail e # as \<Rightarrow> (Inl e, as)
       | _ \<Rightarrow> (Inl EAGAIN, tl w)),
     strerror = (\<lambda>e. ''error'')\<rparr>"

lemma scripted_simps [simp]:
  "k_call scripted c (A_int n # as) = (Inr n, as)"
  "k_call scripted c (A_fail e # as) = (Inl e, as)"
  "k_read scripted fd m (A_bytes d # as) = (Inr d, as)"
  "k_read scripted fd m (A_fail e # as) = (Inl e, as)"
  "k_write scripted fd d (A_int n # as) = (Inr (nat n), as)"
  "k_write scripted fd d (A_fail e # as) = (Inl e, as)"
  "k_readlink scripted p m (A_bytes d # as) = (Inr d, as)"
  "k_readlink scripted p m (A_fail e # as) = (Inl e, as)"
  "k_wait scripted fd m (A_events evs # as) = (Inr evs, as)"
  "k_wait scripted fd m (A_fail e # as) = (Inl e, as)"
  "k_pipe scripted (A_pair a b # as) = (Inr (a, b), as)"
  "k_pipe scripted (A_fail e # as) = (Inl e, as)"
  "k_waitpid scripted pid (A_int n # as) = (Inr n, as)"
  "k_waitpid scripted pid (A_fail e # as) = (Inl e, as)"
  "k_listdir scripted p (A_names ns # as) = (ns, as)"
  "k_mincore scripted a m (A_bytes d # as) = (Inr d, as)"
  "k_mincore scripted a m (A_fail e # as) = (Inl e, as)"
  "strerror scripted e = ''error''"
  by (simp_all add: scripted_def)

definition fresh_os :: "'w \<Rightarrow> 'w os" where
  "fresh_os w = \<lparr>world = w, errno = 0, trace = [], out = [], err = []\<rparr>"

lemma fresh_os_simps [simp]:
  "world (fresh_os w) = w" "errno (fresh_os w) = 0" "trace (fresh_os w) = []"
  "out (fresh_os w) = []" "err (fresh_os w) = []"
  by (simp_all add: fresh_os_def)

text \<open>What \<open>simp\<close> needs to run a program against a scripted kernel.\<close>

lemmas run_simps = call_def call_value_def sys_mincore_def sys_read_def sys_write_def sys_readlink_def sys_wait_def
  sys_pipe_def sys_waitpid_def sys_listdir_def at_most_def filled_def Let_def

end
