(* ===== verification/Handle.thy ===== *)
theory Handle
  imports Os "HOL-Library.Multiset"
begin

section \<open>Descriptor-owning classes: the contract and what it gives\<close>

text \<open>
  \<open>proc::FileDescriptor\<close> and \<open>ev::Socket\<close> promise the same thing: a descriptor lives in
  exactly one object and is closed once, by that object. The promise is stated here as a
  locale over the operations of such a class; \<^theory_text>\<open>Procmon_Util\<close> and \<^theory_text>\<open>Ev_Socket\<close>
  interpret it on the two classes. An object is its \<open>fd_\<close> field (negative: it owns nothing);
  a program's objects are a list of them, so that aliasing of the two sides of an assignment
  is an equality of indices.
\<close>

record 'w handle_class =
  h_reset :: "'w kernel \<Rightarrow> int \<Rightarrow> int \<Rightarrow> 'w os \<Rightarrow> int \<times> 'w os"
  h_release :: "int \<Rightarrow> int \<times> int"
  h_move :: "int \<Rightarrow> int \<times> int"
  h_assign :: "'w kernel \<Rightarrow> nat \<Rightarrow> nat \<Rightarrow> int list \<Rightarrow> 'w os \<Rightarrow> int list \<times> 'w os"
  h_destroy :: "'w kernel \<Rightarrow> int \<Rightarrow> 'w os \<Rightarrow> 'w os"

fun closed_fd :: "event \<Rightarrow> int option" where
  "closed_fd (E_call (Sys_close fd) r) = Some fd"
| "closed_fd _ = None"

definition closes :: "event list \<Rightarrow> int list" where
  "closes evs = List.map_filter closed_fd evs"

lemma closes_simps [simp]:
  "closes [] = []" "closes (evs @ evs') = closes evs @ closes evs'"
  "closes [E_call (Sys_close fd) r] = [fd]"
  by (simp_all add: closes_def List.map_filter_def)

text \<open>
  What a program does with its objects: construct one around a descriptor, move-construct
  one from another, move-assign, \<open>reset\<close>, \<open>release\<close>, destroy.
\<close>

datatype handle_op =
  New nat int | Move nat nat | Assign nat nat | Reset nat int | Release nat | Destroy nat

record 'w hstate =
  objs :: "int list"
  hos :: "'w os"
  adopted :: "int list"    \<comment> \<open>descriptors handed to an object so far\<close>
  released :: "int list"   \<comment> \<open>descriptors handed back to the program\<close>

definition owned :: "int list \<Rightarrow> int multiset" where
  "owned os = mset (filter (\<lambda>h. 0 \<le> h) os)"

definition only_valid :: "int \<Rightarrow> int list" where
  "only_valid fd = (if 0 \<le> fd then [fd] else [])"

fun hstep :: "'w handle_class \<Rightarrow> 'w kernel \<Rightarrow> handle_op \<Rightarrow> 'w hstate \<Rightarrow> 'w hstate" where
  "hstep C K (New i fd) h =
     h\<lparr>objs := (objs h)[i := fd], adopted := adopted h @ only_valid fd\<rparr>"
| "hstep C K (Move i j) h =
     (let (a, b) = h_move C (objs h ! j) in h\<lparr>objs := (objs h)[i := a, j := b]\<rparr>)"
| "hstep C K (Assign i j) h =
     (let (os, s) = h_assign C K i j (objs h) (hos h) in h\<lparr>objs := os, hos := s\<rparr>)"
| "hstep C K (Reset i fd) h =
     (let (v, s) = h_reset C K (objs h ! i) fd (hos h) in
      h\<lparr>objs := (objs h)[i := v], hos := s, adopted := adopted h @ only_valid fd\<rparr>)"
| "hstep C K (Release i) h =
     (let (r, v) = h_release C (objs h ! i) in
      h\<lparr>objs := (objs h)[i := v], released := released h @ only_valid r\<rparr>)"
| "hstep C K (Destroy i) h =
     h\<lparr>objs := (objs h)[i := -1], hos := h_destroy C K (objs h ! i) (hos h)\<rparr>"

text \<open>The language's own rules: an object is constructed where none lives.\<close>

fun legal_op :: "handle_op \<Rightarrow> int list \<Rightarrow> bool" where
  "legal_op (New i fd) os = (i < length os \<and> os ! i < 0)"
| "legal_op (Move i j) os = (i < length os \<and> j < length os \<and> i \<noteq> j \<and> os ! i < 0)"
| "legal_op (Assign i j) os = (i < length os \<and> j < length os)"
| "legal_op (Reset i fd) os = (i < length os)"
| "legal_op (Release i) os = (i < length os)"
| "legal_op (Destroy i) os = (i < length os)"

fun hrun :: "'w handle_class \<Rightarrow> 'w kernel \<Rightarrow> handle_op list \<Rightarrow> 'w hstate \<Rightarrow> 'w hstate" where
  "hrun C K [] h = h"
| "hrun C K (x # xs) h = hrun C K xs (hstep C K x h)"

fun legal_run :: "'w handle_class \<Rightarrow> 'w kernel \<Rightarrow> handle_op list \<Rightarrow> 'w hstate \<Rightarrow> bool" where
  "legal_run C K [] h = True"
| "legal_run C K (x # xs) h = (legal_op x (objs h) \<and> legal_run C K xs (hstep C K x h))"

text \<open>Every descriptor adopted is owned by an object, has been closed, or was released.\<close>

definition accounted :: "'w hstate \<Rightarrow> bool" where
  "accounted h \<longleftrightarrow>
     mset (adopted h) =
     owned (objs h) + mset (closes (trace (hos h))) + mset (released h)"

definition start_handles :: "nat \<Rightarrow> 'w \<Rightarrow> 'w hstate" where
  "start_handles n w =
     \<lparr>objs = replicate n (-1), hos = fresh_os w, adopted = [], released = []\<rparr>"

lemma owned_update:
  "i < length os \<Longrightarrow>
    owned (os[i := v]) + mset (only_valid (os ! i)) = owned os + mset (only_valid v)"
proof (induction os arbitrary: i)
  case Nil
  then show ?case by simp
next
  case (Cons x xs)
  then show ?case
    by (cases i) (auto simp: owned_def only_valid_def split: if_splits)
qed

lemma owned_replicate [simp]: "owned (replicate n (-1)) = {#}"
  by (simp add: owned_def)

lemma start_accounted: "accounted (start_handles n w)"
  by (simp add: accounted_def start_handles_def fresh_os_def)

locale owning_handle =
  fixes C :: "'w handle_class"
  assumes reset_value: "fst (h_reset C K h v s) = v"
    and reset_closes:
      "closes (trace (snd (h_reset C K h v s))) = closes (trace s) @ only_valid h"
    and release_law: "h_release C h = (h, -1)"
    and move_law: "h_move C h = (h, -1)"
    and assign_self: "h_assign C K i i os s = (os, s)"
    and assign_value: "i \<noteq> j \<Longrightarrow> fst (h_assign C K i j os s) = os[i := os ! j, j := -1]"
    and assign_closes: "i \<noteq> j \<Longrightarrow>
      closes (trace (snd (h_assign C K i j os s))) = closes (trace s) @ only_valid (os ! i)"
    and destroy_closes:
      "closes (trace (h_destroy C K h s)) = closes (trace s) @ only_valid h"
begin

lemma owned_transfer:
  assumes "i < length os" "j < length os" "i \<noteq> j"
  shows "owned (os[i := os ! j, j := -1]) + mset (only_valid (os ! i)) = owned os"
    (is "?X + ?p i = _")
proof -
  have "?X + ?p j = owned (os[i := os ! j])"
    using owned_update [of j "os[i := os ! j]" "-1"] assms by (simp add: only_valid_def)
  moreover have "owned (os[i := os ! j]) + ?p i = owned os + ?p j"
    using assms(1) by (rule owned_update)
  moreover have "(?X + ?p i) + ?p j = (?X + ?p j) + ?p i"
    by (simp only: ac_simps)
  ultimately have "(?X + ?p i) + ?p j = owned os + ?p j"
    by (simp only:)
  then show ?thesis by (rule add_right_imp_eq)
qed

lemma step_accounted:
  assumes "legal_op x (objs h)" and "accounted h"
  shows "accounted (hstep C K x h)"
proof (cases x)
  case (New i fd)
  with assms owned_update [of i "objs h" fd] show ?thesis
    by (auto simp: accounted_def only_valid_def)
next
  case (Move i j)
  with assms owned_transfer [of i "objs h" j] show ?thesis
    by (auto simp: accounted_def only_valid_def move_law)
next
  case (Assign i j)
  show ?thesis
  proof (cases "i = j")
    case True
    with Assign assms show ?thesis by (simp add: assign_self)
  next
    case False
    note laws = assign_value [OF False, of K "objs h" "hos h"]
      assign_closes [OF False, of K "objs h" "hos h"]
    with Assign assms owned_transfer [of i "objs h" j] False show ?thesis
      by (auto simp: accounted_def split: prod.splits)
  qed
next
  case (Reset i fd)
  note laws = reset_value [of K "objs h ! i" fd "hos h"] reset_closes [of K "objs h ! i" fd "hos h"]
  with Reset assms owned_update [of i "objs h" fd] show ?thesis
    by (auto simp: accounted_def split: prod.splits)
next
  case (Release i)
  with assms owned_update [of i "objs h" "-1"] show ?thesis
    by (auto simp: accounted_def release_law only_valid_def)
next
  case (Destroy i)
  with assms owned_update [of i "objs h" "-1"] show ?thesis
    by (auto simp: accounted_def destroy_closes only_valid_def)
qed

lemma run_accounted:
  "legal_run C K xs h \<Longrightarrow> accounted h \<Longrightarrow> accounted (hrun C K xs h)"
  by (induction xs arbitrary: h) (auto intro: step_accounted)

text \<open>
  From an empty start and with descriptors that are pairwise distinct while they are in
  use, nothing is closed twice or owned by two objects, and nothing released is closed.
\<close>

lemma run_linear:
  assumes "legal_run C K xs (start_handles n w)"
    and "distinct (adopted (hrun C K xs (start_handles n w)))"
  shows "let h = hrun C K xs (start_handles n w) in
    distinct (filter (\<lambda>v. 0 \<le> v) (objs h) @ closes (trace (hos h)) @ released h)"
proof -
  let ?h = "hrun C K xs (start_handles n w)"
  have "mset (adopted ?h) =
      mset (filter (\<lambda>v. 0 \<le> v) (objs ?h) @ closes (trace (hos ?h)) @ released ?h)"
    using run_accounted [OF assms(1) start_accounted] by (simp add: accounted_def owned_def)
  with assms(2) show ?thesis
    by (simp only: Let_def) (metis mset_eq_imp_distinct_iff)
qed

text \<open>No leak: when every object is gone, what was adopted was closed or released.\<close>

lemma run_no_leak:
  assumes "legal_run C K xs (start_handles n w)"
    and "\<forall>v \<in> set (objs (hrun C K xs (start_handles n w))). v < 0"
  shows "let h = hrun C K xs (start_handles n w) in
    mset (adopted h) = mset (closes (trace (hos h))) + mset (released h)"
proof -
  have "owned (objs (hrun C K xs (start_handles n w))) = {#}"
    using assms(2) by (fastforce simp: owned_def filter_empty_conv)
  with run_accounted [OF assms(1) start_accounted] show ?thesis
    by (simp add: accounted_def Let_def)
qed

end

end
