(* ===== verification/Numbers.thy ===== *)
theory Numbers
  imports Prelude
begin

section \<open>Number conversions of the standard library\<close>

text \<open>
  Printing (\<open>std::to_string\<close>, \<open>%llx\<close>) and the parsers the programs call:
  \<open>std::from_chars\<close> (no leading space, no plus sign, fails out of range), the \<open>strto*\<close>
  family (skips space, accepts a sign, saturates) and the throwing \<open>std::sto*\<close> family.
  The main results are the round trips between the printers and the parsers.
\<close>

subsection \<open>Printing\<close>

function digits :: "nat \<Rightarrow> nat \<Rightarrow> string" where
  "digits b n =
     (if b < 2 \<or> n < b then [digit_char n] else digits b (n div b) @ [digit_char (n mod b)])"
  by pat_completeness auto
termination
  by (relation "measure snd") (auto intro!: div_less_dividend)

declare digits.simps [simp del]

definition to_string :: "int \<Rightarrow> string" where
  "to_string n = (if n < 0 then CHR ''-'' # digits 10 (nat (- n)) else digits 10 (nat n))"

subsection \<open>Reading digits\<close>

definition digit_val :: "char \<Rightarrow> nat" where
  "digit_val c = (case digit_value c of None \<Rightarrow> 0 | Some d \<Rightarrow> d)"

definition value_of :: "nat \<Rightarrow> string \<Rightarrow> nat" where
  "value_of b ds = foldl (\<lambda>acc c. acc * b + digit_val c) 0 ds"

text \<open>\<open>std::from_chars(first, last, long long &)\<close>: \<open>None\<close> stands for any error code.\<close>

definition from_chars_ll :: "string \<Rightarrow> int option" where
  "from_chars_ll s =
     (let neg = prefix ''-'' s;
          ds = takeWhile isdigit (if neg then tl s else s);
          v = int (value_of 10 ds)
      in if ds = [] then None
         else let n = (if neg then - v else v) in if ll_range n then Some n else None)"

text \<open>
  The subject sequence of the \<open>strto*\<close> family: optional space, optional sign, for base 16 an
  optional \<open>0x\<close> that is followed by a digit, then the longest run of digits. The result is
  the sign and the digits (none: no conversion).
\<close>

definition strip_0x :: "nat \<Rightarrow> string \<Rightarrow> string" where
  "strip_0x b s =
     (if b = 16 \<and> 2 < length s \<and> s ! 0 = CHR ''0'' \<and> (s ! 1 = CHR ''x'' \<or> s ! 1 = CHR ''X'')
         \<and> is_digit_of 16 (s ! 2) then drop 2 s else s)"

definition strto_subject :: "nat \<Rightarrow> string \<Rightarrow> bool \<times> string" where
  "strto_subject b s =
     (let t = dropWhile isspace s;
          neg = prefix ''-'' t;
          u = (if neg \<or> prefix ''+'' t then tl t else t)
      in (neg, takeWhile (is_digit_of b) (strip_0x b u)))"

definition ull_max :: nat where
  "ull_max = 2 ^ 64 - 1"

text \<open>\<open>strtoull\<close> saturates; a minus sign negates the result modulo \<open>2 ^ 64\<close>.\<close>

definition strtoull :: "nat \<Rightarrow> string \<Rightarrow> 64 word" where
  "strtoull b s =
     (case strto_subject b s of (neg, ds) \<Rightarrow>
        let v = value_of b ds in
        if v > ull_max then of_nat ull_max
        else if neg then - of_nat v else of_nat v)"

text \<open>\<open>strtoll\<close> (and \<open>strtol\<close>, the same width on the target) saturates at both ends.\<close>

definition strtoll :: "nat \<Rightarrow> string \<Rightarrow> int" where
  "strtoll b s =
     (case strto_subject b s of (neg, ds) \<Rightarrow>
        let v = int (value_of b ds); n = (if neg then - v else v) in
        max (- (2 ^ 63)) (min n (2 ^ 63 - 1)))"

text \<open>\<open>atoi\<close>, which the C library implements as \<open>(int) strtol(s, NULL, 10)\<close>.\<close>

definition atoi :: "string \<Rightarrow> int" where
  "atoi s = to_int32 (strtoll 10 s)"

text \<open>The throwing conversions: no digits is \<open>invalid_argument\<close>, no fit \<open>out_of_range\<close>.\<close>

definition sto_signed :: "(int \<Rightarrow> bool) \<Rightarrow> string \<Rightarrow> int cpp" where
  "sto_signed fits s =
     (case strto_subject 10 s of (neg, ds) \<Rightarrow>
        if ds = [] then Inl Invalid_Argument
        else let v = int (value_of 10 ds); n = (if neg then - v else v) in
             if fits n then Inr n else Inl Out_Of_Range)"

definition stoi :: "string \<Rightarrow> int cpp" where
  "stoi s = sto_signed int_range s"

definition stoll :: "string \<Rightarrow> int cpp" where
  "stoll s = sto_signed ll_range s"

definition stoul :: "string \<Rightarrow> nat cpp" where
  "stoul s =
     (case strto_subject 10 s of (neg, ds) \<Rightarrow>
        if ds = [] then Inl Invalid_Argument
        else let v = value_of 10 ds in
             if v > ull_max then Inl Out_Of_Range
             else Inr (if neg then (2 ^ 64 - v) mod 2 ^ 64 else v))"

lemma sto_throws [numbers]:
  "stoi s = Inl e \<Longrightarrow> e = Invalid_Argument \<or> e = Out_Of_Range"
  "stoul s = Inl e \<Longrightarrow> e = Invalid_Argument \<or> e = Out_Of_Range"
  by (auto simp: stoi_def sto_signed_def stoul_def Let_def split: prod.splits if_splits)

subsection \<open>Digits that are printed are read back\<close>

lemma digit_val_digit_char [simp]: "d < 16 \<Longrightarrow> digit_val (digit_char d) = d"
  by (simp add: digit_val_def digit_value_digit_char)

lemma value_of_Nil [simp]: "value_of b [] = 0"
  by (simp add: value_of_def)

lemma value_of_snoc [simp]: "value_of b (ds @ [c]) = value_of b ds * b + digit_val c"
  by (simp add: value_of_def)

lemma digits_nonempty [simp]: "digits b n \<noteq> []"
  by (subst digits.simps) simp

lemma value_of_digits [numbers]:
  "2 \<le> b \<Longrightarrow> b \<le> 16 \<Longrightarrow> value_of b (digits b n) = n"
proof (induction b n rule: digits.induct)
  case (1 b n)
  show ?case
  proof (cases "n < b")
    case True
    with "1.prems" show ?thesis
      using value_of_snoc [of b "[]" "digit_char n"] by (simp add: digits.simps [of b n])
  next
    case False
    from "1.prems" have "n mod b < b" by simp
    with "1.prems" have "n mod b < 16" by linarith
    with False 1 show ?thesis by (simp add: digits.simps [of b n])
  qed
qed

lemma digits_all_digits [numbers]:
  "2 \<le> b \<Longrightarrow> b \<le> 16 \<Longrightarrow> \<forall>c \<in> set (digits b n). is_digit_of b c"
proof (induction b n rule: digits.induct)
  case (1 b n)
  have "n mod b < b" using "1.prems" by simp
  with 1 show ?case
    by (cases "n < b") (auto simp: digits.simps [of b n])
qed

lemma is_digit_of_mono: "is_digit_of b c \<Longrightarrow> b \<le> b' \<Longrightarrow> is_digit_of b' c"
  by (auto simp: is_digit_of_def split: option.splits)

lemma is_digit_of_plain:
  assumes "is_digit_of b c"
  shows "\<not> isspace c" and "c \<noteq> CHR ''-''" and "c \<noteq> CHR ''+''"
proof -
  from assms have "(48 \<le> ord c \<and> ord c \<le> 57) \<or> 65 \<le> ord (toupper c)"
    by (auto simp: is_digit_of_def digit_value_def isdigit_def split: option.splits if_splits)
  then have "48 \<le> ord c"
    by (auto simp: toupper_def split: if_splits)
  then show "\<not> isspace c" "c \<noteq> CHR ''-''" "c \<noteq> CHR ''+''"
    by (auto simp: isspace_def)
qed

lemma takeWhile_run [strings]:
  assumes "\<forall>c \<in> set ds. P c" and "rest = [] \<or> \<not> P (hd rest)"
  shows "takeWhile P (ds @ rest) = ds"
  using assms by (cases rest) (auto simp: takeWhile_append)

lemma digits_10_isdigit [numbers]: "\<forall>c \<in> set (digits 10 n). isdigit c"
  using digits_all_digits [of 10 n] by (simp add: isdigit_eq_is_digit_of_10)

lemma not_prefix_minus:
  assumes "\<forall>c \<in> set ds. is_digit_of b c" and "ds \<noteq> []"
  shows "\<not> prefix ''-'' (ds @ rest)" and "\<not> prefix ''+'' (ds @ rest)"
    and "dropWhile isspace (ds @ rest) = ds @ rest"
proof -
  from assms obtain c cs where ds: "ds = c # cs" and "is_digit_of b c"
    by (cases ds) auto
  note plain = is_digit_of_plain [OF \<open>is_digit_of b c\<close>]
  from ds plain show "\<not> prefix ''-'' (ds @ rest)" "\<not> prefix ''+'' (ds @ rest)"
    and "dropWhile isspace (ds @ rest) = ds @ rest" by auto
qed

text \<open>What follows a number: the end of the text or a byte that is not a digit.\<close>

definition ends_number :: "nat \<Rightarrow> string \<Rightarrow> bool" where
  "ends_number b rest \<longleftrightarrow>
     rest = [] \<or> (\<not> is_digit_of b (hd rest) \<and> hd rest \<noteq> CHR ''x'' \<and> hd rest \<noteq> CHR ''X'')"

lemma ends_number_Nil [simp]: "ends_number b []"
  by (simp add: ends_number_def)

lemma ends_number_isspace: "isspace c \<Longrightarrow> ends_number b (c # r)"
  using is_digit_of_plain(1) by (auto simp: ends_number_def isspace_def)

lemma from_chars_to_string [numbers]:
  assumes "ll_range n" and "ends_number 10 rest"
  shows "from_chars_ll (to_string n @ rest) = Some n"
proof -
  have rest: "rest = [] \<or> \<not> isdigit (hd rest)"
    using assms(2) by (auto simp: ends_number_def isdigit_eq_is_digit_of_10)
  have run: "takeWhile isdigit (digits 10 m @ rest) = digits 10 m" for m
    by (rule takeWhile_run [OF digits_10_isdigit rest])
  have head: "\<not> prefix ''-'' (digits 10 m @ rest)" for m
    using not_prefix_minus [OF digits_all_digits [of 10 m]] by simp
  show ?thesis
    using assms(1) run head
    by (auto simp: from_chars_ll_def to_string_def value_of_digits)
qed

lemma strip_0x_digits:
  assumes ds: "\<forall>c \<in> set ds. is_digit_of b c" "ds \<noteq> []" and rest: "ends_number b rest"
  shows "strip_0x b (ds @ rest) = ds @ rest"
proof (cases "1 < length ds")
  case True
  then have "(ds @ rest) ! 1 \<in> set ds" by (simp add: nth_append)
  with ds(1) have d: "is_digit_of b ((ds @ rest) ! 1)" by blast
  have "b = 16 \<Longrightarrow> (ds @ rest) ! 1 \<noteq> CHR ''x'' \<and> (ds @ rest) ! 1 \<noteq> CHR ''X''"
  proof -
    assume "b = 16"
    moreover have "\<not> is_digit_of 16 CHR ''x''" "\<not> is_digit_of 16 CHR ''X''"
      by (simp_all add: is_digit_of_def digit_value_def isdigit_def toupper_def)
    ultimately show ?thesis using d by metis
  qed
  then show ?thesis by (auto simp: strip_0x_def)
next
  case False
  with ds(2) obtain c where "ds = [c]"
    by (cases ds) auto
  then show ?thesis
    using rest by (cases rest) (auto simp: strip_0x_def ends_number_def)
qed

lemma strto_subject_digits [numbers]:
  assumes "\<forall>c \<in> set ds. is_digit_of b c" "ds \<noteq> []" and "ends_number b rest"
  shows "strto_subject b (ds @ rest) = (False, ds)"
proof -
  have "rest = [] \<or> \<not> is_digit_of b (hd rest)"
    using assms(3) by (auto simp: ends_number_def)
  then show ?thesis
    using not_prefix_minus [OF assms(1,2)] strip_0x_digits [OF assms]
      takeWhile_run [OF assms(1)]
    by (simp add: strto_subject_def)
qed

lemma strto_subject_space [numbers]:
  "isspace c \<Longrightarrow> strto_subject b (c # s) = strto_subject b s"
  by (simp add: strto_subject_def)

lemma strtoull_digits [numbers]:
  assumes "2 \<le> b" "b \<le> 16" "n \<le> ull_max" "ends_number b rest"
  shows "strtoull b (digits b n @ rest) = of_nat n"
  using strto_subject_digits [OF digits_all_digits [OF assms(1,2), of n] _ assms(4)] assms
  by (simp add: strtoull_def value_of_digits)

lemma strto_subject_to_string [numbers]:
  "ends_number 10 rest \<Longrightarrow>
    strto_subject 10 (to_string n @ rest) = (n < 0, digits 10 (nat \<bar>n\<bar>))"
proof -
  assume rest: "ends_number 10 rest"
  then have stop: "rest = [] \<or> \<not> is_digit_of 10 (hd rest)"
    by (auto simp: ends_number_def)
  note ds = digits_all_digits [of 10 "nat \<bar>n\<bar>", simplified]
  show ?thesis
  proof (cases "n < 0")
    case True
    have "strto_subject 10 (CHR ''-'' # digits 10 (nat \<bar>n\<bar>) @ rest) = (True, digits 10 (nat \<bar>n\<bar>))"
      using takeWhile_run [OF ds stop]
      by (simp add: strto_subject_def strip_0x_def isspace_def)
    with True show ?thesis by (simp add: to_string_def)
  next
    case False
    with strto_subject_digits [OF ds _ rest] show ?thesis
      by (simp add: to_string_def)
  qed
qed

lemma stoi_to_string [numbers]: "stoi (to_string n) = (if int_range n then Inr n else Inl Out_Of_Range)"
  using strto_subject_to_string [of "[]" n]
  by (auto simp: stoi_def sto_signed_def value_of_digits Let_def)

lemma strtoll_to_string [numbers]:
  "ll_range n \<Longrightarrow> ends_number 10 rest \<Longrightarrow> strtoll 10 (to_string n @ rest) = n"
  using strto_subject_to_string [of rest n]
  by (auto simp: strtoll_def value_of_digits ll_range_def Let_def)

end
