(* ===== verification/Procmon_Util.thy ===== *)
theory Procmon_Util
  imports Handle Numbers
begin

section \<open>procmon: descriptors, procfs reading, parsing helpers\<close>

text \<open>
  Models \<open>procmon/src/util.cpp\<close>: the class \<open>FileDescriptor\<close>, reading a procfs file until
  end of file, and the text helpers. A \<open>std::string_view\<close> is an offset and a length into
  the string it views, so that code that computes with the address of a view (\<open>read_maps\<close>)
  can be translated; the loops keep the indices of the source, and each is proved equal to a
  reference definition on lists.
\<close>

subsection \<open>FileDescriptor\<close>

definition FileDescriptor_reset :: "'w kernel \<Rightarrow> int \<Rightarrow> int \<Rightarrow> 'w os \<Rightarrow> int \<times> 'w os" where
  "FileDescriptor_reset K fd0 fd s =
     (let s = (if 0 \<le> fd0 then snd (call K (Sys_close fd0) s) else s) in (fd, s))"

text \<open>The value returned and the new \<open>fd_\<close>.\<close>

definition FileDescriptor_release :: "int \<Rightarrow> int \<times> int" where
  "FileDescriptor_release fd0 = (fd0, -1)"

text \<open>The new object's \<open>fd_\<close> and what is left in \<open>other\<close>.\<close>

definition FileDescriptor_move :: "int \<Rightarrow> int \<times> int" where
  "FileDescriptor_move other = (other, -1)"

definition FileDescriptor_assign ::
  "'w kernel \<Rightarrow> nat \<Rightarrow> nat \<Rightarrow> int list \<Rightarrow> 'w os \<Rightarrow> int list \<times> 'w os" where
  "FileDescriptor_assign K this other os s =
     (if this \<noteq> other then
        let (v, s) = FileDescriptor_reset K (os ! this) (os ! other) s in
        (os[this := v, other := -1], s)
      else (os, s))"

definition FileDescriptor_destroy :: "'w kernel \<Rightarrow> int \<Rightarrow> 'w os \<Rightarrow> 'w os" where
  "FileDescriptor_destroy K fd0 s = snd (FileDescriptor_reset K fd0 (-1) s)"

definition FileDescriptor_open :: "'w kernel \<Rightarrow> string \<Rightarrow> flag list \<Rightarrow> 'w os \<Rightarrow> int \<times> 'w os" where
  "FileDescriptor_open K path flags s = call K (Sys_open path flags) s"

definition FileDescriptor_valid :: "int \<Rightarrow> bool" where
  "FileDescriptor_valid fd0 \<longleftrightarrow> 0 \<le> fd0"

definition FileDescriptor_class :: "'w handle_class" where
  "FileDescriptor_class = \<lparr>h_reset = FileDescriptor_reset, h_release = FileDescriptor_release,
     h_move = FileDescriptor_move, h_assign = FileDescriptor_assign,
     h_destroy = FileDescriptor_destroy\<rparr>"

lemma FileDescriptor_reset_closes:
  "closes (trace (snd (FileDescriptor_reset K h v s))) = closes (trace s) @ only_valid h"
  by (cases "call K (Sys_close h) s")
     (auto simp: FileDescriptor_reset_def only_valid_def dest!: call_trace)

interpretation fd: owning_handle FileDescriptor_class
  by unfold_locales
     (auto simp: FileDescriptor_class_def FileDescriptor_release_def FileDescriptor_move_def
        FileDescriptor_assign_def FileDescriptor_destroy_def FileDescriptor_reset_closes
        case_prod_beta FileDescriptor_reset_def [THEN arg_cong [of _ _ fst]] Let_def)

subsection \<open>Reading a file\<close>

partial_function (option) read_loop ::
  "'w kernel \<Rightarrow> int \<Rightarrow> string \<Rightarrow> 'w os \<Rightarrow> ((int \<times> string) \<times> 'w os) option" where
  "read_loop K fd acc s =
     (let ((n, buf), s) = sys_read K fd 4096 s in
      if n > 0 then read_loop K fd (acc @ buf) s else Some ((n, acc), s))"

definition read_file :: "'w kernel \<Rightarrow> string \<Rightarrow> 'w os \<Rightarrow> (string option \<times> 'w os) option" where
  "read_file K path s =
     (let (fd, s) = FileDescriptor_open K path [O_RDONLY] s in
      if \<not> FileDescriptor_valid fd then Some (None, FileDescriptor_destroy K fd s)
      else do {
        ((n, text), s) \<leftarrow> read_loop K fd [] s;
        Some (if n < 0 \<and> text = [] then None else Some text, FileDescriptor_destroy K fd s)
      })"

text \<open>The bytes a sequence of events read from one descriptor.\<close>

fun read_of :: "int \<Rightarrow> event \<Rightarrow> string" where
  "read_of fd (E_read fd' n r) = (if fd' = fd then snd (filled r) else [])"
| "read_of fd _ = []"

definition reads_of :: "int \<Rightarrow> event list \<Rightarrow> string" where
  "reads_of fd evs = concat (map (read_of fd) evs)"

lemma reads_of_simps [simp]:
  "reads_of fd [] = []" "reads_of fd (evs @ evs') = reads_of fd evs @ reads_of fd evs'"
  "reads_of fd [ev] = read_of fd ev"
  by (simp_all add: reads_of_def)

lemma read_loop_spec:
  assumes "read_loop K fd acc s = Some ((n, tx), s')"
  shows "\<exists>evs. trace s' = trace s @ evs \<and> tx = acc @ reads_of fd evs \<and> closes evs = [] \<and>
    n \<le> 0 \<and> out s' = out s \<and> err s' = err s"
proof -
  let ?P = "\<lambda>K fd acc s r. case r of ((n, tx), s') \<Rightarrow> \<exists>evs. trace s' = trace s @ evs \<and>
    tx = acc @ reads_of fd evs \<and> closes evs = [] \<and> n \<le> 0 \<and> out s' = out s \<and> err s' = err s"
  have "?P K fd acc s ((n, tx), s')"
  proof (rule read_loop.raw_induct [where P = ?P, OF _ assms])
    fix f K fd acc s r
    assume IH: "\<And>K fd acc s r. f K fd acc s = Some r \<Longrightarrow> ?P K fd acc s r"
      and eq: "(let ((n, buf), s) = sys_read K fd 4096 s
        in if n > 0 then f K fd (acc @ buf) s else Some ((n, acc), s)) = Some r"
    obtain n buf s1 where rd: "sys_read K fd 4096 s = ((n, buf), s1)"
      by (metis surj_pair)
    from sys_read_trace [OF rd] obtain x where tr: "trace s1 = trace s @ [E_read fd 4096 x]"
      "(n, buf) = filled x" and streams: "out s1 = out s \<and> err s1 = err s"
      by blast
    have quiet: "closes [E_read fd 4096 x] = []"
      by (simp add: closes_def List.map_filter_def)
    show "?P K fd acc s r"
    proof (cases "n > 0")
      case True
      with eq rd have "f K fd (acc @ buf) s1 = Some r" by simp
      note post = IH [OF this]
      obtain n' tx' s2 where r: "r = ((n', tx'), s2)" by (metis surj_pair)
      from post r obtain evs where evs: "trace s2 = trace s1 @ evs"
        "tx' = (acc @ buf) @ reads_of fd evs" "closes evs = []" "n' \<le> 0"
        "out s2 = out s1 \<and> err s2 = err s1" by auto
      have "trace s2 = trace s @ ([E_read fd 4096 x] @ evs)"
        "tx' = acc @ reads_of fd ([E_read fd 4096 x] @ evs)"
        "closes ([E_read fd 4096 x] @ evs) = []"
        using evs(1-3) tr(1) tr(2) [symmetric] quiet
        by (simp_all only: closes_simps reads_of_simps) simp_all
      with evs(4,5) streams r show ?thesis by auto
    next
      case False
      with eq rd have "r = ((n, acc), s1)" by simp
      with tr(1) tr(2) [symmetric] streams quiet False show ?thesis
        by (auto simp: filled_def split: sum.splits)
    qed
  qed
  then show ?thesis by simp
qed

lemma read_loop_only_reads:
  assumes "read_loop K fd acc s = Some r"
  shows "\<exists>evs. trace (snd r) = trace s @ evs \<and> (\<forall>ev \<in> set evs. \<exists>q. ev = E_read fd 4096 q) \<and>
    out (snd r) = out s \<and> err (snd r) = err s"
proof -
  let ?P = "\<lambda>K fd acc s r. \<exists>evs. trace (snd r) = trace s @ evs \<and>
    (\<forall>ev \<in> set evs. \<exists>q. ev = E_read fd 4096 q) \<and> out (snd r) = out s \<and> err (snd r) = err s"
  show ?thesis
  proof (rule read_loop.raw_induct [where P = ?P, OF _ assms], goal_cases)
    case (1 f K fd acc s r)
    obtain n buf s1 where rd: "sys_read K fd 4096 s = ((n, buf), s1)" by (metis surj_pair)
    from sys_read_trace [OF rd] obtain q where
      q: "trace s1 = trace s @ [E_read fd 4096 q]" "out s1 = out s" "err s1 = err s" by blast
    show ?case
    proof (cases "0 < n")
      case True
      with 1 rd have "f K fd (acc @ buf) s1 = Some r" by simp
      from 1(1) [OF this] obtain evs where "trace (snd r) = trace s1 @ evs"
        "\<forall>ev \<in> set evs. \<exists>q. ev = E_read fd 4096 q" "out (snd r) = out s1 \<and> err (snd r) = err s1"
        by blast
      with q show ?thesis by (intro exI [of _ "E_read fd 4096 q # evs"]) auto
    next
      case False
      with 1 rd q show ?thesis by auto
    qed
  qed
qed

text \<open>
  The loop returns exactly when the kernel reports end of file or an error after finitely
  many chunks.
\<close>

fun read_ends :: "'w kernel \<Rightarrow> int \<Rightarrow> nat \<Rightarrow> 'w \<Rightarrow> bool" where
  "read_ends K fd 0 w = False"
| "read_ends K fd (Suc m) w =
     (case k_read K fd 4096 w of
        (Inl e, w') \<Rightarrow> True
      | (Inr d, w') \<Rightarrow> d = [] \<or> read_ends K fd m w')"

lemma read_loop_returns:
  "read_ends K fd m (world s) \<Longrightarrow> \<exists>r. read_loop K fd acc s = Some r"
proof (induction m arbitrary: acc s)
  case 0
  then show ?case by simp
next
  case (Suc m)
  obtain x w where step: "k_read K fd 4096 (world s) = (x, w)"
    by (metis surj_pair)
  show ?case
  proof (cases x)
    case (Inl e)
    with step show ?thesis by (simp add: read_loop.simps [of K fd acc s] run_simps)
  next
    case (Inr d)
    show ?thesis
    proof (cases "d = []")
      case True
      with step Inr show ?thesis
        by (simp add: read_loop.simps [of K fd acc s] run_simps)
    next
      case False
      with Suc.prems step Inr have "read_ends K fd m w" by simp
      with step Inr False Suc.IH show ?thesis
        by (simp add: read_loop.simps [of K fd acc s] run_simps)
    qed
  qed
qed

lemma read_loop_ends:
  assumes "read_loop K fd acc s = Some r"
  shows "\<exists>m. read_ends K fd m (world s)"
proof (rule read_loop.raw_induct
    [where P = "\<lambda>K fd acc s r. \<exists>m. read_ends K fd m (world s)", OF _ assms])
  fix f K fd acc s r
  assume IH: "\<And>K fd acc s r. f K fd acc s = Some r \<Longrightarrow> \<exists>m. read_ends K fd m (world s)"
    and eq: "(let ((n, buf), s) = sys_read K fd 4096 s
      in if n > 0 then f K fd (acc @ buf) s else Some ((n, acc), s)) = Some r"
  obtain x w where step: "k_read K fd 4096 (world s) = (x, w)"
    by (metis surj_pair)
  show "\<exists>m. read_ends K fd m (world s)"
  proof (cases x)
    case (Inl e)
    with step have "read_ends K fd (Suc 0) (world s)" by simp
    then show ?thesis ..
  next
    case (Inr d)
    show ?thesis
    proof (cases "d = []")
      case True
      with step Inr have "read_ends K fd (Suc 0) (world s)" by simp
      then show ?thesis ..
    next
      case False
      define s1 where "s1 = snd (sys_read K fd 4096 s)"
      from step Inr False eq have "f K fd (acc @ take 4096 d) s1 = Some r" and "world s1 = w"
        by (auto simp: run_simps s1_def)
      with IH obtain m where "read_ends K fd m w" by blast
      with step Inr have "read_ends K fd (Suc m) (world s)" by simp
      then show ?thesis ..
    qed
  qed
qed

text \<open>What a call of \<open>read_file\<close> does: one open, reads, one close, and their bytes.\<close>

lemma read_file_spec:
  assumes "read_file K path s = Some (res, s')"
  shows "\<exists>r evs. trace s' = trace s @ [E_call (Sys_open path [O_RDONLY]) r] @ evs \<and>
    closes evs = only_valid (c_int r) \<and>
    (res = Some (reads_of (c_int r) evs) \<or> res = None \<and> reads_of (c_int r) evs = []) \<and>
    (c_int r < 0 \<longrightarrow> res = None \<and> evs = []) \<and> out s' = out s \<and> err s' = err s"
proof -
  obtain fd s1 where op: "call K (Sys_open path [O_RDONLY]) s = (fd, s1)"
    by (metis surj_pair)
  from call_trace [OF op] obtain r where
    r: "trace s1 = trace s @ [E_call (Sys_open path [O_RDONLY]) r]" "fd = c_int r"
    "out s1 = out s \<and> err s1 = err s" by blast
  show ?thesis
  proof (cases "0 \<le> fd")
    case False
    with assms op r show ?thesis
      by (auto simp: read_file_def FileDescriptor_open_def FileDescriptor_valid_def
          FileDescriptor_destroy_def FileDescriptor_reset_def only_valid_def
          intro!: exI [of _ r])
  next
    case True
    with assms op obtain n tx s2 where loop: "read_loop K fd [] s1 = Some ((n, tx), s2)"
      and res: "res = (if n < 0 \<and> tx = [] then None else Some tx)"
      and s': "s' = FileDescriptor_destroy K fd s2"
      by (auto simp: read_file_def FileDescriptor_open_def FileDescriptor_valid_def
          bind_eq_Some_conv)
    from read_loop_spec [OF loop] obtain evs where evs: "trace s2 = trace s1 @ evs"
      "tx = reads_of fd evs" "closes evs = []" "out s2 = out s1 \<and> err s2 = err s1"
      by auto
    obtain c s3 where cl: "call K (Sys_close fd) s2 = (c, s3)"
      by (metis surj_pair)
    with True s' have "s' = s3"
      by (simp add: FileDescriptor_destroy_def FileDescriptor_reset_def)
    moreover from call_trace [OF cl] obtain cr where
      "trace s3 = trace s2 @ [E_call (Sys_close fd) cr]" "out s3 = out s2 \<and> err s3 = err s2"
      by blast
    ultimately show ?thesis using evs r True res
      by (intro exI [of _ r] exI [of _ "evs @ [E_call (Sys_close fd) cr]"])
         (auto simp: only_valid_def)
  qed
qed

subsection \<open>Lines\<close>

function read_lines_loop :: "string \<Rightarrow> nat \<Rightarrow> string list \<Rightarrow> string list" where
  "read_lines_loop content start lines =
     (if start < length content then
        (case find_from (CHR 0x0A) content start of
           None \<Rightarrow> lines @ [drop start content]
         | Some e \<Rightarrow>
             read_lines_loop content (Suc e) (lines @ [substr content start (e - start)]))
      else lines)"
  by pat_completeness auto
termination
  by (relation "measure (\<lambda>(content, start, lines). length content - start)")
     (auto simp: find_from_def dest: find_char_Some)

declare read_lines_loop.simps [simp del]

definition lines_of :: "string \<Rightarrow> string list" where
  "lines_of content = read_lines_loop content 0 []"

definition read_lines :: "'w kernel \<Rightarrow> string \<Rightarrow> 'w os \<Rightarrow> (string list \<times> 'w os) option" where
  "read_lines K path s = do {
     (content, s) \<leftarrow> read_file K path s;
     (case content of None \<Rightarrow> Some ([], s) | Some content \<Rightarrow> Some (lines_of content, s))
   }"

text \<open>Reference: cut after every newline; a last line without one counts.\<close>

function split_lines :: "string \<Rightarrow> string list" where
  "split_lines s =
     (if s = [] then []
      else takeWhile (\<lambda>c. c \<noteq> CHR 0x0A) s #
           split_lines (tl (dropWhile (\<lambda>c. c \<noteq> CHR 0x0A) s)))"
  by pat_completeness auto
termination
proof (relation "measure length")
  show "wf (measure (length :: string \<Rightarrow> nat))" by simp
next
  fix s :: string
  assume "s \<noteq> []"
  then have "0 < length s" by simp
  with length_dropWhile_le [of "\<lambda>c. c \<noteq> CHR 0x0A" s]
  have "length (tl (dropWhile (\<lambda>c. c \<noteq> CHR 0x0A) s)) < length s"
    by (simp del: length_greater_0_conv)
  then show "(tl (dropWhile (\<lambda>c. c \<noteq> CHR 0x0A) s), s) \<in> measure length"
    by simp
qed

declare split_lines.simps [simp del]

lemma split_lines_Nil [simp]: "split_lines [] = []"
  by (simp add: split_lines.simps)

lemma split_lines_nonempty:
  "s \<noteq> [] \<Longrightarrow> split_lines s = takeWhile (\<lambda>c. c \<noteq> CHR 0x0A) s #
    split_lines (tl (dropWhile (\<lambda>c. c \<noteq> CHR 0x0A) s))"
  by (subst split_lines.simps) simp

lemma find_char_takeWhile:
  "find_char c s = Some i \<Longrightarrow>
    takeWhile (\<lambda>x. x \<noteq> c) s = take i s \<and> dropWhile (\<lambda>x. x \<noteq> c) s = drop i s"
proof (induction s arbitrary: i)
  case Nil
  then show ?case by simp
next
  case (Cons x xs)
  then show ?case by (cases "x = c") auto
qed

lemma split_lines_last [strings]:
  "CHR 0x0A \<notin> set l \<Longrightarrow> split_lines l = (if l = [] then [] else [l])"
proof -
  assume "CHR 0x0A \<notin> set l"
  then have all: "\<forall>c \<in> set l. c \<noteq> CHR 0x0A" by blast
  then have tw: "takeWhile (\<lambda>c. c \<noteq> CHR 0x0A) l = l"
    and dw: "dropWhile (\<lambda>c. c \<noteq> CHR 0x0A) l = []" by auto
  show ?thesis by (simp add: split_lines_nonempty tw dw)
qed

lemma read_lines_loop_eq:
  "read_lines_loop content start lines = lines @ split_lines (drop start content)"
proof (induction content start lines rule: read_lines_loop.induct)
  case (1 content start lines)
  let ?rest = "drop start content"
  show ?case
  proof (cases "start < length content")
    case False
    then show ?thesis
      by (simp add: read_lines_loop.simps [of content start])
  next
    case True
    show ?thesis
    proof (cases "find_char (CHR 0x0A) ?rest")
      case None
      then have "CHR 0x0A \<notin> set ?rest" by (simp add: find_char_None)
      with True None show ?thesis
        by (simp add: read_lines_loop.simps [of content start] find_from_def split_lines_last)
    next
      case (Some i)
      with True have "find_from (CHR 0x0A) content start = Some (start + i)"
        by (simp add: find_from_def)
      with 1 [OF True this] True find_char_takeWhile [OF Some] show ?thesis
        by (simp add: read_lines_loop.simps [of content start] substr_def
            split_lines_nonempty [of ?rest] drop_Suc tl_drop add.commute)
    qed
  qed
qed

lemma lines_of_eq: "lines_of content = split_lines content"
  by (simp add: lines_of_def read_lines_loop_eq)

lemma split_lines_append [strings]:
  "CHR 0x0A \<notin> set l \<Longrightarrow> split_lines (l @ CHR 0x0A # rest) = l # split_lines rest"
proof -
  assume l: "CHR 0x0A \<notin> set l"
  then have "\<forall>c \<in> set l. c \<noteq> CHR 0x0A" by blast
  then have "takeWhile (\<lambda>c. c \<noteq> CHR 0x0A) (l @ CHR 0x0A # rest) = l"
    "dropWhile (\<lambda>c. c \<noteq> CHR 0x0A) (l @ CHR 0x0A # rest) = CHR 0x0A # rest"
    by (simp_all add: takeWhile_append2 dropWhile_append2)
  then show ?thesis by (simp add: split_lines_nonempty)
qed

text \<open>A text made of terminated lines is cut into exactly these lines.\<close>

definition unlines :: "string list \<Rightarrow> string" where
  "unlines ls = concat (map (\<lambda>l. l @ [CHR 0x0A]) ls)"

lemma lines_of_unlines [strings]:
  "\<forall>l \<in> set ls. CHR 0x0A \<notin> set l \<Longrightarrow> lines_of (unlines ls) = ls"
  unfolding lines_of_eq
  by (induction ls) (simp_all add: unlines_def split_lines_append)

subsection \<open>Properties\<close>

text \<open>C16: Whatever sequence of constructions, moves, assignments (to itself too), resets,
  releases and destructions a program performs on \<open>FileDescriptor\<close> objects, every
  descriptor handed to them is accounted for exactly once: it is owned by one object, was
  closed, or was released.\<close>

theorem FileDescriptor_ownership:
  assumes "legal_run FileDescriptor_class K ops (start_handles n w)"
  shows "let h = hrun FileDescriptor_class K ops (start_handles n w) in
    mset (adopted h) = owned (objs h) + mset (closes (trace (hos h))) + mset (released h)"
  using fd.run_accounted [OF assms start_accounted] by (simp add: accounted_def Let_def)

theorem FileDescriptor_ownership_witness:
  "let h = hrun FileDescriptor_class scripted
      [New 0 5, Move 1 0, Assign 1 1, New 0 6, Assign 0 1, Reset 0 7, Release 0]
      (start_handles 2 []) in
    mset (adopted h) = owned (objs h) + mset (closes (trace (hos h))) + mset (released h)"
  by (rule FileDescriptor_ownership)
     (simp add: start_handles_def FileDescriptor_class_def FileDescriptor_move_def
        FileDescriptor_assign_def FileDescriptor_reset_def FileDescriptor_release_def
        Let_def case_prod_beta)

text \<open>\<open>read_file\<close> opens the file once, closes exactly the descriptor it opened, and
  returns the bytes of all its reads in order - also when the last read fails after some
  data; it returns no value only when the open failed or nothing was read.\<close>

theorem read_file_result:
  assumes "read_file K path s = Some (res, s')"
  shows "\<exists>r evs. trace s' = trace s @ [E_call (Sys_open path [O_RDONLY]) r] @ evs \<and>
    closes evs = only_valid (c_int r) \<and>
    (res = Some (reads_of (c_int r) evs) \<or> res = None \<and> reads_of (c_int r) evs = []) \<and>
    (c_int r < 0 \<longrightarrow> res = None \<and> evs = [])"
  using read_file_spec [OF assms] by blast

theorem read_file_result_witness:
  "\<exists>r evs. [E_call (Sys_open ''/f'' [O_RDONLY]) (Inr 3), E_read 3 4096 (Inr ''ab''),
       E_read 3 4096 (Inr ''c''), E_read 3 4096 (Inl EINTR), E_call (Sys_close 3) (Inr 0)] =
      [] @ [E_call (Sys_open ''/f'' [O_RDONLY]) r] @ evs \<and>
    closes evs = only_valid (c_int r) \<and>
    (Some ''abc'' = Some (reads_of (c_int r) evs) \<or>
     Some ''abc'' = None \<and> reads_of (c_int r) evs = []) \<and>
    (c_int r < 0 \<longrightarrow> Some ''abc'' = None \<and> evs = [])"
proof -
  let ?s = "fresh_os [A_int 3, A_bytes ''ab'', A_bytes ''c'', A_fail EINTR, A_int 0]"
  let ?tr = "[E_call (Sys_open ''/f'' [O_RDONLY]) (Inr 3), E_read 3 4096 (Inr ''ab''),
    E_read 3 4096 (Inr ''c''), E_read 3 4096 (Inl EINTR), E_call (Sys_close 3) (Inr 0)]"
  have "\<exists>s'. read_file scripted ''/f'' ?s = Some (Some ''abc'', s') \<and> trace s' = ?tr"
    by (simp add: read_file_def FileDescriptor_open_def FileDescriptor_valid_def
        FileDescriptor_destroy_def FileDescriptor_reset_def read_loop.simps run_simps)
  then obtain s' where run: "read_file scripted ''/f'' ?s = Some (Some ''abc'', s')"
    and tr: "trace s' = ?tr" by blast
  from read_file_result [OF run] tr show ?thesis by simp
qed

text \<open>C30: \<open>read_file\<close> returns exactly when the file could not be opened or the kernel
  reports its end (or an error) after finitely many chunks: the read loop has no other way
  to go on for ever.\<close>

theorem read_file_terminates:
  "(\<exists>r. read_file K path s = Some r) \<longleftrightarrow>
    (case call K (Sys_open path [O_RDONLY]) s of
       (fd, s') \<Rightarrow> fd < 0 \<or> (\<exists>m. read_ends K fd m (world s')))"
proof -
  obtain fd s1 where op: "call K (Sys_open path [O_RDONLY]) s = (fd, s1)"
    by (metis surj_pair)
  have "(\<exists>r. read_file K path s = Some r) \<longleftrightarrow> fd < 0 \<or> (\<exists>r. read_loop K fd [] s1 = Some r)"
    using op by (auto simp: read_file_def FileDescriptor_open_def FileDescriptor_valid_def
        bind_eq_Some_conv split: if_splits)
  also have "(\<exists>r. read_loop K fd [] s1 = Some r) \<longleftrightarrow> (\<exists>m. read_ends K fd m (world s1))"
    using read_loop_returns [of K fd _ s1 "[]"] read_loop_ends [of K fd "[]" s1] by blast
  finally show ?thesis using op by simp
qed

end
