(* ===== verification/Procmon_Text.thy ===== *)
theory Procmon_Text
  imports Procmon_Util
begin

section \<open>procmon: words_of, key-value files and numbers in text\<close>

text \<open>
  The second half of \<open>procmon/src/util.cpp\<close>: \<open>split_ws\<close>, \<open>trim\<close>, \<open>parse_kv\<close>,
  \<open>to_ll\<close> and \<open>is_number\<close>. A view is a record of offset and length into the viewed string.
\<close>

record string_view =
  sv_off :: nat
  sv_len :: nat

definition sv_str :: "string \<Rightarrow> string_view \<Rightarrow> string" where
  "sv_str s v = substr s (sv_off v) (sv_len v)"

subsection \<open>split_ws\<close>

text \<open>The two inner loops: advance the index while the class test holds.\<close>

function skip_while :: "(char \<Rightarrow> bool) \<Rightarrow> string \<Rightarrow> nat \<Rightarrow> nat" where
  "skip_while p s i = (if i < length s \<and> p (s ! i) then skip_while p s (Suc i) else i)"
  by pat_completeness auto
termination
  by (relation "measure (\<lambda>(p, s, i). length s - i)") auto

declare skip_while.simps [simp del]

lemma skip_while_eq: "i \<le> length s \<Longrightarrow> skip_while p s i = i + length (takeWhile p (drop i s))"
proof (induction p s i rule: skip_while.induct)
  case (1 p s i)
  show ?case
  proof (cases "i < length s \<and> p (s ! i)")
    case True
    then have "drop i s = s ! i # drop (Suc i) s" by (simp add: Cons_nth_drop_Suc)
    with 1 True show ?thesis by (simp add: skip_while.simps [of p s i])
  next
    case False
    then have "takeWhile p (drop i s) = []"
      by (cases "i < length s") (auto simp: Cons_nth_drop_Suc [symmetric])
    with False show ?thesis by (subst skip_while.simps) (simp only: if_False, simp)
  qed
qed

lemma skip_while_ge: "i \<le> skip_while p s i"
proof (induction p s i rule: skip_while.induct)
  case (1 p s i)
  then show ?case by (cases "i < length s \<and> p (s ! i)")
      (auto simp: skip_while.simps [of p s i])
qed

function split_ws_loop :: "string \<Rightarrow> nat \<Rightarrow> string_view list \<Rightarrow> string_view list" where
  "split_ws_loop s i parts =
     (if i < length s then
        (let start = skip_while isspace s i;
             e = skip_while (\<lambda>c. \<not> isspace c) s start
         in split_ws_loop s e
              (if e > start then parts @ [\<lparr>sv_off = start, sv_len = e - start\<rparr>] else parts))
      else parts)"
  by pat_completeness auto
termination
proof (relation "measure (\<lambda>(s, i, parts). length s - i)", goal_cases)
  case 1
  show ?case by simp
next
  case (2 s i parts start e)
  have "i < e"
  proof (cases "isspace (s ! i)")
    case True
    with 2 have "start = skip_while isspace s (Suc i)"
      by (simp add: skip_while.simps [of isspace s i])
    then have "i < start" using skip_while_ge [of "Suc i" isspace s] by simp
    then show ?thesis using 2 skip_while_ge [of start "\<lambda>c. \<not> isspace c" s] by simp
  next
    case False
    with 2 have "start = i" by (simp add: skip_while.simps [of isspace s i])
    with 2 False have "e = skip_while (\<lambda>c. \<not> isspace c) s (Suc i)"
      by (simp add: skip_while.simps [of "\<lambda>c. \<not> isspace c" s i])
    then show ?thesis using skip_while_ge [of "Suc i" "\<lambda>c. \<not> isspace c" s] by simp
  qed
  with 2 show ?case by auto
qed

declare split_ws_loop.simps [simp del]

definition split_ws :: "string \<Rightarrow> string_view list" where
  "split_ws s = split_ws_loop s 0 []"

text \<open>Reference: the maximal runs of bytes that are not white space.\<close>

abbreviation ink :: "char \<Rightarrow> bool" where
  "ink c \<equiv> \<not> isspace c"

function words_of :: "string \<Rightarrow> string list" where
  "words_of s =
     (let t = dropWhile isspace s in
      if t = [] then [] else takeWhile ink t # words_of (dropWhile ink t))"
  by pat_completeness auto
termination
proof (relation "measure length", goal_cases)
  case 1
  show ?case by simp
next
  case (2 s t)
  then have "ink (hd t)" using hd_dropWhile [of isspace s] by simp
  with 2(2) obtain c u where "t = c # u" "ink c" by (cases t) auto
  then have "length (dropWhile ink t) < length t"
    by (simp add: le_imp_less_Suc length_dropWhile_le)
  also have "\<dots> \<le> length s" using 2 by (simp add: length_dropWhile_le)
  finally show ?case by simp
qed

declare words_of.simps [simp del]

lemma words_of_Nil [simp]: "words_of [] = []"
  by (simp add: words_of.simps)

lemma words_of_step:
  "words_of s = (if dropWhile isspace s = [] then [] else [takeWhile ink (dropWhile isspace s)]) @
     words_of (dropWhile ink (dropWhile isspace s))"
proof (cases "dropWhile isspace s = []")
  case True
  have "words_of s = []" by (subst words_of.simps) (simp only: True Let_def simp_thms if_True)
  moreover have "dropWhile ink (dropWhile isspace s) = []" by (simp only: True dropWhile.simps)
  ultimately show ?thesis by (simp only: True simp_thms if_True words_of_Nil append_Nil)
next
  case False
  then show ?thesis by (subst words_of.simps) (simp only: Let_def if_False append.simps)
qed

lemma words_of_space [simp]: "isspace c \<Longrightarrow> words_of (c # s) = words_of s"
  by (simp add: words_of.simps [of "c # s"] words_of.simps [of s])

lemma split_ws_loop_eq:
  "i \<le> length s \<Longrightarrow>
    map (sv_str s) (split_ws_loop s i parts) = map (sv_str s) parts @ words_of (drop i s)"
proof (induction s i parts rule: split_ws_loop.induct)
  case (1 s i parts)
  let ?rest = "drop i s"
  let ?start = "i + length (takeWhile isspace ?rest)"
  let ?t = "dropWhile isspace ?rest"
  show ?case
  proof (cases "i < length s")
    case False
    then show ?thesis by (simp add: split_ws_loop.simps [of s i parts])
  next
    case True
    have start: "skip_while isspace s i = ?start" "?start \<le> length s"
      using skip_while_eq [of i s isspace] length_takeWhile_le [of isspace ?rest] True by auto
    have t: "drop ?start s = ?t"
      by (metis add.commute drop_drop dropWhile_eq_drop)
    let ?e = "?start + length (takeWhile ink ?t)"
    have e: "skip_while ink s ?start = ?e" "?e \<le> length s"
    proof -
      show "skip_while ink s ?start = ?e"
        using skip_while_eq [OF start(2), of ink] by (simp only: t)
      have "length ?t = length s - ?start" by (simp only: t [symmetric] length_drop)
      with length_takeWhile_le [of ink ?t] start(2) show "?e \<le> length s" by linarith
    qed
    have rest: "drop ?e s = dropWhile ink ?t"
      using t by (metis add.commute drop_drop dropWhile_eq_drop)
    note IH = "1.IH" [OF True start(1) [symmetric] e(1) [symmetric] e(2)]
    let ?parts = "if ?e > ?start then parts @ [\<lparr>sv_off = ?start, sv_len = ?e - ?start\<rparr>] else parts"
    have unf: "split_ws_loop s i parts = split_ws_loop s ?e ?parts"
      by (subst split_ws_loop.simps) (simp only: True if_True Let_def start(1) e(1))
    have new: "map (sv_str s) ?parts = map (sv_str s) parts @ (if ?t = [] then [] else [takeWhile ink ?t])"
    proof (cases "?t = []")
      case True
      then show ?thesis by (simp only: takeWhile.simps) simp
    next
      case False
      then have "ink (hd ?t)" using hd_dropWhile [of isspace ?rest] by simp
      with False have "takeWhile ink ?t \<noteq> []" by (cases ?t) auto
      then have pos: "?e > ?start" by simp
      have str: "sv_str s \<lparr>sv_off = ?start, sv_len = ?e - ?start\<rparr> = takeWhile ink ?t"
      proof -
        have "sv_str s \<lparr>sv_off = ?start, sv_len = ?e - ?start\<rparr> = take (length (takeWhile ink ?t)) ?t"
          by (simp only: sv_str_def substr_def string_view.simps t diff_add_inverse)
        then show ?thesis by (simp only: takeWhile_eq_take [symmetric])
      qed
      show ?thesis
        by (simp only: if_P [OF pos] if_not_P [OF False] map_append list.map str)
    qed
    have "words_of ?rest = (if ?t = [] then [] else [takeWhile ink ?t]) @ words_of (dropWhile ink ?t)"
      by (rule words_of_step)
    with IH show ?thesis by (simp only: unf new rest append_assoc)
  qed
qed

lemma split_ws_eq: "map (sv_str s) (split_ws s) = words_of s"
  by (simp add: split_ws_def split_ws_loop_eq)

text \<open>How the reference cuts a text: the facts that the parsers' proofs use.\<close>

lemma words_of_word [strings]:
  assumes "w \<noteq> []" "\<forall>c \<in> set w. ink c" "rest = [] \<or> isspace (hd rest)"
  shows "words_of (w @ rest) = w # words_of rest"
proof -
  obtain c cs where w: "w = c # cs" using assms(1) by (cases w) auto
  with assms(2) have dw: "dropWhile isspace (w @ rest) = w @ rest" by simp
  have tw: "takeWhile ink (w @ rest) = w"
    using assms(2,3) by (intro takeWhile_run) auto
  have "dropWhile ink (w @ rest) = rest"
    using assms(2,3) by (cases rest) (auto simp: dropWhile_append2)
  moreover have "w @ rest \<noteq> []" using w by simp
  ultimately show ?thesis
    by (simp only: words_of_step [of "w @ rest"] dw tw if_False append.simps)
qed

lemma words_of_spaces [strings]:
  "\<forall>c \<in> set a. isspace c \<Longrightarrow> words_of (a @ s) = words_of s"
  by (induction a) auto

lemma words_of_ink:
  "w \<in> set (words_of s) \<Longrightarrow> w \<noteq> [] \<and> (\<forall>c \<in> set w. ink c)"
proof (induction s rule: words_of.induct)
  case (1 s)
  let ?t = "dropWhile isspace s"
  show ?case
  proof (cases "?t = []")
    case True
    then have "words_of s = []" by (subst words_of.simps) (simp only: Let_def simp_thms if_True)
    with "1.prems" show ?thesis by simp
  next
    case False
    then have "ink (hd ?t)" using hd_dropWhile [of isspace s] by simp
    with False have "takeWhile ink ?t \<noteq> []" by (cases ?t) auto
    moreover have "\<forall>c \<in> set (takeWhile ink ?t). ink c" by (auto dest: set_takeWhileD)
    moreover have "words_of s = takeWhile ink ?t # words_of (dropWhile ink ?t)"
      using False by (simp only: words_of_step [of s] if_False append.simps)
    then have "w = takeWhile ink ?t \<or> w \<in> set (words_of (dropWhile ink ?t))"
      using "1.prems" by (simp only: list.set insert_iff)
    ultimately show ?thesis using 1(1) [OF refl False] by metis
  qed
qed

definition unwords :: "string list \<Rightarrow> string" where
  "unwords ws = concat (map (\<lambda>w. CHR '' '' # w) ws)"

lemma words_of_unwords [strings]:
  "\<forall>w \<in> set ws. w \<noteq> [] \<and> (\<forall>c \<in> set w. ink c) \<Longrightarrow>
    rest = [] \<or> isspace (hd rest) \<Longrightarrow> words_of (unwords ws @ rest) = ws @ words_of rest"
proof (induction ws)
  case Nil
  then show ?case by (simp add: unwords_def)
next
  case (Cons w ws)
  have sp: "isspace CHR '' ''" by (simp add: isspace_def)
  then have "unwords ws @ rest = [] \<or> isspace (hd (unwords ws @ rest))"
    using Cons.prems(2) by (cases ws) (auto simp: unwords_def)
  with Cons sp words_of_word [of w "unwords ws @ rest"] show ?case
    by (simp add: unwords_def)
qed

subsection \<open>trim\<close>

function trim_front :: "string \<Rightarrow> string" where
  "trim_front s = (if s \<noteq> [] \<and> isspace (hd s) then trim_front (tl s) else s)"
  by pat_completeness auto
termination
  by (relation "measure length") (auto simp: neq_Nil_conv)

function trim_back :: "string \<Rightarrow> string" where
  "trim_back s = (if s \<noteq> [] \<and> isspace (last s) then trim_back (butlast s) else s)"
  by pat_completeness auto
termination
  by (relation "measure length") auto

declare trim_front.simps [simp del] trim_back.simps [simp del]

definition trim :: "string \<Rightarrow> string" where
  "trim s = trim_back (trim_front s)"

lemma trim_front_eq: "trim_front s = dropWhile isspace s"
  by (induction s) (subst trim_front.simps, simp)+

lemma trim_back_snoc: "trim_back (s @ [c]) = (if isspace c then trim_back s else s @ [c])"
  by (subst trim_back.simps) simp

lemma trim_back_Nil [simp]: "trim_back [] = []"
  by (subst trim_back.simps) simp

lemma trim_back_spaces: "\<forall>c \<in> set b. isspace c \<Longrightarrow> trim_back (s @ b) = trim_back s"
proof (induction b rule: rev_induct)
  case Nil
  then show ?case by simp
next
  case (snoc c b)
  then show ?case using trim_back_snoc [of "s @ b" c] by simp
qed

text \<open>A text that neither starts nor ends with white space.\<close>

definition trimmed :: "string \<Rightarrow> bool" where
  "trimmed s \<longleftrightarrow> s = [] \<or> (ink (hd s) \<and> ink (last s))"

lemma trim_back_trimmed: "trimmed s \<Longrightarrow> trim_back s = s"
  by (subst trim_back.simps) (auto simp: trimmed_def)

lemma trim_padded [strings]:
  assumes "\<forall>c \<in> set a. isspace c" "\<forall>c \<in> set b. isspace c" "trimmed s"
  shows "trim (a @ s @ b) = s"
proof (cases s)
  case Nil
  have "trim_front (a @ b) = []" using assms(1,2) by (auto simp: trim_front_eq)
  with Nil show ?thesis by (simp add: trim_def)
next
  case (Cons c cs)
  with assms(1,3) have "trim_front (a @ s @ b) = s @ b"
    by (simp add: trim_front_eq trimmed_def dropWhile_append2)
  then show ?thesis using assms(2,3) by (simp add: trim_def trim_back_spaces trim_back_trimmed)
qed

lemma trim_trimmed [strings]: "trimmed s \<Longrightarrow> trim s = s"
  using trim_padded [of "[]" "[]" s] by simp

lemma trimmed_trim_back: "s = [] \<or> ink (hd s) \<Longrightarrow> trimmed (trim_back s)"
proof (induction s rule: rev_induct)
  case Nil
  then show ?case by (simp add: trimmed_def)
next
  case (snoc c s)
  show ?case
  proof (cases "isspace c")
    case True
    moreover have "s = [] \<or> ink (hd s)" using snoc.prems by (cases s) auto
    ultimately show ?thesis using snoc.IH by (simp add: trim_back_snoc)
  next
    case False
    with snoc.prems show ?thesis by (simp add: trim_back_snoc trimmed_def)
  qed
qed

lemma trimmed_trim: "trimmed (trim s)"
proof -
  have "dropWhile isspace s = [] \<or> ink (hd (dropWhile isspace s))"
    using hd_dropWhile [of isspace s] by blast
  then show ?thesis by (simp add: trim_def trim_front_eq trimmed_trim_back)
qed

subsection \<open>parse_kv, to_ll, is_number\<close>

type_synonym kv = "(string \<times> string) list"

text \<open>\<open>unordered_map::emplace\<close> keeps the entry that is already there.\<close>

definition emplace :: "kv \<Rightarrow> string \<Rightarrow> string \<Rightarrow> kv" where
  "emplace kv k v = (case map_of kv k of None \<Rightarrow> kv @ [(k, v)] | Some _ \<Rightarrow> kv)"

fun parse_kv_loop :: "kv \<Rightarrow> string list \<Rightarrow> kv" where
  "parse_kv_loop kv [] = kv"
| "parse_kv_loop kv (line # ls) =
     (case find_char CHR '':'' line of
        None \<Rightarrow> parse_kv_loop kv ls
      | Some colon \<Rightarrow>
          parse_kv_loop
            (emplace kv (trim (take colon line)) (trim (drop (colon + 1) line))) ls)"

definition parse_kv :: "'w kernel \<Rightarrow> string \<Rightarrow> 'w os \<Rightarrow> (kv \<times> 'w os) option" where
  "parse_kv K path s = do {
     (ls, s) \<leftarrow> read_lines K path s;
     Some (parse_kv_loop [] ls, s)
   }"

definition to_ll :: "string \<Rightarrow> int option" where
  "to_ll s = (let s = trim s in if s = [] then None else from_chars_ll s)"

definition is_number :: "string \<Rightarrow> bool" where
  "is_number s \<longleftrightarrow> s \<noteq> [] \<and> list_all isdigit s"

subsection \<open>What the helpers compute\<close>

lemma concat_words_of: "concat (words_of s) = filter ink s"
proof (induction s rule: words_of.induct)
  case (1 s)
  let ?t = "dropWhile isspace s"
  have s: "s = takeWhile isspace s @ takeWhile ink ?t @ dropWhile ink ?t" by simp
  have f: "filter ink s = takeWhile ink ?t @ filter ink (dropWhile ink ?t)"
  proof -
    have "filter ink (takeWhile isspace s) = []" "filter ink (takeWhile ink ?t) = takeWhile ink ?t"
      by (auto simp: filter_id_conv filter_empty_conv dest: set_takeWhileD)
    then show ?thesis by (subst s, unfold filter_append) (simp only: append_Nil)
  qed
  show ?case
  proof (cases "?t = []")
    case True
    with f have "filter ink s = []" by (simp only: takeWhile.simps dropWhile.simps filter.simps append.simps)
    moreover have "words_of s = []" by (subst words_of.simps) (simp only: True Let_def simp_thms if_True)
    ultimately show ?thesis by (simp only: concat.simps)
  next
    case False
    have "words_of s = takeWhile ink ?t # words_of (dropWhile ink ?t)"
      using False by (simp only: words_of_step [of s] if_False append.simps)
    with 1(1) [OF refl False] f show ?thesis by (simp only: concat.simps)
  qed
qed

lemma split_ws_loop_views:
  "i \<le> length s \<Longrightarrow> list_all (\<lambda>v. sv_off v + sv_len v \<le> length s) parts \<Longrightarrow>
    list_all (\<lambda>v. sv_off v + sv_len v \<le> length s) (split_ws_loop s i parts)"
proof (induction s i parts rule: split_ws_loop.induct)
  case (1 s i parts)
  have bound: "j \<le> length s \<Longrightarrow> skip_while p s j \<le> length s" for j p
    using skip_while_eq [of j s p] length_takeWhile_le [of p "drop j s"] by auto
  show ?case
  proof (cases "i < length s")
    case True
    let ?st = "skip_while isspace s i" and ?e = "skip_while ink s (skip_while isspace s i)"
    have "?st \<le> ?e" "?e \<le> length s"
      using skip_while_ge bound "1.prems"(1) by auto
    with "1.IH" [OF True refl refl] "1.prems" True show ?thesis
      by (simp add: split_ws_loop.simps [of s i parts] Let_def)
  next
    case False
    then have "split_ws_loop s i parts = parts"
      by (simp add: split_ws_loop.simps [of s i parts])
    with "1.prems" show ?thesis by simp
  qed
qed

lemma trim_back_append: "s \<noteq> [] \<Longrightarrow> ink (last s) \<Longrightarrow> trim_back (s @ b) = s @ trim_back b"
proof (induction b rule: rev_induct)
  case Nil
  then show ?case by (subst trim_back.simps) simp
next
  case (snoc c b)
  then show ?case using trim_back_snoc [of "s @ b" c] by (simp add: trim_back_snoc)
qed

lemma trim_back_hd: "trim_back b = [] \<or> hd (trim_back b) = hd b"
proof (induction b rule: rev_induct)
  case Nil
  then show ?case by simp
next
  case (snoc c b)
  show ?case
  proof (cases "isspace c")
    case True
    then have "trim_back (b @ [c]) = trim_back b" by (simp add: trim_back_snoc)
    with snoc.IH show ?thesis by (cases "b = []") (auto simp: hd_append)
  next
    case False
    then show ?thesis using trim_back_snoc [of b c] by simp
  qed
qed

lemma to_string_ink: "to_string n \<noteq> []" "ink (hd (to_string n))" "ink (last (to_string n))"
proof -
  have "hd (digits 10 m) \<in> set (digits 10 m)" "last (digits 10 m) \<in> set (digits 10 m)" for m
    by simp_all
  then have "ink (hd (digits 10 m))" "ink (last (digits 10 m))" for m
    using digits_10_isdigit by (metis isdigit_not_isspace)+
  moreover have "ink CHR ''-''" by (simp add: isspace_def)
  ultimately show "to_string n \<noteq> []" "ink (hd (to_string n))" "ink (last (to_string n))"
    by (auto simp: to_string_def)
qed

lemma to_ll_to_string [numbers]:
  assumes "ll_range n" "\<forall>c \<in> set a. isspace c" "b = [] \<or> isspace (hd b)"
  shows "to_ll (a @ to_string n @ b) = Some n"
proof -
  have "trim_front (a @ to_string n @ b) = to_string n @ b"
    using assms(2) to_string_ink [of n]
    by (cases "to_string n") (auto simp: trim_front_eq dropWhile_append2)
  then have t: "trim (a @ to_string n @ b) = to_string n @ trim_back b"
    using to_string_ink [of n] by (simp add: trim_def trim_back_append)
  have "ends_number 10 (trim_back b)"
  proof (cases "trim_back b")
    case (Cons c r)
    with assms(3) trim_back_hd [of b] have "isspace c" by auto
    with Cons show ?thesis by (simp add: ends_number_isspace)
  qed simp
  with t assms(1) to_string_ink [of n] show ?thesis
    by (simp add: to_ll_def Let_def from_chars_to_string)
qed

text \<open>A line \<open>key: value\<close> as procfs writes it.\<close>

definition kv_line :: "string \<Rightarrow> string \<times> string \<Rightarrow> string" where
  "kv_line pad p = fst p @ CHR '':'' # pad @ snd p"

definition kv_ok :: "string \<times> string \<Rightarrow> bool" where
  "kv_ok p \<longleftrightarrow> CHR '':'' \<notin> set (fst p) \<and> trimmed (fst p) \<and> trimmed (snd p)"

lemma parse_kv_loop_lines:
  assumes "\<forall>c \<in> set pad. isspace c" "\<forall>p \<in> set kvs. kv_ok p"
  shows "map_of (parse_kv_loop kv0 (map (kv_line pad) kvs)) = map_of (kv0 @ kvs)"
  using assms(2)
proof (induction kvs arbitrary: kv0)
  case Nil
  then show ?case by simp
next
  case (Cons p kvs)
  obtain k v where p: "p = (k, v)" by fastforce
  with Cons.prems have ok: "CHR '':'' \<notin> set k" "trimmed k" "trimmed v" by (auto simp: kv_ok_def)
  have "find_char CHR '':'' (kv_line pad p) = Some (length k)"
    using find_char_append [OF ok(1)] p by (simp add: kv_line_def)
  moreover have "trim (take (length k) (kv_line pad p)) = k"
    using trim_trimmed [OF ok(2)] p by (simp add: kv_line_def)
  moreover have "trim (drop (length k + 1) (kv_line pad p)) = v"
    using trim_padded [OF assms(1) _ ok(3), of "[]"] p by (simp add: kv_line_def)
  ultimately have "map_of (parse_kv_loop kv0 (map (kv_line pad) (p # kvs))) =
      map_of (emplace kv0 k v @ kvs)"
    using Cons by simp
  also have "\<dots> = map_of (kv0 @ p # kvs)"
    by (auto simp: emplace_def p map_add_def fun_eq_iff split: option.splits)
  finally show ?case .
qed

subsection \<open>Where the views of a spaced text lie\<close>

text \<open>
  A text is a list of pairs of white space and a word. \<open>views_of i ps\<close> are the views of the
  words when the text starts at index \<open>i\<close>.
\<close>

definition spaced :: "(string \<times> string) list \<Rightarrow> string" where
  "spaced ps = concat (map (\<lambda>(sp, w). sp @ w) ps)"

fun views_of :: "nat \<Rightarrow> (string \<times> string) list \<Rightarrow> string_view list" where
  "views_of i [] = []"
| "views_of i ((sp, w) # ps) =
     \<lparr>sv_off = i + length sp, sv_len = length w\<rparr> # views_of (i + length sp + length w) ps"

fun well_spaced :: "(string \<times> string) list \<Rightarrow> bool" where
  "well_spaced [] = True"
| "well_spaced ((sp, w) # ps) =
     (list_all isspace sp \<and> w \<noteq> [] \<and> list_all ink w \<and>
      (ps = [] \<or> fst (hd ps) \<noteq> []) \<and> well_spaced ps)"

lemma split_ws_loop_word:
  assumes sp: "list_all isspace sp" and w: "w \<noteq> []" "list_all ink w"
    and rest: "rest = [] \<or> isspace (hd rest)"
  shows "split_ws_loop (a @ sp @ w @ rest) (length a) parts =
    split_ws_loop (a @ sp @ w @ rest) (length a + length sp + length w)
      (parts @ [\<lparr>sv_off = length a + length sp, sv_len = length w\<rparr>])"
proof -
  let ?s = "a @ sp @ w @ rest"
  obtain c cs where c: "w = c # cs" "ink c" using w by (cases w) auto
  have tw1: "takeWhile isspace (sp @ w @ rest) = sp"
    using sp c by (intro takeWhile_run) (auto simp: list_all_iff)
  have tw2: "takeWhile ink (w @ rest) = w"
    using w rest by (intro takeWhile_run) (auto simp: list_all_iff)
  have st: "skip_while isspace ?s (length a) = length a + length sp"
    using skip_while_eq [of "length a" ?s isspace] tw1 by simp
  have e: "skip_while ink ?s (length a + length sp) = length a + length sp + length w"
    using skip_while_eq [of "length a + length sp" ?s ink] tw2 by simp
  have "length a < length ?s" "length a + length sp + length w > length a + length sp"
    using c by simp_all
  then show ?thesis
    by (subst split_ws_loop.simps) (simp only: Let_def st e if_True diff_add_inverse)
qed

lemma split_ws_loop_spaced:
  "well_spaced ps \<Longrightarrow> rest = [] \<or> isspace (hd rest) \<Longrightarrow>
    split_ws_loop (a @ spaced ps @ rest) (length a) parts =
    split_ws_loop (a @ spaced ps @ rest) (length a + length (spaced ps))
      (parts @ views_of (length a) ps)"
proof (induction ps arbitrary: a parts)
  case Nil
  then show ?case by (simp add: spaced_def)
next
  case (Cons p ps)
  obtain sp w where p: "p = (sp, w)" by fastforce
  with Cons.prems have ok: "list_all isspace sp" "w \<noteq> []" "list_all ink w" "well_spaced ps"
    and next_sp: "ps = [] \<or> fst (hd ps) \<noteq> []" by auto
  have hd_rest: "spaced ps @ rest = [] \<or> isspace (hd (spaced ps @ rest))"
  proof (cases ps)
    case Nil
    with Cons.prems(2) show ?thesis by (simp add: spaced_def)
  next
    case (Cons q qs)
    obtain sp' w' where q: "q = (sp', w')" by fastforce
    with Cons ok(4) next_sp have "sp' \<noteq> []" "list_all isspace sp'" by auto
    with Cons q show ?thesis by (cases sp') (auto simp: spaced_def)
  qed
  have eq: "a @ spaced (p # ps) @ rest = (a @ sp @ w) @ spaced ps @ rest"
    by (simp add: spaced_def p)
  have "split_ws_loop (a @ spaced (p # ps) @ rest) (length a) parts =
      split_ws_loop ((a @ sp @ w) @ spaced ps @ rest) (length (a @ sp @ w))
        (parts @ [\<lparr>sv_off = length a + length sp, sv_len = length w\<rparr>])"
    using split_ws_loop_word [OF ok(1-3) hd_rest, of a parts] by (simp add: eq add.assoc)
  also have "\<dots> = split_ws_loop ((a @ sp @ w) @ spaced ps @ rest)
      (length (a @ sp @ w) + length (spaced ps))
      ((parts @ [\<lparr>sv_off = length a + length sp, sv_len = length w\<rparr>]) @
       views_of (length (a @ sp @ w)) ps)"
    by (rule Cons.IH [OF ok(4) Cons.prems(2)])
  finally show ?case by (simp add: p spaced_def add.assoc)
qed

lemma split_ws_loop_extends: "\<exists>more. split_ws_loop s i parts = parts @ more"
proof (induction s i parts rule: split_ws_loop.induct)
  case (1 s i parts)
  let ?st = "skip_while isspace s i"
  let ?e = "skip_while ink s ?st"
  show ?case
  proof (cases "i < length s")
    case False
    then show ?thesis by (simp add: split_ws_loop.simps [of s i parts])
  next
    case True
    with "1.IH" [OF True refl refl] show ?thesis
      by (subst split_ws_loop.simps) (auto simp: Let_def split: if_splits)
  qed
qed

text \<open>The views of a spaced text, whatever follows it.\<close>

lemma split_ws_spaced [strings]:
  assumes "well_spaced ps" "rest = [] \<or> isspace (hd rest)"
  shows "\<exists>more. split_ws (spaced ps @ rest) = views_of 0 ps @ more"
  using split_ws_loop_spaced [OF assms, of "[]" "[]"]
    split_ws_loop_extends [of "spaced ps @ rest" "length (spaced ps)" "views_of 0 ps"]
  by (simp add: split_ws_def)

lemma views_of_words [strings]:
  "map (sv_str (a @ spaced ps @ rest)) (views_of (length a) ps) = map snd ps"
proof (induction ps arbitrary: a)
  case Nil
  then show ?case by simp
next
  case (Cons p ps)
  obtain sp w where p: "p = (sp, w)" by fastforce
  show ?case
    using Cons.IH [of "a @ sp @ w"] by (simp add: p spaced_def sv_str_def substr_def add.assoc)
qed

lemma views_of_last:
  "ps \<noteq> [] \<Longrightarrow>
    sv_off (last (views_of i ps)) + sv_len (last (views_of i ps)) = i + length (spaced ps)"
proof (induction ps arbitrary: i)
  case Nil
  then show ?case by simp
next
  case (Cons p ps)
  obtain sp w where p: "p = (sp, w)" by fastforce
  show ?case
  proof (cases "ps = []")
    case True
    then show ?thesis by (simp add: p spaced_def)
  next
    case False
    then have "views_of (i + length sp + length w) ps \<noteq> []"
      by (cases ps) auto
    with Cons.IH [OF False, of "i + length sp + length w"] show ?thesis
      by (simp add: p spaced_def)
  qed
qed

lemma length_views_of [simp]: "length (views_of i ps) = length ps"
  by (induction ps arbitrary: i) auto

subsection \<open>Properties\<close>

text \<open>C31: The index loop of \<open>split_ws\<close> computes the reference: the maximal runs of bytes
  that are not white space. No run is empty or contains white space, no byte is lost, and
  every view lies inside the text.\<close>

theorem split_ws_correct:
  "map (sv_str s) (split_ws s) = words_of s \<and>
   list_all (\<lambda>w. w \<noteq> [] \<and> list_all ink w) (words_of s) \<and>
   concat (words_of s) = filter ink s \<and>
   list_all (\<lambda>v. sv_off v + sv_len v \<le> length s) (split_ws s)"
  using split_ws_eq [of s] words_of_ink [of _ s] concat_words_of [of s]
    split_ws_loop_views [of 0 s "[]"]
  by (simp add: split_ws_def list_all_iff)

text \<open>C20: A key-value file in the format of \<open>/proc/meminfo\<close> is read back as the table it
  was written from; where a key occurs twice the first entry wins, and a value may itself
  contain colons.\<close>

theorem parse_kv_roundtrip:
  assumes "\<forall>c \<in> set pad. isspace c" "\<forall>p \<in> set kvs. kv_ok p"
    and "\<forall>p \<in> set kvs. CHR 0x0A \<notin> set (kv_line pad p)"
  shows "map_of (parse_kv_loop [] (lines_of (unlines (map (kv_line pad) kvs)))) = map_of kvs"
proof -
  have "lines_of (unlines (map (kv_line pad) kvs)) = map (kv_line pad) kvs"
    using assms(3) by (intro lines_of_unlines) auto
  with parse_kv_loop_lines [OF assms(1,2), of "[]"] show ?thesis by simp
qed

theorem parse_kv_roundtrip_witness:
  "map_of (parse_kv_loop [] (lines_of (unlines (map (kv_line '' '')
     [(''MemTotal'', ''16 kB''), (''Name'', ''a:b''), (''MemTotal'', ''17 kB'')])))) =
   map_of [(''MemTotal'', ''16 kB''), (''Name'', ''a:b''), (''MemTotal'', ''17 kB'')]"
  by (rule parse_kv_roundtrip)
     (simp_all add: isspace_def kv_ok_def trimmed_def kv_line_def)

text \<open>C32: \<open>to_ll\<close> inverts \<open>std::to_string\<close> on every \<open>long long\<close>, with white space before
  the number and any text that starts with white space (a unit such as \<open>kB\<close>) after it.\<close>

theorem to_ll_roundtrip:
  assumes "ll_range n" "\<forall>c \<in> set a. isspace c" "b = [] \<or> isspace (hd b)"
  shows "to_ll (a @ to_string n @ b) = Some n"
  using assms by (rule to_ll_to_string)

theorem to_ll_roundtrip_witness:
  "to_ll (''  '' @ to_string (- (2 ^ 63)) @ '' kB'') = Some (- (2 ^ 63))"
  by (rule to_ll_roundtrip) (simp_all add: ll_range_def isspace_def)

end
