(* ===== verification/Doubles.thy ===== *)
theory Doubles
  imports Numbers Complex_Main "HOL-Library.Log_Nat"
begin

section \<open>IEEE doubles as rationals\<close>

text \<open>
  A finite \<open>double\<close> is a rational number; an operation rounds its exact result to 53
  significant bits, ties to even. The values that occur (byte counts, clock ticks, seconds)
  are far from overflow and underflow, so the exponent is not bounded here. A division of a
  double by a power of two is exact and is written without rounding where that is used.
  \<open>printf\<close>'s \<open>%.Nf\<close> rounds the exact value to \<open>N\<close> decimals, ties to even.
\<close>

definition round_half_even :: "rat \<Rightarrow> int" where
  "round_half_even q =
     (let f = \<lfloor>q\<rfloor>; r = q - of_int f in
      if r < 1 / 2 \<or> (r = 1 / 2 \<and> even f) then f else f + 1)"

text \<open>The binary exponent of a positive rational: \<open>2 powi e \<le> q < 2 powi (e + 1)\<close>.\<close>

definition exponent :: "rat \<Rightarrow> int" where
  "exponent q =
     (case quotient_of q of (n, d) \<Rightarrow>
        let e = int (floorlog 2 (nat n)) - int (floorlog 2 (nat d)) in
        if 2 powi e \<le> q then e else e - 1)"

definition to_double :: "rat \<Rightarrow> rat" where
  "to_double q =
     (if q = 0 then 0
      else let u = 2 powi (exponent \<bar>q\<bar> - 52) in of_int (round_half_even (q / u)) * u)"

text \<open>\<open>%.1f\<close> and \<open>%.2f\<close> of a double, and integers padded with zeros.\<close>

definition pad_zeros :: "nat \<Rightarrow> string \<Rightarrow> string" where
  "pad_zeros n ds = replicate (n - length ds) CHR ''0'' @ ds"

definition format_fixed :: "nat \<Rightarrow> rat \<Rightarrow> string" where
  "format_fixed p q =
     (let m = nat \<bar>round_half_even (q * 10 ^ p)\<bar> in
      (if q < 0 then ''-'' else []) @ digits 10 (m div 10 ^ p) @ ''.'' @
      pad_zeros p (digits 10 (m mod 10 ^ p)))"

lemma round_half_even_of_int [simp]: "round_half_even (of_int n) = n"
  by (simp add: round_half_even_def Let_def)

lemma round_half_even_close: "\<bar>of_int (round_half_even q) - q\<bar> \<le> 1 / 2"
proof -
  have "of_int \<lfloor>q\<rfloor> \<le> q" "q < of_int \<lfloor>q\<rfloor> + 1" by linarith+
  then show ?thesis by (auto simp: round_half_even_def Let_def abs_le_iff)
qed

lemma round_half_even_mono: "p \<le> q \<Longrightarrow> round_half_even p \<le> round_half_even q"
proof -
  assume le: "p \<le> q"
  show ?thesis
  proof (cases "\<lfloor>p\<rfloor> = \<lfloor>q\<rfloor>")
    case True
    with le show ?thesis by (auto simp: round_half_even_def Let_def)
  next
    case False
    with floor_mono [OF le] have "\<lfloor>p\<rfloor> + 1 \<le> \<lfloor>q\<rfloor>" by linarith
    then show ?thesis by (auto simp: round_half_even_def Let_def)
  qed
qed

lemma exponent_bounds:
  assumes "0 < q"
  shows "2 powi exponent q \<le> q" "q < 2 powi (exponent q + 1)"
proof -
  obtain n d where nd: "quotient_of q = (n, d)" by fastforce
  then have d: "0 < d" and q: "q = of_int n / of_int d"
    using quotient_of_denom_pos quotient_of_div by auto
  with assms have n: "0 < n" by (simp add: zero_less_divide_iff)
  let ?a = "floorlog 2 (nat n)" and ?b = "floorlog 2 (nat d)"
  have fl: "2 ^ (floorlog 2 m - 1) \<le> m \<and> m < 2 ^ floorlog 2 m \<and> 0 < floorlog 2 m"
    if "0 < m" for m :: nat
    using floorlog_bounds [of m 2] that by (auto simp: floorlog_def)
  from fl [of "nat n"] fl [of "nat d"] n d
  have a: "2 ^ (?a - 1) \<le> nat n" "nat n < 2 ^ ?a" "0 < ?a"
    and b: "2 ^ (?b - 1) \<le> nat d" "nat d < 2 ^ ?b" "0 < ?b" by auto
  have real_a: "2 powi (int ?a - 1) \<le> (of_int n :: rat)" "(of_int n :: rat) < 2 powi int ?a"
  proof -
    have "(2::rat) powi (int ?a - 1) = 2 ^ (?a - 1)" using a(3)
      by (metis One_nat_def Suc_leI int_ops(2) of_nat_diff power_int_of_nat)
    moreover have "(2::rat) ^ (?a - 1) = of_int (int (2 ^ (?a - 1)))" by simp
    moreover have "int (2 ^ (?a - 1)) \<le> n" using a(1) n by linarith
    ultimately show "2 powi (int ?a - 1) \<le> (of_int n :: rat)" by (simp only: of_int_le_iff)
    have "n < int (2 ^ ?a)" using a(2) n by linarith
    moreover have "(2::rat) powi int ?a = of_int (int (2 ^ ?a))" by simp
    ultimately show "(of_int n :: rat) < 2 powi int ?a" by (simp only: of_int_less_iff)
  qed
  have real_b: "2 powi (int ?b - 1) \<le> (of_int d :: rat)" "(of_int d :: rat) < 2 powi int ?b"
  proof -
    have "(2::rat) powi (int ?b - 1) = 2 ^ (?b - 1)" using b(3)
      by (metis One_nat_def Suc_leI int_ops(2) of_nat_diff power_int_of_nat)
    moreover have "(2::rat) ^ (?b - 1) = of_int (int (2 ^ (?b - 1)))" by simp
    moreover have "int (2 ^ (?b - 1)) \<le> d" using b(1) d by linarith
    ultimately show "2 powi (int ?b - 1) \<le> (of_int d :: rat)" by (simp only: of_int_le_iff)
    have "d < int (2 ^ ?b)" using b(2) d by linarith
    moreover have "(2::rat) powi int ?b = of_int (int (2 ^ ?b))" by simp
    ultimately show "(of_int d :: rat) < 2 powi int ?b" by (simp only: of_int_less_iff)
  qed
  let ?e = "int ?a - int ?b"
  have "q < 2 powi int ?a / 2 powi (int ?b - 1)"
    unfolding q using real_a real_b d n by (intro frac_less) auto
  also have "\<dots> = 2 powi (?e + 1)"
    using power_int_diff [of "2::rat" "int ?a" "int ?b - 1"] by (simp add: algebra_simps)
  finally have up: "q < 2 powi (?e + 1)" .
  have "2 powi (int ?a - 1) / 2 powi int ?b \<le> q"
    unfolding q using real_a real_b d n by (intro frac_le) auto
  moreover have "2 powi (int ?a - 1) / 2 powi int ?b = (2::rat) powi (?e - 1)"
    using power_int_diff [of "2::rat" "int ?a - 1" "int ?b"] by (simp add: algebra_simps)
  ultimately have lo: "2 powi (?e - 1) \<le> q" by simp
  show "2 powi exponent q \<le> q" "q < 2 powi (exponent q + 1)"
    using up lo by (auto simp: exponent_def nd Let_def)
qed

lemma powi_2_less: "(2::rat) powi a < 2 powi b \<Longrightarrow> a < b"
  using power_int_increasing [of b a "2::rat"] by (force simp: not_less [symmetric])

lemma exponent_unique:
  assumes "0 < q" "2 powi e \<le> q" "q < 2 powi (e + 1)"
  shows "exponent q = e"
proof -
  note b = exponent_bounds [OF assms(1)]
  have "(2::rat) powi exponent q < 2 powi (e + 1)" "(2::rat) powi e < 2 powi (exponent q + 1)"
    using b assms by linarith+
  then have "exponent q < e + 1" "e < exponent q + 1"
    by (auto dest: powi_2_less)
  then show ?thesis by simp
qed

text \<open>Integers below \<open>2 ^ 53\<close> are doubles: the conversion is exact.\<close>

lemma to_double_of_int:
  assumes "\<bar>n\<bar> < 2 ^ 53"
  shows "to_double (of_int n) = of_int n"
proof (cases "n = 0")
  case True
  then show ?thesis by (simp add: to_double_def)
next
  case False
  let ?q = "\<bar>of_int n :: rat\<bar>" and ?e = "exponent \<bar>of_int n :: rat\<bar>"
  have q: "0 < ?q" using False by simp
  have "?q < 2 ^ 53" using assms by (simp flip: of_int_abs add: of_int_less_numeral_power_cancel_iff)
  then have "(2::rat) powi ?e < 2 powi 53" using exponent_bounds(1) [OF q] by simp
  then have "?e < 53" by (rule powi_2_less)
  then have "0 \<le> 52 - ?e" by simp
  then obtain k where k: "52 - ?e = int k" by (rule nonneg_int_cases)
  have "?e - 52 = - int k" using k by linarith
  then have u: "2 powi (?e - 52) = 1 / (2::rat) ^ k"
    by (simp only: power_int_minus_divide power_int_of_nat)
  have "of_int n / (1 / (2::rat) ^ k) = of_int (n * 2 ^ k)" by simp
  then have "to_double (of_int n) = of_int (n * 2 ^ k) * (1 / 2 ^ k)"
    using False by (simp only: to_double_def Let_def u round_half_even_of_int of_int_eq_0_iff if_False)
  then show ?thesis by simp
qed

subsection \<open>Scaling by units of 1024\<close>

text \<open>
  The loop of the functions that print a byte count: \<open>value /= 1024.0\<close> (exact for a double)
  while a larger unit is left, of the units with index up to \<open>k\<close>.
\<close>

function scale_loop :: "nat \<Rightarrow> rat \<Rightarrow> nat \<Rightarrow> rat \<times> nat" where
  "scale_loop k v u =
     (if 1024 \<le> v \<and> u < k then scale_loop k (v / 1024) (Suc u) else (v, u))"
  by pat_completeness auto
termination
  by (relation "measure (\<lambda>(k, v, u). k - u)") auto

declare scale_loop.simps [simp del]

lemma scale_loop_bounds:
  assumes "scale_loop k v u = (w, m)" and "u \<le> k"
  shows "u \<le> m \<and> m \<le> k \<and> v = w * 1024 ^ (m - u) \<and> (m < k \<longrightarrow> w < 1024) \<and> (u < m \<longrightarrow> 1 \<le> w)"
  using assms
proof (induction k v u rule: scale_loop.induct)
  case (1 k v u)
  show ?case
  proof (cases "1024 \<le> v \<and> u < k")
    case True
    with "1.prems" have "scale_loop k (v / 1024) (Suc u) = (w, m)"
      by (simp add: scale_loop.simps [of k v u])
    with 1 True have IH: "Suc u \<le> m \<and> m \<le> k \<and> v / 1024 = w * 1024 ^ (m - Suc u) \<and>
        (m < k \<longrightarrow> w < 1024) \<and> (Suc u < m \<longrightarrow> 1 \<le> w)" by simp
    then have exp: "m - u = Suc (m - Suc u)" by linarith
    have "v = w * 1024 ^ (m - u)"
      unfolding exp using IH by (simp add: field_simps)
    moreover have "1 \<le> w" using True IH by (cases "Suc u < m") auto
    ultimately show ?thesis using IH by auto
  next
    case False
    with "1.prems" show ?thesis by (auto simp: scale_loop.simps [of k v u])
  qed
qed

subsection \<open>The decimal that is printed\<close>

lemma length_digits: "n < 10 ^ k \<Longrightarrow> 0 < k \<Longrightarrow> length (digits 10 n) \<le> k"
proof (induction k arbitrary: n)
  case 0
  then show ?case by simp
next
  case (Suc k)
  show ?case
  proof (cases "n < 10")
    case True
    then show ?thesis by (simp add: digits.simps)
  next
    case False
    with Suc.prems have "0 < k" by (cases k) auto
    moreover have "n div 10 < 10 ^ k" using Suc.prems by (simp add: less_mult_imp_div_less)
    ultimately show ?thesis using Suc.IH False by (simp add: digits.simps [of 10 n])
  qed
qed

text \<open>\<open>%.1f\<close> of a non-negative double: some number of tenths, at most half a tenth off.\<close>

lemma format_fixed_1:
  assumes "0 \<le> q"
  shows "\<exists>m. format_fixed 1 q = digits 10 (m div 10) @ ''.'' @ digits 10 (m mod 10) \<and>
    \<bar>of_nat m / 10 - q\<bar> \<le> 1 / 20"
proof -
  let ?r = "round_half_even (q * 10)"
  have "round_half_even (of_int 0) \<le> ?r" by (rule round_half_even_mono) (use assms in simp)
  then have pos: "0 \<le> ?r" by (simp only: round_half_even_of_int)
  let ?m = "nat ?r"
  have "(of_nat ?m :: rat) = of_int ?r" using pos by simp
  then have "\<bar>of_nat ?m - q * 10\<bar> \<le> 1 / 2" using round_half_even_close [of "q * 10"] by simp
  then have "\<bar>of_nat ?m / 10 - q\<bar> \<le> 1 / 20" by (simp add: abs_le_iff field_simps)
  moreover have "pad_zeros 1 (digits 10 (?m mod 10)) = digits 10 (?m mod 10)"
    by (simp add: pad_zeros_def digits.simps [of 10 "?m mod 10"])
  moreover have "nat \<bar>?r\<bar> = ?m" using pos by simp
  ultimately show ?thesis using assms
    by (intro exI [of _ ?m]) (simp add: format_fixed_def Let_def)
qed

text \<open>What the functions that print a byte count write, with the units \<open>us\<close>.\<close>

definition scaled_text :: "string list \<Rightarrow> int \<Rightarrow> string" where
  "scaled_text us bytes =
     (case scale_loop (length us - 1) (to_double (of_int bytes)) 0 of (v, u) \<Rightarrow>
        take 31 ((if u = 0 then to_string bytes else format_fixed 1 v) @ us ! u))"

lemma scaled_text_accurate:
  assumes n: "0 \<le> n" "n < 2 ^ 53" and us: "us \<noteq> []" "\<forall>x \<in> set us. length x = 1"
  shows "if n < 1024 \<or> length us = 1 then scaled_text us n = to_string n @ us ! 0
    else \<exists>u m. u < length us \<and> 0 < u \<and>
      scaled_text us n = digits 10 (m div 10) @ ''.'' @ digits 10 (m mod 10) @ us ! u \<and>
      1024 ^ u \<le> n \<and> (Suc u < length us \<longrightarrow> n < 1024 ^ Suc u) \<and>
      \<bar>of_nat m / 10 - of_int n / 1024 ^ u\<bar> \<le> (1 / 20 :: rat)"
proof -
  let ?k = "length us - 1"
  have d: "to_double (of_int n) = of_int n" using n by (intro to_double_of_int) simp
  obtain v u where sc: "scale_loop ?k (of_int n) 0 = (v, u)" by fastforce
  from scale_loop_bounds [OF this] have b: "u \<le> ?k" "of_int n = v * 1024 ^ u"
    "u < ?k \<longrightarrow> v < 1024" "0 < u \<longrightarrow> 1 \<le> v" by auto
  have uk: "u < length us" using b(1) us(1) by (cases us) auto
  then have lu: "length (us ! u) = 1" using us(2) by simp
  note unf = scaled_text_def d sc [unfolded One_nat_def]
  show ?thesis
  proof (cases "u = 0")
    case True
    have "length (to_string n) \<le> 30"
      using length_digits [of "nat n" 30] n by (simp add: to_string_def)
    with True lu have "scaled_text us n = to_string n @ us ! 0" by (simp add: unf)
    moreover have "n < 1024 \<or> length us = 1"
    proof (rule disjCI)
      assume "length us \<noteq> 1"
      then have "0 < ?k" using us(1) by (cases us) auto
      with b True have "(of_int n :: rat) < of_int 1024" by simp
      then show "n < 1024" by (simp only: of_int_less_iff)
    qed
    ultimately show ?thesis by simp
  next
    case False
    then have "1 \<le> v" using b by simp
    then obtain m where m: "format_fixed 1 v = digits 10 (m div 10) @ ''.'' @ digits 10 (m mod 10)"
      "\<bar>of_nat m / 10 - v\<bar> \<le> 1 / 20" using format_fixed_1 [of v] by auto
    have "(of_int (1024 ^ u) :: rat) \<le> of_int n" using \<open>1 \<le> v\<close> b(2) by simp
    then have lo: "1024 ^ u \<le> n" by (simp only: of_int_le_iff)
    have up: "n < 1024 ^ Suc u" if "Suc u < length us"
    proof -
      from that b have "v < 1024" by simp
      then have "(of_int n :: rat) < of_int (1024 ^ Suc u)" using b(2) by simp
      then show ?thesis by (simp only: of_int_less_iff)
    qed
    have "v \<le> of_int n" using b(2) \<open>1 \<le> v\<close> by (simp add: mult_le_cancel_left1)
    moreover have "(of_int n :: rat) < 2 ^ 53"
      using n(2) by (metis of_int_less_iff of_int_numeral of_int_power)
    moreover have "of_nat m / 10 - v \<le> 1 / 20" using m(2) by (simp only: abs_le_iff)
    ultimately have "of_nat m / 10 < 2 ^ 53 + (1 :: rat)" by linarith
    then have "of_nat m < (10 ^ 20 :: rat)" by (simp add: field_simps)
    then have "m < 10 ^ 20"
      by (metis of_nat_less_iff of_nat_numeral of_nat_power)
    then have "length (digits 10 (m div 10)) \<le> 20" "length (digits 10 (m mod 10)) \<le> 1"
      by (intro length_digits; simp)+
    then have printed: "scaled_text us n = digits 10 (m div 10) @ ''.'' @ digits 10 (m mod 10) @ us ! u"
      using False lu m(1) by (simp add: unf)
    have "1024 ^ 1 \<le> (1024::int) ^ u" using False by (intro power_increasing) auto
    then have big: "\<not> (n < 1024 \<or> length us = 1)" using lo False uk by auto
    have "of_int n / 1024 ^ u = v" using b(2) by simp
    with m(2) have close: "\<bar>of_nat m / 10 - of_int n / 1024 ^ u\<bar> \<le> (1 / 20 :: rat)" by (simp only:)
    from uk False printed lo up close show ?thesis
      by (subst if_not_P [OF big]) blast
  qed
qed

end
