(* ===== verification/Procmon_Process.thy ===== *)
theory Procmon_Process
  imports Procmon_Text Doubles
begin

section \<open>procmon: processes, memory regions, threads\<close>

text \<open>
  Models \<open>procmon/src/process.cpp\<close> and the structures of \<open>process.hpp\<close>. The page size and
  the clock rate that \<open>sysconf\<close> returns are parameters. The results are those of the C++
  functions: \<open>Inl\<close> is an exception or undefined behaviour, the inner \<open>option\<close> is the
  code's \<open>std::optional\<close>, the outer one is "does not return" of the read loop. The views of
  \<open>parse_stat\<close> point into a string that is moved afterwards: see \<open>views_dangle\<close>.
\<close>

subsection \<open>/proc/<pid>/stat\<close>

record StatFields =
  sf_comm :: string
  after_comm :: "string_view list"
  sf_buffer :: string

definition stat_of :: "string \<Rightarrow> StatFields option" where
  "stat_of content =
     (case (find_char CHR ''('' content, rfind CHR '')'' content) of
        (Some open_paren, Some close_paren) \<Rightarrow>
          if close_paren < open_paren then None
          else let buffer = drop (close_paren + 1) content in
            Some \<lparr>sf_comm = substr content (open_paren + 1) (close_paren - open_paren - 1),
                  after_comm = split_ws buffer, sf_buffer = buffer\<rparr>
      | _ \<Rightarrow> None)"

definition parse_stat :: "'w kernel \<Rightarrow> string \<Rightarrow> 'w os \<Rightarrow> (StatFields option \<times> 'w os) option" where
  "parse_stat K path s = do {
     (content, s) \<leftarrow> read_file K path s;
     Some (case content of None \<Rightarrow> None | Some text \<Rightarrow> stat_of text, s)
   }"

text \<open>
  \<open>return fields\<close> moves the structure into the optional. The characters of a string of at most
  15 bytes are inside the string object itself (the small-string buffer of libstdc++), so the
  move copies them and the views still point into the local that is gone; a longer string hands
  over its allocation, and the views stay good. Reading through such a view is undefined.
\<close>

definition views_dangle :: "StatFields \<Rightarrow> bool" where
  "views_dangle f \<longleftrightarrow> after_comm f \<noteq> [] \<and> length (sf_buffer f) \<le> 15"

text \<open>\<open>one_based_index - 3\<close> is a \<open>size_t\<close> subtraction.\<close>

definition stat_field :: "StatFields \<Rightarrow> nat \<Rightarrow> int" where
  "stat_field f one_based_index =
     (let i = (one_based_index + 2 ^ 64 - 3) mod 2 ^ 64 in
      if i \<ge> length (after_comm f) then 0
      else (case to_ll (sv_str (sf_buffer f) (after_comm f ! i)) of None \<Rightarrow> 0 | Some v \<Rightarrow> v))"

definition kv_number :: "kv \<Rightarrow> string \<Rightarrow> int" where
  "kv_number kv key =
     (case map_of kv key of
        None \<Rightarrow> -1
      | Some v \<Rightarrow> (case to_ll v of None \<Rightarrow> -1 | Some n \<Rightarrow> n))"

text \<open>The character of the first field after the comm, \<open>?\<close> when there is none.\<close>

definition stat_state :: "StatFields \<Rightarrow> char" where
  "stat_state f =
     (if after_comm f \<noteq> [] \<and> sv_str (sf_buffer f) (after_comm f ! 0) \<noteq> []
      then sv_str (sf_buffer f) (after_comm f ! 0) ! 0 else CHR ''?'')"

record ProcessInfo =
  pid :: int
  ppid :: int
  comm :: string
  cmdline :: string
  state :: char
  num_threads :: int
  vsize_bytes :: int
  rss_bytes :: int
  utime_ticks :: int
  stime_ticks :: int
  start_time_ticks :: int
  priority :: int
  nice :: int
  policy :: int
  last_cpu :: int
  minor_faults :: int
  major_faults :: int
  rss_anon_kb :: int
  rss_file_kb :: int
  rss_shmem_kb :: int
  vm_data_kb :: int
  vm_stk_kb :: int
  vm_exe_kb :: int
  vm_lib_kb :: int
  vm_swap_kb :: int
  vm_hwm_kb :: int
  voluntary_ctxt :: int
  nonvoluntary_ctxt :: int

definition ProcessInfo_init :: ProcessInfo where
  "ProcessInfo_init = \<lparr>pid = 0, ppid = 0, comm = [], cmdline = [], state = CHR ''?'',
     num_threads = 0, vsize_bytes = 0, rss_bytes = 0, utime_ticks = 0, stime_ticks = 0,
     start_time_ticks = 0, priority = 0, nice = 0, policy = 0, last_cpu = -1,
     minor_faults = 0, major_faults = 0, rss_anon_kb = -1, rss_file_kb = -1,
     rss_shmem_kb = -1, vm_data_kb = -1, vm_stk_kb = -1, vm_exe_kb = -1, vm_lib_kb = -1,
     vm_swap_kb = -1, vm_hwm_kb = -1, voluntary_ctxt = -1, nonvoluntary_ctxt = -1\<rparr>"

text \<open>
  The fields from \<open>stat\<close>; the first view is read for the state. RSS is a page count there, and
  its product may overflow.
\<close>

definition process_of_stat :: "int \<Rightarrow> int \<Rightarrow> StatFields \<Rightarrow> ProcessInfo cpp" where
  "process_of_stat page_size p f =
     (if views_dangle f then Inl Undefined_Behaviour
      else cbind (ll_checked (stat_field f 24 * page_size)) (\<lambda>rss.
       Inr (ProcessInfo_init\<lparr>pid := p, comm := sf_comm f, state := stat_state f,
         ppid := to_int32 (stat_field f 4),
         minor_faults := stat_field f 10,
         major_faults := stat_field f 12,
         utime_ticks := stat_field f 14,
         stime_ticks := stat_field f 15,
         priority := stat_field f 18,
         nice := stat_field f 19,
         num_threads := stat_field f 20,
         start_time_ticks := stat_field f 22,
         vsize_bytes := stat_field f 23,
         rss_bytes := rss,
         last_cpu := to_int32 (stat_field f 39),
         policy := stat_field f 41\<rparr>)))"

definition add_status :: "kv \<Rightarrow> ProcessInfo \<Rightarrow> ProcessInfo" where
  "add_status status p = p\<lparr>
     rss_anon_kb := kv_number status ''RssAnon'',
     rss_file_kb := kv_number status ''RssFile'',
     rss_shmem_kb := kv_number status ''RssShmem'',
     vm_data_kb := kv_number status ''VmData'',
     vm_stk_kb := kv_number status ''VmStk'',
     vm_exe_kb := kv_number status ''VmExe'',
     vm_lib_kb := kv_number status ''VmLib'',
     vm_swap_kb := kv_number status ''VmSwap'',
     vm_hwm_kb := kv_number status ''VmHWM'',
     voluntary_ctxt := kv_number status ''voluntary_ctxt_switches'',
     nonvoluntary_ctxt := kv_number status ''nonvoluntary_ctxt_switches''\<rparr>"

definition add_cmdline :: "string option \<Rightarrow> ProcessInfo \<Rightarrow> ProcessInfo" where
  "add_cmdline c p =
     (case c of
        None \<Rightarrow> p
      | Some cl \<Rightarrow>
          if cl = [] then p
          else p\<lparr>cmdline := trim (map (\<lambda>x. if x = CHR 0x00 then CHR '' '' else x) cl)\<rparr>)"

definition read_process ::
  "'w kernel \<Rightarrow> int \<Rightarrow> int \<Rightarrow> 'w os \<Rightarrow> (ProcessInfo option cpp \<times> 'w os) option" where
  "read_process K page_size p s =
     (let base = ''/proc/'' @ to_string p in do {
        (fields, s) \<leftarrow> parse_stat K (base @ ''/stat'') s;
        (case fields of
           None \<Rightarrow> Some (Inr None, s)
         | Some f \<Rightarrow>
             (case process_of_stat page_size p f of
                Inl e \<Rightarrow> Some (Inl e, s)
              | Inr info \<Rightarrow> do {
                  (status, s) \<leftarrow> parse_kv K (base @ ''/status'') s;
                  (cl, s) \<leftarrow> read_file K (base @ ''/cmdline'') s;
                  Some (Inr (Some (add_cmdline cl (add_status status info))), s)
                }))
      })"

text \<open>\<open>ProcessInfo::cpu_seconds\<close>; \<open>ThreadInfo\<close> has the same body.\<close>

definition ticks_seconds :: "int \<Rightarrow> int \<Rightarrow> int \<Rightarrow> rat cpp" where
  "ticks_seconds hz utime stime =
     cbind (ll_checked (utime + stime)) (\<lambda>t.
       Inr (to_double (to_double (of_int t) / to_double (of_int hz))))"

definition cpu_seconds :: "int \<Rightarrow> ProcessInfo \<Rightarrow> rat cpp" where
  "cpu_seconds hz p = ticks_seconds hz (utime_ticks p) (stime_ticks p)"

subsection \<open>The list of processes\<close>

fun list_pids_loop :: "string list \<Rightarrow> int list \<Rightarrow> int list cpp" where
  "list_pids_loop [] pids = Inr pids"
| "list_pids_loop (name # ns) pids =
     (if \<not> is_number name then list_pids_loop ns pids
      else cbind (stoi name) (\<lambda>n. list_pids_loop ns (pids @ [n])))"

definition list_pids :: "'w kernel \<Rightarrow> 'w os \<Rightarrow> int list cpp \<times> 'w os" where
  "list_pids K s =
     (let (names, s) = sys_listdir K ''/proc'' s in
      (cbind (list_pids_loop names []) (\<lambda>pids. Inr (sort pids)), s))"

subsection \<open>/proc/<pid>/maps\<close>

record MemoryRegion =
  start :: "64 word"
  mr_end :: "64 word"
  perms :: string
  offset :: "64 word"
  dev :: string
  inode :: "64 word"
  path :: string

definition region_size :: "MemoryRegion \<Rightarrow> 64 word" where
  "region_size r = mr_end r - start r"

definition is_anonymous :: "MemoryRegion \<Rightarrow> bool" where
  "is_anonymous r \<longleftrightarrow> path r = []"

definition is_special :: "MemoryRegion \<Rightarrow> bool" where
  "is_special r \<longleftrightarrow> path r \<noteq> [] \<and> hd (path r) = CHR ''[''"

definition maps_line :: "string \<Rightarrow> MemoryRegion option" where
  "maps_line line =
     (let tokens = split_ws line; tok = (\<lambda>i. sv_str line (tokens ! i)) in
      if line = [] \<or> length tokens < 5 then None
      else (case find_char CHR ''-'' (tok 0) of
          None \<Rightarrow> None
        | Some dash \<Rightarrow>
            let path_start = sv_off (tokens ! 4) + sv_len (tokens ! 4) in
            Some \<lparr>start = strtoull 16 (substr (tok 0) 0 dash),
                  mr_end = strtoull 16 (drop (dash + 1) (tok 0)),
                  perms = tok 1,
                  offset = strtoull 16 (tok 2),
                  dev = tok 3,
                  inode = strtoull 10 (tok 4),
                  path = (if path_start < length line then trim (drop path_start line) else [])\<rparr>))"

definition read_maps ::
  "'w kernel \<Rightarrow> int \<Rightarrow> 'w os \<Rightarrow> (MemoryRegion list \<times> 'w os) option" where
  "read_maps K p s = do {
     (ls, s) \<leftarrow> read_lines K (''/proc/'' @ to_string p @ ''/maps'') s;
     Some (List.map_filter maps_line ls, s)
   }"

subsection \<open>/proc/<pid>/task\<close>

record ThreadInfo =
  tid :: int
  t_comm :: string
  t_state :: char
  t_utime_ticks :: int
  t_stime_ticks :: int
  t_last_cpu :: int
  t_priority :: int
  t_nice :: int
  t_voluntary_ctxt :: int
  t_nonvoluntary_ctxt :: int

definition thread_cpu_seconds :: "int \<Rightarrow> ThreadInfo \<Rightarrow> rat cpp" where
  "thread_cpu_seconds hz t = ticks_seconds hz (t_utime_ticks t) (t_stime_ticks t)"

text \<open>
  One directory entry: not numeric or unreadable entries are skipped (\<open>Inr None\<close>); the
  number is converted only after the \<open>stat\<close> file was read, as in the source.
\<close>

definition read_thread ::
  "'w kernel \<Rightarrow> string \<Rightarrow> string \<Rightarrow> 'w os \<Rightarrow> (ThreadInfo option cpp \<times> 'w os) option" where
  "read_thread K task_dir name s =
     (if \<not> is_number name then Some (Inr None, s)
      else do {
        (fields, s) \<leftarrow> parse_stat K (task_dir @ ''/'' @ name @ ''/stat'') s;
        (case fields of
           None \<Rightarrow> Some (Inr None, s)
         | Some f \<Rightarrow>
             (case stoi name of
                Inl e \<Rightarrow> Some (Inl e, s)
              | Inr n \<Rightarrow> if views_dangle f then Some (Inl Undefined_Behaviour, s) else do {
                  (status, s) \<leftarrow> parse_kv K (task_dir @ ''/'' @ name @ ''/status'') s;
                  Some (Inr (Some \<lparr>tid = n, t_comm = sf_comm f, t_state = stat_state f,
                    t_utime_ticks = stat_field f 14, t_stime_ticks = stat_field f 15,
                    t_last_cpu = to_int32 (stat_field f 39),
                    t_priority = stat_field f 18, t_nice = stat_field f 19,
                    t_voluntary_ctxt = kv_number status ''voluntary_ctxt_switches'',
                    t_nonvoluntary_ctxt = kv_number status ''nonvoluntary_ctxt_switches''\<rparr>), s)
                }))
      })"

fun read_threads_loop ::
  "'w kernel \<Rightarrow> string \<Rightarrow> string list \<Rightarrow> ThreadInfo list \<Rightarrow> 'w os \<Rightarrow>
    (ThreadInfo list cpp \<times> 'w os) option" where
  "read_threads_loop K task_dir [] threads s = Some (Inr threads, s)"
| "read_threads_loop K task_dir (name # ns) threads s = do {
     (r, s) \<leftarrow> read_thread K task_dir name s;
     (case r of
        Inl e \<Rightarrow> Some (Inl e, s)
      | Inr None \<Rightarrow> read_threads_loop K task_dir ns threads s
      | Inr (Some t) \<Rightarrow> read_threads_loop K task_dir ns (threads @ [t]) s)
   }"

text \<open>The thread ids of a directory are distinct, so the sorted order is unique.\<close>

definition read_threads ::
  "'w kernel \<Rightarrow> int \<Rightarrow> 'w os \<Rightarrow> (ThreadInfo list cpp \<times> 'w os) option" where
  "read_threads K p s =
     (let task_dir = ''/proc/'' @ to_string p @ ''/task'';
          (names, s) = sys_listdir K task_dir s in do {
        (threads, s) \<leftarrow> read_threads_loop K task_dir names [] s;
        Some (cbind threads (\<lambda>ts. Inr (sort_key tid ts)), s)
      })"

subsection \<open>Names\<close>

definition state_name :: "char \<Rightarrow> string" where
  "state_name c =
     (if c = CHR ''R'' then ''Running (on CPU or runnable)''
      else if c = CHR ''S'' then ''Sleeping (interruptible)''
      else if c = CHR ''D'' then ''Disk sleep (uninterruptible, usually I/O)''
      else if c = CHR ''Z'' then ''Zombie (exited, not yet reaped)''
      else if c = CHR ''T'' then ''Stopped (SIGSTOP)''
      else if c = CHR ''t'' then ''Tracing stop (debugger)''
      else if c = CHR ''X'' then ''Dead''
      else if c = CHR ''I'' then ''Idle (idle kernel thread)''
      else ''Unknown'')"

definition policy_name :: "int \<Rightarrow> string" where
  "policy_name p =
     (if p = 0 then ''SCHED_OTHER (CFS)''
      else if p = 1 then ''SCHED_FIFO (real-time)''
      else if p = 2 then ''SCHED_RR (real-time)''
      else if p = 3 then ''SCHED_BATCH''
      else if p = 5 then ''SCHED_IDLE''
      else if p = 6 then ''SCHED_DEADLINE''
      else ''Unknown('' @ to_string p @ '')'')"

subsection \<open>Parsing stat\<close>

lemma stat_of_comm:
  assumes "CHR ''('' \<notin> set pre" "CHR '')'' \<notin> set rest"
  shows "stat_of (pre @ ''('' @ cm @ '')'' @ rest) =
    Some \<lparr>sf_comm = cm, after_comm = split_ws rest, sf_buffer = rest\<rparr>"
proof -
  let ?c = "pre @ ''('' @ cm @ '')'' @ rest"
  have o: "find_char CHR ''('' ?c = Some (length pre)"
    using find_char_append [OF assms(1), of "cm @ '')'' @ rest"] by simp
  have c: "rfind CHR '')'' ?c = Some (length pre + 1 + length cm)"
    using rfind_append [OF assms(2), of "pre @ ''('' @ cm"] by simp
  have "drop (length pre + 1 + length cm + 1) ?c = rest"
    "substr ?c (length pre + 1) (length pre + 1 + length cm - length pre - 1) = cm"
    by (simp_all add: substr_def)
  with o c show ?thesis by (simp add: stat_of_def Let_def)
qed

lemma stat_field_eq:
  assumes "3 \<le> k" "k - 3 < 2 ^ 64" "map (sv_str (sf_buffer f)) (after_comm f) = ws"
  shows "stat_field f k =
    (if k - 3 < length ws then (case to_ll (ws ! (k - 3)) of None \<Rightarrow> 0 | Some v \<Rightarrow> v) else 0)"
proof -
  have "(k + 2 ^ 64 - 3) mod 2 ^ 64 = k - 3"
    using assms(1,2) by (metis Nat.add_diff_assoc2 mod_add_self2 mod_less)
  moreover have "length (after_comm f) = length ws" using assms(3) by auto
  moreover have "sv_str (sf_buffer f) (after_comm f ! (k - 3)) = ws ! (k - 3)"
    if "k - 3 < length (after_comm f)" using that assms(3) by auto
  ultimately show ?thesis by (auto simp: stat_field_def Let_def)
qed

text \<open>
  The line the kernel writes: pid, comm in parentheses, the state letter, then numbers.
\<close>

definition stat_line :: "int \<Rightarrow> string \<Rightarrow> char \<Rightarrow> int list \<Rightarrow> string" where
  "stat_line p cm st ns =
     to_string p @ '' ('' @ cm @ '')'' @ unwords ([st] # map to_string ns) @ [CHR 0x0A]"

lemma to_string_chars: "c \<in> set (to_string n) \<Longrightarrow> isdigit c \<or> c = CHR ''-''"
  using digits_10_isdigit by (auto simp: to_string_def split: if_splits)

lemma to_string_all_ink: "\<forall>c \<in> set (to_string n). ink c"
  by (auto dest!: to_string_chars simp: isspace_def isdigit_def)

lemma parens_not_in_numbers:
  "CHR ''('' \<notin> set (to_string n)" "CHR '')'' \<notin> set (to_string n)"
  by (auto dest!: to_string_chars simp: isdigit_def)

lemma stat_line_parsed:
  assumes st: "ink st" "st \<noteq> CHR '')''" and ns: "\<forall>n \<in> set ns. ll_range n"
    and len: "length ns < 2 ^ 60"
  shows "\<exists>f. stat_of (stat_line p cm st ns) = Some f \<and> sf_comm f = cm \<and> stat_state f = st \<and>
    (\<forall>k. stat_field f (k + 4) = (if k < length ns then ns ! k else 0) \<or> 2 ^ 60 \<le> k) \<and>
    (7 \<le> length ns \<longrightarrow> \<not> views_dangle f)"
proof -
  let ?rest = "unwords ([st] # map to_string ns) @ [CHR 0x0A]"
  let ?ws = "[st] # map to_string ns"
  have nl: "isspace CHR 0x0A" by (simp add: isspace_def)
  have ws: "words_of ?rest = ?ws"
    using words_of_unwords [of ?ws "[CHR 0x0A]"] st(1) to_string_ink(1) to_string_all_ink nl
    by (simp add: ball_Un)
  have rest: "CHR '')'' \<notin> set ?rest"
    using st(2) parens_not_in_numbers by (auto simp: unwords_def)
  have pre: "CHR ''('' \<notin> set (to_string p @ '' '')"
    using parens_not_in_numbers by simp
  define f where "f = \<lparr>sf_comm = cm, after_comm = split_ws ?rest, sf_buffer = ?rest\<rparr>"
  have stat: "stat_of (stat_line p cm st ns) = Some f"
    using stat_of_comm [OF pre rest, of cm] by (simp add: stat_line_def f_def)
  have views: "map (sv_str (sf_buffer f)) (after_comm f) = ?ws"
    using ws by (simp add: f_def split_ws_eq del: unwords_def)
  have "after_comm f \<noteq> [] \<and> sv_str (sf_buffer f) (after_comm f ! 0) = [st]"
    using views by (cases "after_comm f") auto
  then have state: "stat_state f = st" by (simp add: stat_state_def)
  have num: "stat_field f (k + 4) = (if k < length ns then ns ! k else 0)" if "k < 2 ^ 60" for k
  proof -
    have k: "3 \<le> k + 4" "k + 4 - 3 < 2 ^ 64" using that by auto
    have "to_ll (to_string n) = Some n" if "ll_range n" for n
      using to_ll_to_string [OF that, of "[]" "[]"] by simp
    with stat_field_eq [OF k views] ns show ?thesis by auto
  qed
  have "2 * length ns \<le> (\<Sum>n\<leftarrow>ns. Suc (length (to_string n)))"
  proof (induction ns)
    case (Cons n ns)
    moreover have "1 \<le> length (to_string n)" using to_string_ink(1) [of n] by (simp add: Suc_le_eq)
    ultimately show ?case by simp
  qed simp
  then have "\<not> views_dangle f" if "7 \<le> length ns"
    using that by (simp add: views_dangle_def f_def unwords_def length_concat comp_def)
  then show ?thesis using stat state num by (intro exI [of _ f]) (auto simp: f_def not_le)
qed

text \<open>The process that a line describes; a number that is not there counts as zero.\<close>

definition stat_number :: "int list \<Rightarrow> nat \<Rightarrow> int" where
  "stat_number ns k = (if k < length ns then ns ! k else 0)"

definition stat_process :: "int \<Rightarrow> int \<Rightarrow> string \<Rightarrow> char \<Rightarrow> int list \<Rightarrow> ProcessInfo" where
  "stat_process page_size p cm st ns = ProcessInfo_init\<lparr>pid := p, comm := cm, state := st,
     ppid := to_int32 (stat_number ns 0), minor_faults := stat_number ns 6,
     major_faults := stat_number ns 8, utime_ticks := stat_number ns 10,
     stime_ticks := stat_number ns 11, priority := stat_number ns 14, nice := stat_number ns 15,
     num_threads := stat_number ns 16, start_time_ticks := stat_number ns 18,
     vsize_bytes := stat_number ns 19, rss_bytes := stat_number ns 20 * page_size,
     last_cpu := to_int32 (stat_number ns 35), policy := stat_number ns 37\<rparr>"

lemma stat_line_process:
  assumes "ink st" "st \<noteq> CHR '')''" "\<forall>n \<in> set ns. ll_range n"
    and "7 \<le> length ns" "length ns < 2 ^ 60" "ll_range (stat_number ns 20 * page_size)"
  shows "\<exists>f. stat_of (stat_line p cm st ns) = Some f \<and>
    process_of_stat page_size p f = Inr (stat_process page_size p cm st ns)"
proof -
  from stat_line_parsed [OF assms(1-3,5), of p cm] obtain f where
    f: "stat_of (stat_line p cm st ns) = Some f" "sf_comm f = cm" "stat_state f = st" and
    num: "\<And>k. stat_field f (k + 4) = (if k < length ns then ns ! k else 0) \<or> 2 ^ 60 \<le> k" and
    good: "\<not> views_dangle f"
    using assms(4) by auto
  have at: "stat_field f (k + 4) = stat_number ns k" if "k < 38" for k
    using num [of k] that by (auto simp: stat_number_def)
  show ?thesis
    using f good assms(6) at [of 0] at [of 6] at [of 8] at [of 10] at [of 11] at [of 14] at [of 15]
      at [of 16] at [of 18] at [of 19] at [of 20] at [of 35] at [of 37]
    by (intro exI [of _ f]) (simp add: process_of_stat_def stat_process_def ll_checked_def)
qed

text \<open>A line with too little after the name is kept in the string object, and is undefined.\<close>

lemma short_stat_line:
  "\<exists>f. stat_of ''7 (sh) S 1'' = Some f \<and> process_of_stat page_size p f = Inl Undefined_Behaviour"
proof -
  have "split_ws '' S 1'' = [\<lparr>sv_off = 1, sv_len = 1\<rparr>, \<lparr>sv_off = 3, sv_len = 1\<rparr>]" by code_simp
  with stat_of_comm [of "''7 ''" "'' S 1''" "''sh''"] show ?thesis
    by (simp add: process_of_stat_def views_dangle_def)
qed

subsection \<open>Parsing maps\<close>

text \<open>A number in hexadecimal with any padding of zeros (the kernel pads to eight).\<close>

definition hex_text :: "nat \<Rightarrow> 64 word \<Rightarrow> string" where
  "hex_text z n = replicate z CHR ''0'' @ digits 16 (unat n)"

lemma value_of_zeros: "value_of b (replicate z CHR ''0'' @ ds) = value_of b ds"
proof (induction z)
  case 0
  then show ?case by simp
next
  case (Suc z)
  have "digit_val CHR ''0'' = 0" by (simp add: digit_val_def digit_value_def isdigit_def)
  then have "value_of b (CHR ''0'' # xs) = value_of b xs" for xs by (simp add: value_of_def)
  with Suc show ?case by simp
qed

lemma zero_is_digit: "is_digit_of 16 CHR ''0''" "is_digit_of 10 CHR ''0''"
  by (simp_all add: is_digit_of_def digit_value_def isdigit_def)

lemma hex_text_digits: "\<forall>c \<in> set (hex_text z n). is_digit_of 16 c" "hex_text z n \<noteq> []"
  using digits_all_digits [of 16 "unat n"] zero_is_digit by (auto simp: hex_text_def)

lemma strtoull_hex_text: "strtoull 16 (hex_text z n) = n"
proof -
  have "unat n \<le> ull_max" using unsigned_less [of n, where 'a = nat] by (simp add: ull_max_def)
  then show ?thesis
    using strto_subject_digits [OF hex_text_digits [of z n], of "[]"]
    by (simp add: strtoull_def hex_text_def value_of_zeros value_of_digits)
qed

lemma strtoull_decimal: "strtoull 10 (digits 10 (unat (n :: 64 word))) = n"
proof -
  have "unat n \<le> ull_max" using unsigned_less [of n, where 'a = nat] by (simp add: ull_max_def)
  then show ?thesis using strtoull_digits [of 10 "unat n" "[]"] by simp
qed

text \<open>A line of the maps file: five fields, then padding and the path.\<close>

definition maps_text :: "nat \<Rightarrow> string \<Rightarrow> MemoryRegion \<Rightarrow> string" where
  "maps_text z pad r =
     spaced [([], hex_text z (start r) @ ''-'' @ hex_text z (mr_end r)), ('' '', perms r),
             ('' '', hex_text z (offset r)), ('' '', dev r), ('' '', digits 10 (unat (inode r)))]
     @ '' '' @ pad @ path r"

definition region_ok :: "MemoryRegion \<Rightarrow> bool" where
  "region_ok r \<longleftrightarrow> perms r \<noteq> [] \<and> list_all ink (perms r) \<and> dev r \<noteq> [] \<and>
     list_all ink (dev r) \<and> trimmed (path r)"

lemma hex_text_ink: "list_all ink (hex_text z n)"
  using hex_text_digits [of z n] is_digit_of_plain(1) by (auto simp: list_all_iff)

lemma digits_10_ink: "list_all ink (digits 10 n)"
  using digits_10_isdigit [of n] by (auto simp: list_all_iff)

lemma maps_line_text:
  assumes ok: "region_ok r" and pad: "list_all isspace pad"
  shows "maps_line (maps_text z pad r) = Some r"
proof -
  let ?range = "hex_text z (start r) @ ''-'' @ hex_text z (mr_end r)"
  let ?ps = "[([], ?range), ('' '', perms r), ('' '', hex_text z (offset r)), ('' '', dev r),
    ('' '', digits 10 (unat (inode r)))]"
  let ?rest = "'' '' @ pad @ path r"
  have sp: "isspace CHR '' ''" "ink CHR ''-''" by (simp_all add: isspace_def)
  have "well_spaced ?ps"
    using ok sp hex_text_ink hex_text_digits(2) digits_10_ink by (simp add: region_ok_def)
  then obtain more where more: "split_ws (spaced ?ps @ ?rest) = views_of 0 ?ps @ more"
    using split_ws_spaced [of ?ps ?rest] sp by auto
  have "CHR ''-'' \<notin> set (hex_text z (start r))"
    using hex_text_digits(1) is_digit_of_plain(2) by blast
  then have dash: "find_char CHR ''-'' ?range = Some (length (hex_text z (start r)))"
    using find_char_append by simp
  have pth: "trim (?rest) = path r"
    using trim_padded [of "'' '' @ pad" "[]" "path r"] ok pad sp
    by (simp add: region_ok_def list_all_iff)
  let ?l = "spaced ?ps @ ?rest"
  have l: "maps_text z pad r = ?l" by (simp add: maps_text_def)
  define tok where "tok = (\<lambda>i. sv_str ?l ((views_of 0 ?ps @ more) ! i))"
  have tok: "tok i = snd (?ps ! i)" if "i < 5" for i
  proof -
    have "map (sv_str ?l) (views_of 0 ?ps) ! i = map snd ?ps ! i"
      using views_of_words [of "[]" ?ps ?rest] by simp
    moreover have "i < length (views_of 0 ?ps)" "i < length ?ps" using that by simp_all
    ultimately show ?thesis by (simp only: tok_def nth_map nth_append if_True)
  qed
  have toks: "tok 0 = ?range" "tok 1 = perms r" "tok 2 = hex_text z (offset r)" "tok 3 = dev r"
    "tok 4 = digits 10 (unat (inode r))"
    by (simp_all add: tok)
  have "(views_of 0 ?ps @ more) ! 4 = last (views_of 0 ?ps)"
    by (simp add: nth_append)
  then have end5: "sv_off ((views_of 0 ?ps @ more) ! 4) + sv_len ((views_of 0 ?ps @ more) ! 4) =
      length (spaced ?ps)"
    using views_of_last [of ?ps 0] by (simp only: add_0) blast
  have fin: "drop (length (spaced ?ps)) ?l = ?rest" "length (spaced ?ps) < length ?l"
    by simp_all
  have "\<not> (?l = [] \<or> length (views_of 0 ?ps @ more) < 5)" by simp
  then show ?thesis
    unfolding l maps_line_def more Let_def
    by (simp only: if_False toks [unfolded tok_def] dash option.case end5 fin pth if_True)
       (simp add: substr_def strtoull_hex_text strtoull_decimal)
qed

subsection \<open>The list of processes\<close>

lemma strto_subject_number:
  "is_number s \<Longrightarrow> strto_subject 10 s = (False, s)"
  using strto_subject_digits [of s 10 "[]"]
  by (auto simp: is_number_def list_all_iff isdigit_eq_is_digit_of_10)

lemma stoi_number:
  "is_number s \<Longrightarrow>
    stoi s = (if value_of 10 s < 2 ^ 31 then Inr (int (value_of 10 s)) else Inl Out_Of_Range)"
  by (auto simp: stoi_def sto_signed_def strto_subject_number int_range_def Let_def is_number_def)

lemma list_pids_loop_eq:
  "list_pids_loop names pids =
    (if list_all (\<lambda>n. value_of 10 n < 2 ^ 31) (filter is_number names)
     then Inr (pids @ map (\<lambda>n. int (value_of 10 n)) (filter is_number names))
     else Inl Out_Of_Range)"
  by (induction names arbitrary: pids) (simp_all add: stoi_number)

subsection \<open>Properties\<close>

text \<open>C15: A \<open>stat\<close> line is read correctly whatever the command name holds - spaces,
  opening and closing parentheses included: every field of \<open>ProcessInfo\<close> that comes from
  \<open>stat\<close> gets the number at its documented position, and RSS is the page count times the
  page size.\<close>

theorem process_of_stat_line:
  assumes "ink st" "st \<noteq> CHR '')''" "\<forall>n \<in> set ns. ll_range n"
    and "38 \<le> length ns" "length ns < 2 ^ 60" "ll_range (ns ! 20 * page_size)"
  shows "\<exists>f. stat_of (stat_line p cm st ns) = Some f \<and>
    process_of_stat page_size p f =
      Inr (ProcessInfo_init\<lparr>pid := p, comm := cm, state := st, ppid := to_int32 (ns ! 0),
        minor_faults := ns ! 6, major_faults := ns ! 8, utime_ticks := ns ! 10,
        stime_ticks := ns ! 11, priority := ns ! 14, nice := ns ! 15, num_threads := ns ! 16,
        start_time_ticks := ns ! 18, vsize_bytes := ns ! 19, rss_bytes := ns ! 20 * page_size,
        last_cpu := to_int32 (ns ! 35), policy := ns ! 37\<rparr>)"
proof -
  from stat_line_process [OF assms(1-3) _ assms(5), of page_size p cm] assms(4,6) obtain f where
    "stat_of (stat_line p cm st ns) = Some f"
    "process_of_stat page_size p f = Inr (stat_process page_size p cm st ns)"
    by (auto simp: stat_number_def)
  moreover have "ns \<noteq> []" using assms(4) by auto
  ultimately show ?thesis using assms(4)
    by (intro exI [of _ f]) (simp add: stat_process_def stat_number_def)
qed

theorem process_of_stat_line_witness:
  "\<exists>f. stat_of (stat_line 42 ''a) (b'' CHR ''S'' (map int [1..<40])) = Some f \<and>
    process_of_stat 4096 42 f =
      Inr (ProcessInfo_init\<lparr>pid := 42, comm := ''a) (b'', state := CHR ''S'', ppid := 1,
        minor_faults := 7, major_faults := 9, utime_ticks := 11,
        stime_ticks := 12, priority := 15, nice := 16, num_threads := 17,
        start_time_ticks := 19, vsize_bytes := 20, rss_bytes := 86016,
        last_cpu := 36, policy := 38\<rparr>)"
  using process_of_stat_line [of "CHR ''S''" "map int [1..<40]" 4096 42 "''a) (b''"]
  by (simp add: isspace_def ll_range_def to_int32_def)

text \<open>C19: A line of \<open>/proc/<pid>/maps\<close> is read back as the region it describes: both ends
  of the range, the permissions, offset, device and inode, and the path with the spaces
  inside it, however the addresses are padded with zeros and the path with spaces.\<close>

theorem maps_line_roundtrip:
  assumes "region_ok r" "list_all isspace pad"
  shows "maps_line (maps_text z pad r) = Some r"
  using assms by (rule maps_line_text)

theorem maps_line_roundtrip_witness:
  "maps_line (maps_text 3 ''   '' \<lparr>start = 0x7f0012, mr_end = 0x7f1012, perms = ''r-xp'',
     offset = 0x1000, dev = ''08:01'', inode = 77, path = ''/opt/my lib.so''\<rparr>) =
   Some \<lparr>start = 0x7f0012, mr_end = 0x7f1012, perms = ''r-xp'',
     offset = 0x1000, dev = ''08:01'', inode = 77, path = ''/opt/my lib.so''\<rparr>"
  by (rule maps_line_roundtrip) (simp_all add: region_ok_def trimmed_def isspace_def)

text \<open>\<open>list_pids\<close> returns the numeric names of \<open>/proc\<close>, sorted - and throws
  \<open>std::out_of_range\<close> exactly when one of them does not fit an \<open>int\<close>.\<close>

theorem list_pids_result:
  "fst (list_pids K s) =
    (let names = filter is_number (fst (sys_listdir K ''/proc'' s)) in
     if list_all (\<lambda>n. value_of 10 n < 2 ^ 31) names
     then Inr (sort (map (\<lambda>n. int (value_of 10 n)) names))
     else Inl Out_Of_Range)"
  by (simp add: list_pids_def list_pids_loop_eq case_prod_beta)

end
