(* ===== verification/Procmon_System.thy ===== *)
theory Procmon_System
  imports Procmon_Text Doubles
begin

section \<open>procmon: memory, load and uptime of the system\<close>

text \<open>
  Models \<open>procmon/src/system.cpp\<close> and the structures of \<open>system.hpp\<close>. \<open>strtod\<close> is modelled
  for decimal text with an optional fraction and exponent, which is what the kernel writes;
  its hexadecimal form, infinities and NaNs are left out.
\<close>

definition parse_sign :: "string \<Rightarrow> bool \<times> string" where
  "parse_sign t =
     (if prefix ''-'' t then (True, tl t) else if prefix ''+'' t then (False, tl t) else (False, t))"

text \<open>The exponent after the digits; without a digit there is none.\<close>

definition parse_exponent :: "string \<Rightarrow> int" where
  "parse_exponent t =
     (if t \<noteq> [] \<and> toupper (hd t) = CHR ''E'' then
        let (neg, r) = parse_sign (tl t); n = int (value_of 10 (takeWhile isdigit r)) in
        if neg then - n else n
      else 0)"

definition strtod :: "string \<Rightarrow> rat" where
  "strtod text =
     (let (neg, t) = parse_sign (dropWhile isspace text);
          whole = takeWhile isdigit t; t = dropWhile isdigit t;
          fraction = (if prefix ''.'' t then takeWhile isdigit (tl t) else []);
          t = (if prefix ''.'' t then dropWhile isdigit (tl t) else t) in
      if whole @ fraction = [] then 0
      else
        let q = of_nat (value_of 10 (whole @ fraction)) * 10 powi (parse_exponent t - int (length fraction))
        in to_double (if neg then - q else q))"

record MemInfo =
  mem_total :: int
  mem_free :: int
  mem_available :: int
  buffers :: int
  cached :: int
  swap_cached :: int
  active :: int
  inactive :: int
  dirty :: int
  writeback :: int
  anon_pages :: int
  mapped :: int
  shmem :: int
  slab :: int
  swap_total :: int
  swap_free :: int

record LoadAvg =
  one :: rat
  five :: rat
  fifteen :: rat
  runnable :: int
  total :: int

definition field_of :: "kv \<Rightarrow> string \<Rightarrow> int" where
  "field_of kv key =
     (case map_of kv key of
        None \<Rightarrow> -1
      | Some v \<Rightarrow> (case to_ll v of None \<Rightarrow> -1 | Some n \<Rightarrow> n))"

definition meminfo_of :: "kv \<Rightarrow> MemInfo" where
  "meminfo_of kv = \<lparr>
     mem_total = field_of kv ''MemTotal'',
     mem_free = field_of kv ''MemFree'',
     mem_available = field_of kv ''MemAvailable'',
     buffers = field_of kv ''Buffers'',
     cached = field_of kv ''Cached'',
     swap_cached = field_of kv ''SwapCached'',
     active = field_of kv ''Active'',
     inactive = field_of kv ''Inactive'',
     dirty = field_of kv ''Dirty'',
     writeback = field_of kv ''Writeback'',
     anon_pages = field_of kv ''AnonPages'',
     mapped = field_of kv ''Mapped'',
     shmem = field_of kv ''Shmem'',
     slab = field_of kv ''Slab'',
     swap_total = field_of kv ''SwapTotal'',
     swap_free = field_of kv ''SwapFree''\<rparr>"

definition read_meminfo :: "'w kernel \<Rightarrow> 'w os \<Rightarrow> (MemInfo option \<times> 'w os) option" where
  "read_meminfo K s = do {
     (kv, s) \<leftarrow> parse_kv K ''/proc/meminfo'' s;
     Some (if kv = [] then None else Some (meminfo_of kv), s)
   }"

definition loadavg_of :: "string \<Rightarrow> LoadAvg option" where
  "loadavg_of content =
     (let tokens = split_ws content; tok = (\<lambda>i. sv_str content (tokens ! i)) in
      if length tokens < 4 then None
      else let ratio = tok 3; (r, t) =
          (case find_char CHR ''/'' ratio of
             None \<Rightarrow> (0, 0)
           | Some slash \<Rightarrow> (atoi (substr ratio 0 slash), atoi (drop (slash + 1) ratio))) in
        Some \<lparr>one = strtod (tok 0), five = strtod (tok 1), fifteen = strtod (tok 2),
              runnable = r, total = t\<rparr>)"

definition read_loadavg :: "'w kernel \<Rightarrow> 'w os \<Rightarrow> (LoadAvg option \<times> 'w os) option" where
  "read_loadavg K s = do {
     (content, s) \<leftarrow> read_file K ''/proc/loadavg'' s;
     Some (case content of None \<Rightarrow> None | Some text \<Rightarrow> loadavg_of text, s)
   }"

definition read_uptime_seconds :: "'w kernel \<Rightarrow> 'w os \<Rightarrow> (rat option \<times> 'w os) option" where
  "read_uptime_seconds K s = do {
     (content, s) \<leftarrow> read_file K ''/proc/uptime'' s;
     Some (case content of
         None \<Rightarrow> None
       | Some text \<Rightarrow>
           (case split_ws text of [] \<Rightarrow> None | tok # _ \<Rightarrow> Some (strtod (sv_str text tok))), s)
   }"

subsection \<open>Reading what the kernel prints\<close>

lemma value_of_append: "value_of b (xs @ ys) = value_of b xs * b ^ length ys + value_of b ys"
  by (induction ys rule: rev_induct) (simp_all add: algebra_simps flip: append_assoc)

lemma value_of_pad_zeros: "value_of 10 (pad_zeros n ds) = value_of 10 ds"
proof -
  have "value_of 10 (replicate k CHR ''0'') = 0" for k
  proof (induction k)
    case (Suc k)
    have "replicate (Suc k) CHR ''0'' = replicate k CHR ''0'' @ ''0''"
      by (simp add: replicate_append_same)
    with Suc show ?case by (simp add: digit_val_def digit_value_def isdigit_def)
  qed simp
  then show ?thesis by (simp add: pad_zeros_def value_of_append)
qed

lemma parse_sign_digit: "t \<noteq> [] \<Longrightarrow> isdigit (hd t) \<Longrightarrow> parse_sign t = (False, t)"
  by (cases t) (auto simp: parse_sign_def isdigit_def)

text \<open>Text with two decimals, as the kernel writes a load or an uptime, is read to that number.\<close>

lemma strtod_fixed:
  assumes "b < 100"
  shows "strtod (digits 10 a @ ''.'' @ pad_zeros 2 (digits 10 b)) =
    to_double (of_nat (a * 100 + b) / 100)"
proof -
  let ?f = "pad_zeros 2 (digits 10 b)" and ?t = "digits 10 a @ ''.'' @ pad_zeros 2 (digits 10 b)"
  have len: "length ?f = 2" using length_digits [of b 2] assms by (simp add: pad_zeros_def)
  have f: "\<forall>c \<in> set ?f. isdigit c"
    using digits_10_isdigit by (auto simp: pad_zeros_def isdigit_def)
  have hd: "isdigit (hd (digits 10 a))"
    using digits_10_isdigit [of a] digits_nonempty [of 10 a] by (metis list.set_sel(1))
  then have "\<not> isspace (hd (digits 10 a))" by (auto simp: isdigit_def isspace_def)
  then have sp: "dropWhile isspace ?t = ?t" by (cases "digits 10 a") auto
  have sg: "parse_sign ?t = (False, ?t)" using hd by (intro parse_sign_digit) simp_all
  have nd: "\<not> isdigit CHR ''.''" by (simp add: isdigit_def)
  have tk: "takeWhile isdigit ?t = digits 10 a" "dropWhile isdigit ?t = ''.'' @ ?f"
    using digits_10_isdigit nd by (simp_all add: takeWhile_append2 dropWhile_append2)
  have tf: "takeWhile isdigit ?f = ?f" "dropWhile isdigit ?f = []"
    using f by (simp_all add: takeWhile_eq_all_conv)
  have v: "value_of 10 (digits 10 a @ ?f) = a * 100 + b"
    by (simp add: value_of_append len value_of_pad_zeros value_of_digits)
  have pre: "prefix ''.'' (''.'' @ ?f) = True" "tl (''.'' @ ?f) = ?f" by simp_all
  have ne: "(digits 10 a @ ?f = []) = False" by simp
  have p: "(10 :: rat) powi (parse_exponent [] - int 2) = 1 / 100"
    by (simp add: parse_exponent_def power_int_minus_divide)
  show ?thesis
    unfolding strtod_def sp sg Let_def prod.case tk pre if_True if_False tf ne v len p
    by (simp only: times_divide_eq_right mult_1_right)
qed

end
