(* ===== verification/Procmon_Format.thy ===== *)
theory Procmon_Format
  imports Doubles Os
begin

section \<open>procmon: text for people\<close>

text \<open>
  Models \<open>procmon/src/format.cpp\<close>: byte counts, durations, addresses, and the class
  \<open>Table\<close> with \<open>print_section\<close> and \<open>print_field\<close>. What is written to the stream is the
  value; a table is a record with the private fields of the class. An index past the end of a
  vector is undefined behaviour, and a negative number of spaces wraps to a length that
  \<open>std::string\<close> refuses. Widths are sizes of strings in memory, so their sum does not wrap.
\<close>

subsection \<open>Quantities\<close>

definition byte_units :: "string list" where
  "byte_units = [''B'', ''K'', ''M'', ''G'', ''T'']"

definition human_bytes :: "int \<Rightarrow> string" where
  "human_bytes bytes = (if bytes < 0 then ''-'' else scaled_text byte_units bytes)"

definition human_kb :: "int \<Rightarrow> string cpp" where
  "human_kb kilobytes =
     (if kilobytes < 0 then Inr ''-''
      else cbind (ll_checked (kilobytes * 1024)) (\<lambda>bytes. Inr (human_bytes bytes)))"

text \<open>\<open>static_cast<int>\<close> of a double truncates, and is undefined out of range.\<close>

definition double_to_int :: "rat \<Rightarrow> int cpp" where
  "double_to_int q =
     (let n = (if 0 \<le> q then \<lfloor>q\<rfloor> else \<lceil>q\<rceil>) in
      if int_range n then Inr n else Inl Undefined_Behaviour)"

definition human_duration :: "rat \<Rightarrow> string cpp" where
  "human_duration seconds =
     (if seconds < 60 then Inr (take 47 (format_fixed 2 seconds @ ''s''))
      else if seconds < 3600 then
        cbind (double_to_int seconds) (\<lambda>n. Inr (take 47
          (to_string (n div 60) @ ''m'' @ pad_zeros 2 (to_string (n mod 60)) @ ''s'')))
      else
        cbind (double_to_int seconds) (\<lambda>total. Inr (take 47
          (to_string (total div 3600) @ ''h'' @
           pad_zeros 2 (to_string (total mod 3600 div 60)) @ ''m''))))"

definition hex_address :: "64 word \<Rightarrow> string" where
  "hex_address v = take 31 (pad_zeros 12 (digits 16 (unat v)))"

text \<open>When these functions have a result: a duration of \<open>2^31\<close> seconds has none.\<close>

lemma human_duration_defined: "(\<exists>text. human_duration q = Inr text) \<longleftrightarrow> q < 2 ^ 31"
proof (cases "q < 60")
  case True
  then show ?thesis by (auto simp: human_duration_def)
next
  case False
  then have "\<lfloor>q\<rfloor> < 2 ^ 31 \<longleftrightarrow> q < 2 ^ 31" "0 \<le> \<lfloor>q\<rfloor>" by (simp_all add: floor_less_iff)
  with False show ?thesis
    by (auto simp: human_duration_def double_to_int_def int_range_def Let_def)
qed

lemma human_kb_defined: "(\<exists>text. human_kb n = Inr text) \<longleftrightarrow> n < 2 ^ 53"
  by (auto simp: human_kb_def ll_checked_def ll_range_def)

subsection \<open>Tables\<close>

record Table =
  headers :: "string list"
  rows :: "string list list"
  right :: "bool list"

definition Table_new :: "string list \<Rightarrow> Table" where
  "Table_new hs = \<lparr>headers = hs, rows = [], right = replicate (length hs) False\<rparr>"

definition resize :: "nat \<Rightarrow> string list \<Rightarrow> string list" where
  "resize n cells = take n cells @ replicate (n - length cells) []"

definition add_row :: "string list \<Rightarrow> Table \<Rightarrow> Table" where
  "add_row cells t = t\<lparr>rows := rows t @ [resize (length (headers t)) cells]\<rparr>"

definition right_align :: "nat \<Rightarrow> Table \<Rightarrow> Table" where
  "right_align column t =
     (if column < length (right t) then t\<lparr>right := (right t)[column := True]\<rparr> else t)"

definition row_count :: "Table \<Rightarrow> nat" where
  "row_count t = length (rows t)"

text \<open>The loop over one row that widens the columns.\<close>

fun widen :: "nat list \<Rightarrow> nat \<Rightarrow> string list \<Rightarrow> nat list cpp" where
  "widen widths i [] = Inr widths"
| "widen widths i (c # cs) =
     (if length widths \<le> i then Inl Undefined_Behaviour
      else widen (widths[i := max (widths ! i) (length c)]) (Suc i) cs)"

fun widen_rows :: "nat list \<Rightarrow> string list list \<Rightarrow> nat list cpp" where
  "widen_rows widths [] = Inr widths"
| "widen_rows widths (row # rs) =
     cbind (widen widths 0 row) (\<lambda>widths. widen_rows widths rs)"

definition spaces :: "nat \<Rightarrow> nat \<Rightarrow> string cpp" where
  "spaces w n = (if n \<le> w then Inr (replicate (w - n) CHR '' '') else Inl Length_Error)"

fun emit :: "nat list \<Rightarrow> bool list \<Rightarrow> nat \<Rightarrow> string list \<Rightarrow> string cpp" where
  "emit widths al i [] = Inr newline"
| "emit widths al i (c # cs) =
     (if length widths \<le> i \<or> length al \<le> i then Inl Undefined_Behaviour
      else
        cbind
          (if al ! i then cbind (spaces (widths ! i) (length c)) (\<lambda>pad. Inr (pad @ c))
           else if cs \<noteq> [] then cbind (spaces (widths ! i) (length c)) (\<lambda>pad. Inr (c @ pad))
           else Inr c)
          (\<lambda>text. cbind (emit widths al (Suc i) cs)
            (\<lambda>rest. Inr (text @ (if cs \<noteq> [] then ''  '' else []) @ rest))))"

fun emit_rows :: "nat list \<Rightarrow> bool list \<Rightarrow> string list list \<Rightarrow> string cpp" where
  "emit_rows widths al [] = Inr []"
| "emit_rows widths al (row # rs) =
     cbind (emit widths al 0 row) (\<lambda>line.
       cbind (emit_rows widths al rs) (\<lambda>rest. Inr (line @ rest)))"

definition Table_print :: "Table \<Rightarrow> string cpp" where
  "Table_print t =
     cbind (widen_rows (map length (headers t)) (rows t)) (\<lambda>widths.
       cbind (emit widths (right t) 0 (headers t)) (\<lambda>head.
         let total = sum_list (map (\<lambda>w. w + 2) widths) in
         cbind (emit_rows widths (right t) (rows t)) (\<lambda>body.
           Inr (head @ replicate (if 2 < total then total - 2 else 0) CHR ''-'' @ newline @ body))))"

definition print_section :: "string \<Rightarrow> 'w os \<Rightarrow> 'w os" where
  "print_section title s =
     put_out (newline @ title @ newline @ replicate (length title) CHR ''='' @ newline) s"

definition print_field :: "string \<Rightarrow> string \<Rightarrow> 'w os \<Rightarrow> 'w os" where
  "print_field label v s =
     put_out (''  '' @ label @
       (if length label < 28 then replicate (28 - length label) CHR '' '' else '' '') @
       v @ newline) s"

subsection \<open>Well-formed tables\<close>

text \<open>Every row, and the list of alignments, has one entry for each column.\<close>

definition table_ok :: "Table \<Rightarrow> bool" where
  "table_ok t \<longleftrightarrow>
     length (right t) = length (headers t) \<and> (\<forall>row \<in> set (rows t). length row = length (headers t))"

lemma length_resize [simp]: "length (resize n cells) = n"
  by (simp add: resize_def)

lemma table_ok_intros [intro]:
  "table_ok (Table_new hs)"
  "table_ok t \<Longrightarrow> table_ok (add_row cells t)"
  "table_ok t \<Longrightarrow> table_ok (right_align column t)"
  by (auto simp: table_ok_def Table_new_def add_row_def right_align_def)

text \<open>The widths that \<open>Table_print\<close> computes, column by column.\<close>

lemma widen_eq:
  assumes "i + length cs \<le> length ws"
  shows "\<exists>ws'. widen ws i cs = Inr ws' \<and> length ws' = length ws \<and>
    (\<forall>j < i. ws' ! j = ws ! j) \<and> (\<forall>j < length cs. ws' ! (i + j) = max (ws ! (i + j)) (length (cs ! j)))"
  using assms
proof (induction cs arbitrary: ws i)
  case Nil
  then show ?case by simp
next
  case (Cons c cs)
  let ?v = "ws[i := max (ws ! i) (length c)]"
  from Cons.prems have i: "i < length ws" "Suc i + length cs \<le> length ?v" by simp_all
  from Cons.IH [OF i(2)] obtain ws' where ws': "widen ?v (Suc i) cs = Inr ws'" "length ws' = length ws"
    "\<forall>j < Suc i. ws' ! j = ?v ! j"
    "\<forall>j < length cs. ws' ! (Suc i + j) = max (?v ! (Suc i + j)) (length (cs ! j))" by auto
  have "ws' ! (i + j) = max (ws ! (i + j)) (length ((c # cs) ! j))" if "j < length (c # cs)" for j
    using ws'(3,4) i(1) that by (cases j) auto
  moreover have "\<forall>j < i. ws' ! j = ws ! j" using ws'(3) by auto
  ultimately show ?case using ws'(1,2) i(1) by auto
qed

definition wide_enough :: "nat list \<Rightarrow> string list \<Rightarrow> bool" where
  "wide_enough ws row \<longleftrightarrow> (\<forall>j < length row. length (row ! j) \<le> ws ! j)"

definition attained :: "nat list \<Rightarrow> string list list \<Rightarrow> bool" where
  "attained ws rs \<longleftrightarrow> (\<forall>j < length ws. \<exists>row \<in> set rs. length (row ! j) = ws ! j)"

lemma widen_rows_widths:
  assumes "\<forall>row \<in> set rs. length row = length ws"
    and "attained ws seen" and "\<forall>row \<in> set seen. length row = length ws \<and> wide_enough ws row"
  shows "\<exists>ws'. widen_rows ws rs = Inr ws' \<and> length ws' = length ws \<and> attained ws' (seen @ rs) \<and>
    (\<forall>row \<in> set (seen @ rs). wide_enough ws' row)"
  using assms
proof (induction rs arbitrary: ws seen)
  case Nil
  then show ?case by simp
next
  case (Cons row rs)
  have "0 + length row \<le> length ws" using Cons.prems(1) by simp
  from widen_eq [OF this] obtain v where w: "widen ws 0 row = Inr v" and len: "length v = length ws"
    and v: "\<forall>j < length ws. v ! j = max (ws ! j) (length (row ! j))"
    using Cons.prems(1) by auto
  have att: "attained v (seen @ [row])"
    unfolding attained_def
  proof (intro allI impI)
    fix j assume "j < length v"
    with Cons.prems(2) len obtain r where "r \<in> set seen" "length (r ! j) = ws ! j"
      by (auto simp: attained_def)
    then show "\<exists>r \<in> set (seen @ [row]). length (r ! j) = v ! j"
      using \<open>j < length v\<close> len v by (cases "ws ! j \<le> length (row ! j)") (auto simp: max_def)
  qed
  have fits: "\<forall>r \<in> set (seen @ [row]). length r = length v \<and> wide_enough v r"
    using Cons.prems(1,3) len v by (auto simp: wide_enough_def le_max_iff_disj)
  have "\<forall>r \<in> set rs. length r = length v" using Cons.prems(1) len by simp
  from Cons.IH [OF this att fits] show ?case by (simp add: w len)
qed

subsection \<open>Where the cells stand\<close>

text \<open>A printed line without its newline, and the place where a column starts.\<close>

fun line_of :: "nat list \<Rightarrow> bool list \<Rightarrow> string list \<Rightarrow> string" where
  "line_of (w # ws) (r # al) (c # cs) =
     (if r then replicate (w - length c) CHR '' '' @ c
      else if cs \<noteq> [] then c @ replicate (w - length c) CHR '' '' else c) @
     (if cs \<noteq> [] then ''  '' else []) @ line_of ws al cs"
| "line_of ws al cs = []"

definition column_start :: "nat list \<Rightarrow> nat \<Rightarrow> nat" where
  "column_start ws j = sum_list (map (\<lambda>w. w + 2) (take j ws))"

text \<open>
  A row is laid out in a line: every cell is at its column, after the blanks that right-align
  it, and fits there, so the next column starts two places after its end.
\<close>

definition laid_out :: "nat list \<Rightarrow> bool list \<Rightarrow> string list \<Rightarrow> string \<Rightarrow> bool" where
  "laid_out ws al row line \<longleftrightarrow> (\<forall>j < length row.
     length (row ! j) \<le> ws ! j \<and>
     (let pad = (if al ! j then ws ! j - length (row ! j) else 0) in
      substr line (column_start ws j) (pad + length (row ! j)) =
        replicate pad CHR '' '' @ row ! j))"

lemma emit_line_of:
  assumes "length ws = i + length cs" and "length al = i + length cs"
    and "\<forall>j < length cs. length (cs ! j) \<le> ws ! (i + j)"
  shows "emit ws al i cs = Inr (line_of (drop i ws) (drop i al) cs @ newline)"
  using assms
proof (induction cs arbitrary: i)
  case Nil
  then show ?case by simp
next
  case (Cons c cs)
  have d: "drop i ws = ws ! i # drop (Suc i) ws" "drop i al = al ! i # drop (Suc i) al"
    using Cons.prems by (simp_all add: Cons_nth_drop_Suc)
  have c: "length c \<le> ws ! i" using Cons.prems(3) by force
  have "\<forall>j < length cs. length (cs ! j) \<le> ws ! (Suc i + j)"
    using Cons.prems(3) by auto
  with Cons.IH [of "Suc i"] Cons.prems(1,2)
  have "emit ws al (Suc i) cs = Inr (line_of (drop (Suc i) ws) (drop (Suc i) al) cs @ newline)" by simp
  with c show ?case using Cons.prems(1,2) by (simp add: d spaces_def)
qed

lemma laid_out_line_of:
  assumes "length ws = length row" and "length al = length row" and "wide_enough ws row"
  shows "laid_out ws al row (line_of ws al row)"
  using assms
proof (induction ws al row rule: line_of.induct)
  case (1 w ws r al c cs)
  then have "wide_enough ws cs" and c: "length c \<le> w"
    by (force simp: wide_enough_def)+
  with 1 have IH: "laid_out ws al cs (line_of ws al cs)" by simp
  show ?case
    unfolding laid_out_def
  proof (intro allI impI)
    fix j assume j: "j < length (c # cs)"
    show "length ((c # cs) ! j) \<le> (w # ws) ! j \<and>
      (let pad = (if (r # al) ! j then (w # ws) ! j - length ((c # cs) ! j) else 0) in
       substr (line_of (w # ws) (r # al) (c # cs)) (column_start (w # ws) j)
         (pad + length ((c # cs) ! j)) = replicate pad CHR '' '' @ (c # cs) ! j)"
    proof (cases j)
      case 0
      with c show ?thesis by (simp add: column_start_def substr_def)
    next
      case (Suc k)
      with j have k: "k < length cs" "cs \<noteq> []" by auto
      have "drop (w + 2 + n) (line_of (w # ws) (r # al) (c # cs)) = drop n (line_of ws al cs)" for n
        using c k(2) by simp
      then have "substr (line_of (w # ws) (r # al) (c # cs)) (column_start (w # ws) j) n =
          substr (line_of ws al cs) (column_start ws k) n" for n
        by (simp only: substr_def column_start_def Suc take_Suc_Cons list.map sum_list.Cons)
      with IH k(1) show ?thesis
        by (simp only: laid_out_def Suc nth_Cons_Suc)
    qed
  qed
qed (auto simp: laid_out_def)

lemma emit_rows_eq:
  assumes "\<forall>row \<in> set rs. length row = length ws \<and> wide_enough ws row" and "length al = length ws"
  shows "emit_rows ws al rs = Inr (concat (map (\<lambda>row. line_of ws al row @ newline) rs))"
  using assms
proof (induction rs)
  case Nil
  then show ?case by simp
next
  case (Cons row rs)
  then have "emit ws al 0 row = Inr (line_of (drop 0 ws) (drop 0 al) row @ newline)"
    by (intro emit_line_of) (auto simp: wide_enough_def)
  with Cons show ?case by simp
qed

lemma Table_print_eq:
  assumes "table_ok t"
  shows "\<exists>ws. length ws = length (headers t) \<and> attained ws (headers t # rows t) \<and>
    (\<forall>row \<in> set (headers t # rows t). wide_enough ws row) \<and>
    Table_print t = Inr (concat (map (\<lambda>l. l @ newline)
      (line_of ws (right t) (headers t) # replicate (column_start ws (length ws) - 2) CHR ''-'' #
       map (line_of ws (right t)) (rows t))))"
proof -
  let ?ws = "map length (headers t)"
  have a: "\<forall>row \<in> set (rows t). length row = length ?ws" using assms by (simp add: table_ok_def)
  have b: "attained ?ws [headers t]" by (simp add: attained_def)
  have c: "\<forall>row \<in> set [headers t]. length row = length ?ws \<and> wide_enough ?ws row"
    by (simp add: wide_enough_def)
  from widen_rows_widths [OF a b c]
  obtain ws where ws: "widen_rows ?ws (rows t) = Inr ws" "length ws = length (headers t)"
    "attained ws (headers t # rows t)" "\<forall>row \<in> set (headers t # rows t). wide_enough ws row"
    unfolding length_map append_Cons append_Nil by blast
  have al: "length (right t) = length ws" using assms ws(2) by (simp add: table_ok_def)
  have "emit ws (right t) 0 (headers t) =
      Inr (line_of (drop 0 ws) (drop 0 (right t)) (headers t) @ newline)"
    using ws(2,4) al by (intro emit_line_of) (auto simp: wide_enough_def)
  then have h: "emit ws (right t) 0 (headers t) = Inr (line_of ws (right t) (headers t) @ newline)"
    by (simp only: drop0)
  have b: "emit_rows ws (right t) (rows t) =
      Inr (concat (map (\<lambda>row. line_of ws (right t) row @ newline) (rows t)))"
    using ws(2,4) al assms by (intro emit_rows_eq) (auto simp: table_ok_def)
  have r: "(if 2 < n then n - 2 else 0) = n - 2" for n :: nat by simp
  have cs: "column_start ws (length ws) = sum_list (map (\<lambda>w. w + 2) ws)"
    by (simp add: column_start_def)
  have "Table_print t = Inr (concat (map (\<lambda>l. l @ newline)
      (line_of ws (right t) (headers t) # replicate (column_start ws (length ws) - 2) CHR ''-'' #
       map (line_of ws (right t)) (rows t))))"
    unfolding Table_print_def ws(1) cbind.simps h b Let_def r cs
    by (simp only: list.map map_map comp_def concat.simps append_assoc)
  with ws(2-4) show ?thesis by blast
qed

subsection \<open>Properties\<close>

text \<open>What the program does to a table before it prints it.\<close>

datatype table_op = Add_row "string list" | Right_align nat

fun apply_op :: "table_op \<Rightarrow> Table \<Rightarrow> Table" where
  "apply_op (Add_row cells) t = add_row cells t"
| "apply_op (Right_align column) t = right_align column t"

fun added_rows :: "table_op list \<Rightarrow> string list list" where
  "added_rows [] = []"
| "added_rows (Add_row cells # ops) = cells # added_rows ops"
| "added_rows (Right_align column # ops) = added_rows ops"

lemma Table_simps [simp]:
  "headers (Table_new hs) = hs" "rows (Table_new hs) = []"
  "headers (add_row cells t) = headers t"
  "rows (add_row cells t) = rows t @ [resize (length (headers t)) cells]"
  "headers (right_align column t) = headers t" "rows (right_align column t) = rows t"
  by (simp_all add: Table_new_def add_row_def right_align_def)

lemma built_table:
  "table_ok t \<Longrightarrow> table_ok (fold apply_op ops t) \<and> headers (fold apply_op ops t) = headers t \<and>
    rows (fold apply_op ops t) = rows t @ map (resize (length (headers t))) (added_rows ops)"
proof (induction ops arbitrary: t)
  case Nil
  then show ?case by simp
next
  case (Cons op ops)
  then show ?case
    by (cases op) (simp_all add: table_ok_intros)
qed

lemma table_well_typed_aux:
  "let t = fold apply_op ops (Table_new hs) in
   table_ok t \<and> headers t = hs \<and> rows t = map (resize (length hs)) (added_rows ops) \<and>
   (\<exists>text. Table_print t = Inr text)"
proof -
  let ?t = "fold apply_op ops (Table_new hs)"
  have b: "table_ok ?t" "headers ?t = hs" "rows ?t = map (resize (length hs)) (added_rows ops)"
    using built_table [OF table_ok_intros(1) [of hs], of ops] by simp_all
  with Table_print_eq [OF b(1)] show ?thesis by (auto simp: Let_def)
qed

text \<open>C36: However a table is built, with rows of any length and alignments of any column, it is
  well formed: its rows are those given, in order, cut or filled to one cell for each header,
  and there is one alignment for each column. So printing it never indexes out of range and
  never asks for a negative number of blanks.
\<close>

theorem table_well_typed:
  "let t = fold apply_op ops (Table_new hs) in
   table_ok t \<and> headers t = hs \<and> rows t = map (resize (length hs)) (added_rows ops) \<and>
   (\<exists>text. Table_print t = Inr text)"
  by (rule table_well_typed_aux)

text \<open>C35: The columns of a printed table line up. The output is one line for the headers, a rule
  as long as all columns, and one line for each row. A column is exactly as wide as its widest
  cell, starts at the same place in every line, two blanks after the one before it, and holds
  its cell, after the blanks that right-align it if the column is right-aligned.
\<close>

theorem table_columns:
  assumes "table_ok t"
  shows "\<exists>ws head body.
    Table_print t = Inr (concat (map (\<lambda>l. l @ newline)
      (head # replicate (column_start ws (length ws) - 2) CHR ''-'' # body))) \<and>
    length ws = length (headers t) \<and> attained ws (headers t # rows t) \<and>
    laid_out ws (right t) (headers t) head \<and> list_all2 (laid_out ws (right t)) (rows t) body"
proof -
  from Table_print_eq [OF assms] obtain ws where ws: "length ws = length (headers t)"
    "attained ws (headers t # rows t)" "\<forall>row \<in> set (headers t # rows t). wide_enough ws row"
    and out: "Table_print t = Inr (concat (map (\<lambda>l. l @ newline)
      (line_of ws (right t) (headers t) # replicate (column_start ws (length ws) - 2) CHR ''-'' #
       map (line_of ws (right t)) (rows t))))" by blast
  have lay: "\<forall>row \<in> set (headers t # rows t). laid_out ws (right t) row (line_of ws (right t) row)"
    using ws assms by (auto intro!: laid_out_line_of simp: table_ok_def)
  then have "laid_out ws (right t) (headers t) (line_of ws (right t) (headers t))"
    "list_all2 (laid_out ws (right t)) (rows t) (map (line_of ws (right t)) (rows t))"
    by (auto simp: list_all2_conv_all_nth)
  with ws(1,2) out show ?thesis by blast
qed

definition sample_table :: Table where
  "sample_table = add_row [''7''] (right_align 0 (Table_new [''PID'', ''COMMAND'']))"

theorem table_columns_witness:
  "\<exists>ws head body.
    Table_print sample_table = Inr (concat (map (\<lambda>l. l @ newline)
      (head # replicate (column_start ws (length ws) - 2) CHR ''-'' # body))) \<and>
    length ws = length (headers sample_table) \<and>
    attained ws (headers sample_table # rows sample_table) \<and>
    laid_out ws (right sample_table) (headers sample_table) head \<and>
    list_all2 (laid_out ws (right sample_table)) (rows sample_table) body"
  by (rule table_columns) (auto simp: sample_table_def)

lemma sample_table_text:
  "Table_print sample_table =
    Inr (''PID  COMMAND'' @ newline @ ''------------'' @ newline @ ''  7  '' @ newline)"
  by code_simp

end
