(* ===== verification/Procmon_Main.thy ===== *)
theory Procmon_Main
  imports Procmon_Process Procmon_System Procmon_Format
begin

section \<open>procmon: the commands\<close>

text \<open>
  Models \<open>procmon/src/main.cpp\<close>. The arguments after the program's name are a list of
  strings. A command returns its exit status or an exception or undefined behaviour, which
  nothing catches, and the state with what was printed until then; \<open>None\<close> is "does not
  return". \<open>std::sort\<close> is a parameter, because it may order equal elements in any way; the page
  size and the clock rate are parameters as in \<^theory_text>\<open>Procmon_Process\<close>.
\<close>

type_synonym 'a sorter = "('a \<Rightarrow> 'a \<Rightarrow> bool) \<Rightarrow> 'a list \<Rightarrow> 'a list"

definition usage :: string where
  "usage =
     ''procmon - inspect processes, threads and memory through /proc'' @ newline @ newline @
     ''Usage:'' @ newline @
     ''  procmon list [--sort=rss|cpu|pid|threads] [--limit=N]'' @ newline @
     ''  procmon show <pid>          Detailed breakdown of one process'' @ newline @
     ''  procmon threads <pid>       Threads of a process (/proc/<pid>/task)'' @ newline @
     ''  procmon maps <pid>          Virtual memory regions (/proc/<pid>/maps)'' @ newline @
     ''  procmon mem                 System memory and page cache (/proc/meminfo)'' @
       newline @ newline @
     ''\"self\" may be used in place of <pid>.'' @ newline"

definition resolve_pid :: "'w kernel \<Rightarrow> string \<Rightarrow> 'w os \<Rightarrow> int cpp \<times> 'w os" where
  "resolve_pid K arg s =
     (if arg = ''self'' then (let (p, s) = call K Sys_getpid s in (Inr p, s))
      else if \<not> is_number arg then (Inr (-1), s)
      else (stoi arg, s))"

subsection \<open>Reports\<close>

text \<open>
  A command prints sections and fields in order. The value of a field may be undefined, and
  then what was printed before it is the output.
\<close>

datatype report_item = Section string | Field string "string cpp"

fun print_report :: "report_item list \<Rightarrow> 'w os \<Rightarrow> unit cpp \<times> 'w os" where
  "print_report [] s = (Inr (), s)"
| "print_report (Section title # items) s = print_report items (print_section title s)"
| "print_report (Field label (Inl e) # items) s = (Inl e, s)"
| "print_report (Field label (Inr v) # items) s = print_report items (print_field label v s)"

definition print_table :: "Table cpp \<Rightarrow> 'w os \<Rightarrow> unit cpp \<times> 'w os" where
  "print_table t s =
     (case cbind t Table_print of Inl e \<Rightarrow> (Inl e, s) | Inr text \<Rightarrow> (Inr (), put_out text s))"

fun add_rows :: "('a \<Rightarrow> string list cpp) \<Rightarrow> 'a list \<Rightarrow> Table \<Rightarrow> Table cpp" where
  "add_rows row [] t = Inr t"
| "add_rows row (x # xs) t = cbind (row x) (\<lambda>cells. add_rows row xs (add_row cells t))"

text \<open>A table whose first columns are right-aligned.\<close>

definition aligned_table :: "string list \<Rightarrow> nat list \<Rightarrow> Table" where
  "aligned_table hs columns = fold right_align columns (Table_new hs)"

subsection \<open>procmon list\<close>

fun list_options ::
  "string list \<Rightarrow> string \<times> nat \<Rightarrow> 'w os \<Rightarrow> (int + string \<times> nat) cpp \<times> 'w os" where
  "list_options [] opts s = (Inr (Inr opts), s)"
| "list_options (arg # args) (sort_by, limit) s =
     (if prefix ''--sort='' arg then list_options args (drop 7 arg, limit) s
      else if prefix ''--limit='' arg then
        (case stoul (drop 8 arg) of
           Inl e \<Rightarrow> (Inl e, s)
         | Inr n \<Rightarrow> list_options args (sort_by, n) s)
      else (Inr (Inl 2), put_err (''Unknown option: '' @ arg @ newline) s))"

fun read_processes ::
  "'w kernel \<Rightarrow> int \<Rightarrow> int list \<Rightarrow> ProcessInfo list \<Rightarrow> 'w os \<Rightarrow>
    (ProcessInfo list cpp \<times> 'w os) option" where
  "read_processes K page_size [] processes s = Some (Inr processes, s)"
| "read_processes K page_size (p # ps) processes s = do {
     (info, s) \<leftarrow> read_process K page_size p s;
     (case info of
        Inl e \<Rightarrow> Some (Inl e, s)
      | Inr None \<Rightarrow> read_processes K page_size ps processes s
      | Inr (Some x) \<Rightarrow> read_processes K page_size ps (processes @ [x]) s)
   }"

text \<open>
  The comparators. \<open>cpu_seconds\<close> is undefined when the two counts overflow; \<open>std::sort\<close>
  compares every element of a range of two or more.
\<close>

definition cpu_value :: "int \<Rightarrow> ProcessInfo \<Rightarrow> rat" where
  "cpu_value hz p = (case cpu_seconds hz p of Inl _ \<Rightarrow> 0 | Inr q \<Rightarrow> q)"

definition list_order :: "int \<Rightarrow> string \<Rightarrow> (ProcessInfo \<Rightarrow> ProcessInfo \<Rightarrow> bool) option" where
  "list_order hz sort_by =
     (if sort_by = ''rss'' then Some (\<lambda>a b. rss_bytes a > rss_bytes b)
      else if sort_by = ''cpu'' then Some (\<lambda>a b. cpu_value hz a > cpu_value hz b)
      else if sort_by = ''threads'' then Some (\<lambda>a b. num_threads a > num_threads b)
      else if sort_by = ''pid'' then Some (\<lambda>a b. pid a < pid b)
      else None)"

definition sort_processes ::
  "ProcessInfo sorter \<Rightarrow> int \<Rightarrow> string \<Rightarrow> ProcessInfo list \<Rightarrow> ProcessInfo list option cpp" where
  "sort_processes srt hz sort_by ps =
     (case list_order hz sort_by of
        None \<Rightarrow> Inr None
      | Some before \<Rightarrow>
          if sort_by = ''cpu'' \<and> 2 \<le> length ps \<and> (\<exists>p \<in> set ps. isl (cpu_seconds hz p))
          then Inl Undefined_Behaviour
          else Inr (Some (srt before ps)))"

definition list_row :: "int \<Rightarrow> ProcessInfo \<Rightarrow> string list cpp" where
  "list_row hz p =
     cbind (cpu_seconds hz p) (\<lambda>cpu. cbind (human_duration cpu) (\<lambda>duration.
       Inr [to_string (pid p), to_string (ppid p), [state p], to_string (num_threads p),
            human_bytes (rss_bytes p), human_bytes (vsize_bytes p), duration,
            to_string (major_faults p), comm p]))"

definition list_table :: "int \<Rightarrow> ProcessInfo list \<Rightarrow> Table cpp" where
  "list_table hz ps =
     add_rows (list_row hz) ps (aligned_table
       [''PID'', ''PPID'', ''S'', ''THR'', ''RSS'', ''VSZ'', ''CPU'', ''MAJFLT'', ''COMMAND''] [0..<8])"

definition cmd_list ::
  "'w kernel \<Rightarrow> ProcessInfo sorter \<Rightarrow> int \<Rightarrow> int \<Rightarrow> string list \<Rightarrow> 'w os \<Rightarrow>
    (int cpp \<times> 'w os) option" where
  "cmd_list K srt page_size hz args s =
     (case list_options args (''rss'', 20) s of
        (Inl e, s) \<Rightarrow> Some (Inl e, s)
      | (Inr (Inl status), s) \<Rightarrow> Some (Inr status, s)
      | (Inr (Inr (sort_by, limit)), s) \<Rightarrow>
          (case list_pids K s of
             (Inl e, s) \<Rightarrow> Some (Inl e, s)
           | (Inr pids, s) \<Rightarrow> do {
               (processes, s) \<leftarrow> read_processes K page_size pids [] s;
               (case cbind processes (sort_processes srt hz sort_by) of
                  Inl e \<Rightarrow> Some (Inl e, s)
                | Inr None \<Rightarrow> Some (Inr 2, put_err (''Invalid sort key: '' @ sort_by @ newline) s)
                | Inr (Some ps) \<Rightarrow>
                    let tot = length ps; shown = (if limit < length ps then take limit ps else ps) in
                    (case print_table (list_table hz shown) s of
                       (Inl e, s) \<Rightarrow> Some (Inl e, s)
                     | (Inr _, s) \<Rightarrow> Some (Inr 0,
                         put_out (newline @ to_string (int tot) @ '' processes, showing '' @
                           to_string (int (length shown)) @ '' (sorted by '' @ sort_by @ '').'' @
                           newline) s)))
             }))"

subsection \<open>procmon show\<close>

definition tick_duration :: "int \<Rightarrow> int \<Rightarrow> string cpp" where
  "tick_duration hz ticks =
     human_duration (to_double (to_double (of_int ticks) / to_double (of_int hz)))"

definition two_kb :: "int \<Rightarrow> int \<Rightarrow> string cpp" where
  "two_kb a b = cbind (human_kb a) (\<lambda>x. cbind (human_kb b) (\<lambda>y. Inr (x @ '' / '' @ y)))"

definition show_process :: "int \<Rightarrow> ProcessInfo \<Rightarrow> report_item list" where
  "show_process hz p =
     [Section ''Identity'',
      Field ''PID / PPID'' (Inr (to_string (pid p) @ '' / '' @ to_string (ppid p))),
      Field ''Command (comm)'' (Inr (comm p))] @
     (if cmdline p \<noteq> [] then [Field ''Cmdline'' (Inr (cmdline p))] else []) @
     [Field ''State'' (Inr ([state p] @ '' - '' @ state_name (state p))),
      Section ''Scheduling'',
      Field ''Policy'' (Inr (policy_name (policy p))),
      Field ''Priority / nice'' (Inr (to_string (priority p) @ '' / '' @ to_string (nice p))),
      Field ''Last CPU'' (Inr (to_string (last_cpu p))),
      Field ''Threads'' (Inr (to_string (num_threads p))),
      Field ''CPU time (user)'' (tick_duration hz (utime_ticks p)),
      Field ''CPU time (kernel)'' (tick_duration hz (stime_ticks p))] @
     (if 0 \<le> voluntary_ctxt p then
        [Field ''Ctx switches (voluntary)'' (Inr (to_string (voluntary_ctxt p))),
         Field ''Ctx switches (involuntary)'' (Inr (to_string (nonvoluntary_ctxt p)))] else []) @
     [Section ''Memory'',
      Field ''VSZ (virtual)'' (Inr (human_bytes (vsize_bytes p))),
      Field ''RSS (resident)'' (Inr (human_bytes (rss_bytes p)))] @
     (if 0 \<le> vm_hwm_kb p then [Field ''Peak RSS (VmHWM)'' (human_kb (vm_hwm_kb p))] else []) @
     (if 0 \<le> rss_anon_kb p then
        [Field ''  anon (heap/stack)'' (human_kb (rss_anon_kb p)),
         Field ''  file (mapped files)'' (human_kb (rss_file_kb p)),
         Field ''  shmem'' (human_kb (rss_shmem_kb p))] else []) @
     (if 0 \<le> vm_data_kb p then
        [Field ''VmData / VmStk'' (two_kb (vm_data_kb p) (vm_stk_kb p)),
         Field ''VmExe / VmLib'' (two_kb (vm_exe_kb p) (vm_lib_kb p))] else []) @
     (if 0 \<le> vm_swap_kb p then [Field ''Swap'' (human_kb (vm_swap_kb p))] else []) @
     [Section ''Page faults'',
      Field ''Minor (served from RAM)'' (Inr (to_string (minor_faults p))),
      Field ''Major (needed disk I/O)'' (Inr (to_string (major_faults p)))]"

text \<open>The sums over the regions: anonymous or special, file-backed, executable.\<close>

fun region_sums ::
  "MemoryRegion list \<Rightarrow> 64 word \<times> 64 word \<times> 64 word \<Rightarrow> 64 word \<times> 64 word \<times> 64 word" where
  "region_sums [] acc = acc"
| "region_sums (r # rs) (anon, file_backed, exec) =
     (let (anon, file_backed) =
        (if is_anonymous r \<or> is_special r then (anon + region_size r, file_backed)
         else (anon, file_backed + region_size r)) in
      region_sums rs (anon, file_backed,
        if 2 < length (perms r) \<and> perms r ! 2 = CHR ''x'' then exec + region_size r else exec))"

definition show_regions :: "MemoryRegion list \<Rightarrow> report_item list" where
  "show_regions regions =
     (let (anon, file_backed, exec) = region_sums regions (0, 0, 0) in
      [Section ''Address space summary'',
       Field ''Regions'' (Inr (to_string (int (length regions)))),
       Field ''Anonymous + special'' (Inr (human_bytes (sint anon))),
       Field ''File-backed'' (Inr (human_bytes (sint file_backed))),
       Field ''Executable'' (Inr (human_bytes (sint exec)))])"

definition cmd_show ::
  "'w kernel \<Rightarrow> int \<Rightarrow> int \<Rightarrow> int \<Rightarrow> 'w os \<Rightarrow> (int cpp \<times> 'w os) option" where
  "cmd_show K page_size hz p s = do {
     (info, s) \<leftarrow> read_process K page_size p s;
     (case info of
        Inl e \<Rightarrow> Some (Inl e, s)
      | Inr None \<Rightarrow> Some (Inr 1, put_err (''Cannot read PID '' @ to_string p @
          '' (gone, or insufficient permissions).'' @ newline) s)
      | Inr (Some info) \<Rightarrow>
          (case print_report (show_process hz info) s of
             (Inl e, s) \<Rightarrow> Some (Inl e, s)
           | (Inr _, s) \<Rightarrow> do {
               (regions, s) \<leftarrow> read_maps K p s;
               Some (if regions = [] then (Inr 0, s)
                 else (case print_report (show_regions regions) s of
                     (Inl e, s) \<Rightarrow> (Inl e, s)
                   | (Inr _, s) \<Rightarrow> (Inr 0, put_out (newline @ ''  For detail: procmon maps '' @
                       to_string p @ newline) s)))
             }))
   }"

subsection \<open>procmon threads\<close>

definition thread_row :: "int \<Rightarrow> ThreadInfo \<Rightarrow> string list cpp" where
  "thread_row hz t =
     cbind (thread_cpu_seconds hz t) (\<lambda>cpu. cbind (human_duration cpu) (\<lambda>duration.
       Inr [to_string (tid t), [t_state t], duration, to_string (t_last_cpu t),
            to_string (t_priority t), to_string (t_nice t), to_string (t_voluntary_ctxt t),
            to_string (t_nonvoluntary_ctxt t), t_comm t]))"

definition cmd_threads ::
  "'w kernel \<Rightarrow> int \<Rightarrow> int \<Rightarrow> 'w os \<Rightarrow> (int cpp \<times> 'w os) option" where
  "cmd_threads K hz p s = do {
     (threads, s) \<leftarrow> read_threads K p s;
     (case threads of
        Inl e \<Rightarrow> Some (Inl e, s)
      | Inr [] \<Rightarrow> Some (Inr 1, put_err (''Cannot read threads for PID '' @ to_string p @ ''.'' @ newline) s)
      | Inr ts \<Rightarrow>
          (case print_table (add_rows (thread_row hz) ts (aligned_table
             [''TID'', ''S'', ''CPU'', ''CPU#'', ''PRI'', ''NI'', ''VOL-CTX'', ''INVOL-CTX'', ''NAME'']
             [0..<8])) s of
             (Inl e, s) \<Rightarrow> Some (Inl e, s)
           | (Inr _, s) \<Rightarrow> Some (Inr 0,
               put_out (newline @ to_string (int (length ts)) @ '' threads, each under /proc/'' @
                 to_string p @ ''/task/<tid>.'' @ newline @
                 ''  Names are truncated because the kernel caps comm at 15 characters.'' @
                 newline) s)))
   }"

subsection \<open>procmon maps\<close>

definition map_name :: "MemoryRegion \<Rightarrow> string" where
  "map_name r = (if path r = [] then ''[anonymous]'' else path r)"

definition map_row :: "MemoryRegion \<Rightarrow> string list cpp" where
  "map_row r =
     Inr [hex_address (start r), hex_address (mr_end r), perms r,
          human_bytes (sint (region_size r)), hex_address (offset r), map_name r]"

text \<open>\<open>by_path[key] += n\<close> on a \<open>std::map\<close>: pairs in ascending order of their keys.\<close>

fun map_plus :: "string \<Rightarrow> 64 word \<Rightarrow> (string \<times> 64 word) list \<Rightarrow> (string \<times> 64 word) list" where
  "map_plus k n [] = [(k, n)]"
| "map_plus k n ((k', v) # m) =
     (if k = k' then (k', v + n) # m
      else if k < k' then (k, n) # (k', v) # m
      else (k', v) # map_plus k n m)"

fun group_regions ::
  "MemoryRegion list \<Rightarrow> (string \<times> 64 word) list \<times> 64 word \<Rightarrow> (string \<times> 64 word) list \<times> 64 word" where
  "group_regions [] acc = acc"
| "group_regions (r # rs) (by_path, tot) =
     group_regions rs (map_plus (map_name r) (region_size r) by_path, tot + region_size r)"

definition by_size :: "string \<times> 64 word \<Rightarrow> string \<times> 64 word \<Rightarrow> bool" where
  "by_size a b \<longleftrightarrow> snd a > snd b"

definition cmd_maps ::
  "'w kernel \<Rightarrow> (string \<times> 64 word) sorter \<Rightarrow> int \<Rightarrow> 'w os \<Rightarrow> (int cpp \<times> 'w os) option" where
  "cmd_maps K srt p s = do {
     (regions, s) \<leftarrow> read_maps K p s;
     (if regions = [] then
        Some (Inr 1, put_err (''Cannot read maps for PID '' @ to_string p @ ''.'' @ newline) s)
      else
        case print_table (add_rows map_row regions (aligned_table
          [''START'', ''END'', ''PERMS'', ''SIZE'', ''OFFSET'', ''PATH''] [3])) s of
          (Inl e, s) \<Rightarrow> Some (Inl e, s)
        | (Inr _, s) \<Rightarrow>
            let (by_path, tot) = group_regions regions ([], 0);
                sorted = srt by_size by_path;
                (r, s) = print_report (Section ''Virtual size by backing file'' #
                  map (\<lambda>(name, n). Field (human_bytes (sint n)) (Inr name)) (take 10 sorted)) s in
            (case r of
               Inl e \<Rightarrow> Some (Inl e, s)
             | Inr _ \<Rightarrow> Some (Inr 0,
                 put_out (newline @ ''  Total VSZ: '' @ human_bytes (sint tot) @ '' ('' @
                   to_string (int (length regions)) @ '' regions)'' @ newline @
                   ''  perms: r=read w=write x=execute p=private(COW) s=shared'' @ newline) s)))
   }"

subsection \<open>procmon mem\<close>

definition mem_report :: "MemInfo \<Rightarrow> report_item list" where
  "mem_report m =
     [Section ''System memory'',
      Field ''Total'' (human_kb (mem_total m)),
      Field ''Free'' (human_kb (mem_free m)),
      Field ''Available'' (human_kb (mem_available m)),
      Section ''Page cache'',
      Field ''Cached (file contents)'' (human_kb (cached m)),
      Field ''Buffers (block metadata)'' (human_kb (buffers m)),
      Field (''Mapped (mmap'' @ [CHR 0x27] @ ''ed)'') (human_kb (mapped m)),
      Field ''Shmem'' (human_kb (shmem m)),
      Field ''Dirty (awaiting writeback)'' (human_kb (dirty m)),
      Field ''Writeback (in flight)'' (human_kb (writeback m)),
      Section ''Anonymous memory and swap'',
      Field ''AnonPages (heap/stack)'' (human_kb (anon_pages m)),
      Field ''Swap total / free'' (two_kb (swap_total m) (swap_free m)),
      Field ''SwapCached'' (human_kb (swap_cached m)),
      Section ''Kernel'',
      Field ''Slab'' (human_kb (slab m)),
      Field ''Active / Inactive'' (two_kb (active m) (inactive m))]"

definition load_report :: "LoadAvg \<Rightarrow> report_item list" where
  "load_report la =
     [Section ''Load'',
      Field ''Load average (1/5/15)'' (Inr (take 63 (format_fixed 2 (one la) @ ''  '' @
        format_fixed 2 (five la) @ ''  '' @ format_fixed 2 (fifteen la)))),
      Field ''Runnable / total'' (Inr (to_string (runnable la) @ '' / '' @ to_string (total la)))]"

definition mem_note :: string where
  "mem_note =
     newline @ ''  Note: \"Cached\" is disk content the kernel keeps in RAM. It does not'' @ newline @
     ''  count as free, but it is reclaimed under memory pressure - which is why'' @ newline @
     ''  MemAvailable, not MemFree, is the number that matters.'' @ newline"

definition cmd_mem :: "'w kernel \<Rightarrow> 'w os \<Rightarrow> (int cpp \<times> 'w os) option" where
  "cmd_mem K s = do {
     (mem, s) \<leftarrow> read_meminfo K s;
     (case mem of
        None \<Rightarrow> Some (Inr 1, put_err (''Cannot read /proc/meminfo.'' @ newline) s)
      | Some m \<Rightarrow>
          (case print_report (mem_report m) s of
             (Inl e, s) \<Rightarrow> Some (Inl e, s)
           | (Inr _, s) \<Rightarrow> do {
               (la, s) \<leftarrow> read_loadavg K s;
               (case print_report (case la of None \<Rightarrow> [] | Some la \<Rightarrow> load_report la) s of
                  (Inl e, s) \<Rightarrow> Some (Inl e, s)
                | (Inr _, s) \<Rightarrow> do {
                    (up, s) \<leftarrow> read_uptime_seconds K s;
                    (case print_report
                       (case up of None \<Rightarrow> [] | Some t \<Rightarrow> [Field ''Uptime'' (human_duration t)]) s of
                       (Inl e, s) \<Rightarrow> Some (Inl e, s)
                     | (Inr _, s) \<Rightarrow> Some (Inr 0, put_out mem_note s))
                  })
             }))
   }"

subsection \<open>main\<close>

definition main ::
  "'w kernel \<Rightarrow> ProcessInfo sorter \<Rightarrow> (string \<times> 64 word) sorter \<Rightarrow> int \<Rightarrow> int \<Rightarrow>
    string list \<Rightarrow> 'w os \<Rightarrow> (int cpp \<times> 'w os) option" where
  "main K srt srt2 page_size hz args s =
     (if args = [] \<or> hd args = ''-h'' \<or> hd args = ''--help'' then
        Some (Inr (if args = [] then 2 else 0), put_out usage s)
      else let command = hd args in
      if command = ''list'' then cmd_list K srt page_size hz (tl args) s
      else if command = ''mem'' then cmd_mem K s
      else if command = ''show'' \<or> command = ''threads'' \<or> command = ''maps'' then
        (if length args < 2 then Some (Inr 2, put_err (command @ '' requires a pid.'' @ newline) s)
         else case resolve_pid K (args ! 1) s of
             (Inl e, s) \<Rightarrow> Some (Inl e, s)
           | (Inr p, s) \<Rightarrow>
               if p < 0 then Some (Inr 2, put_err (''Invalid pid: '' @ args ! 1 @ newline) s)
               else if command = ''show'' then cmd_show K page_size hz p s
               else if command = ''threads'' then cmd_threads K hz p s
               else cmd_maps K srt2 p s)
      else Some (Inr 2, put_out usage (put_err (''Unknown command: '' @ command @ newline @ newline) s)))"

subsection \<open>The list that is shown\<close>

text \<open>
  What \<open>std::sort\<close> documents: for a strict weak order the result is a permutation in which no
  element stands after one that it is to precede.
\<close>

definition strict_weak_order :: "('a \<Rightarrow> 'a \<Rightarrow> bool) \<Rightarrow> bool" where
  "strict_weak_order before \<longleftrightarrow>
     (\<forall>x y. before x y \<longrightarrow> \<not> before y x) \<and> (\<forall>x y z. before x z \<longrightarrow> before x y \<or> before y z)"

definition sorts :: "'a sorter \<Rightarrow> bool" where
  "sorts srt \<longleftrightarrow> (\<forall>before xs. strict_weak_order before \<longrightarrow>
     mset (srt before xs) = mset xs \<and> sorted_wrt (\<lambda>a b. \<not> before b a) (srt before xs))"

lemma list_order_strict_weak: "list_order hz sort_by = Some before \<Longrightarrow> strict_weak_order before"
  by (auto simp: list_order_def strict_weak_order_def split: if_splits)

lemma by_size_strict_weak: "strict_weak_order by_size"
  by (auto simp: by_size_def strict_weak_order_def)

text \<open>
  The elements shown, in order, and those that are left out: together they are all of \<open>ps\<close>, and
  none that is left out is to precede one that is shown.
\<close>

definition leading :: "('a \<Rightarrow> 'a \<Rightarrow> bool) \<Rightarrow> 'a list \<Rightarrow> 'a list \<Rightarrow> 'a list \<Rightarrow> bool" where
  "leading before shown hidden ps \<longleftrightarrow>
     mset shown + mset hidden = mset ps \<and> sorted_wrt (\<lambda>a b. \<not> before b a) shown \<and>
     (\<forall>a \<in> set shown. \<forall>b \<in> set hidden. \<not> before b a)"

lemma sorts_take:
  assumes "sorts srt" and "strict_weak_order before"
  shows "\<exists>hidden. leading before (take n (srt before xs)) hidden xs"
proof -
  let ?ys = "srt before xs" and ?P = "\<lambda>a b. \<not> before b a"
  from assms have ys: "mset ?ys = mset xs" "sorted_wrt ?P ?ys" by (auto simp: sorts_def)
  have "sorted_wrt ?P (take n ?ys @ drop n ?ys)" using ys(2) by simp
  then have "sorted_wrt ?P (take n ?ys)" "\<forall>a \<in> set (take n ?ys). \<forall>b \<in> set (drop n ?ys). ?P a b"
    unfolding sorted_wrt_append by blast+
  moreover have "mset (take n ?ys) + mset (drop n ?ys) = mset xs"
    using ys(1) by (simp flip: mset_append)
  ultimately show ?thesis unfolding leading_def by blast
qed

text \<open>A sorter for the examples.\<close>

fun insert_by :: "('a \<Rightarrow> 'a \<Rightarrow> bool) \<Rightarrow> 'a \<Rightarrow> 'a list \<Rightarrow> 'a list" where
  "insert_by before x [] = [x]"
| "insert_by before x (y # ys) =
     (if before y x then y # insert_by before x ys else x # y # ys)"

definition insertion_sort :: "'a sorter" where
  "insertion_sort before xs = foldr (insert_by before) xs []"

lemma mset_insert_by [simp]: "mset (insert_by before x ys) = add_mset x (mset ys)"
  by (induction ys) auto

lemma sorted_insert_by:
  assumes "strict_weak_order before" and "sorted_wrt (\<lambda>a b. \<not> before b a) ys"
  shows "sorted_wrt (\<lambda>a b. \<not> before b a) (insert_by before x ys)"
  using assms(2)
proof (induction ys)
  case Nil
  then show ?case by simp
next
  case (Cons y ys)
  have set_ins: "set (insert_by before x ys) = insert x (set ys)"
    by (metis mset_insert_by set_mset_add_mset_insert set_mset_mset)
  have neg: "\<not> before z x" if "\<not> before y x" "\<not> before z y" for z
    using assms(1) that unfolding strict_weak_order_def by blast
  show ?case
  proof (cases "before y x")
    case True
    then have "\<not> before x y" using assms(1) by (simp add: strict_weak_order_def)
    with True Cons show ?thesis by (simp add: set_ins)
  next
    case False
    with Cons.prems neg show ?thesis by auto
  qed
qed

lemma insertion_sort_sorts: "sorts insertion_sort"
proof -
  have "mset (foldr (insert_by before) xs []) = mset xs \<and>
      sorted_wrt (\<lambda>a b. \<not> before b a) (foldr (insert_by before) xs [])"
    if "strict_weak_order before" for before :: "'a \<Rightarrow> 'a \<Rightarrow> bool" and xs
    using that by (induction xs) (auto intro: sorted_insert_by)
  then show ?thesis by (simp add: sorts_def insertion_sort_def)
qed

text \<open>
  What the user sees, told apart from the code. The options: the last \<open>--sort=\<close> and the last
  \<open>--limit=\<close> count, the defaults are \<open>rss\<close> and 20, and nothing else may be given.
\<close>

definition asked :: "string list \<Rightarrow> string \<Rightarrow> nat \<Rightarrow> bool" where
  "asked args key limit \<longleftrightarrow>
     (\<forall>a \<in> set args. prefix ''--sort='' a \<or> prefix ''--limit='' a) \<and>
     key = last (''rss'' # map (drop 7) (filter (prefix ''--sort='') args)) \<and>
     Inr limit = last (Inr 20 # map (\<lambda>a. stoul (drop 8 a)) (filter (prefix ''--limit='') args)) \<and>
     key \<in> {''rss'', ''cpu'', ''threads'', ''pid''}"

text \<open>
  The scan. Every process is visited in the order of the pids: one whose \<open>stat\<close> file cannot be
  read or has no command name is left out and the scan goes on; the others contribute the fields
  of their \<open>stat\<close> file, the keys of \<open>status\<close> and the command line.
\<close>

inductive scanned ::
  "'w kernel \<Rightarrow> int \<Rightarrow> int list \<Rightarrow> ProcessInfo list \<Rightarrow> 'w os \<Rightarrow> 'w os \<Rightarrow> bool" for K page_size where
  scanned_all: "scanned K page_size [] [] s s"
| scanned_gone:
  "read_file K (''/proc/'' @ to_string p @ ''/stat'') s = Some (content, s1) \<Longrightarrow>
   content = None \<or> content = Some line \<and> stat_of line = None \<Longrightarrow>
   scanned K page_size ps infos s1 s2 \<Longrightarrow> scanned K page_size (p # ps) infos s s2"
| scanned_read:
  "read_file K (''/proc/'' @ to_string p @ ''/stat'') s = Some (Some line, s1) \<Longrightarrow>
   stat_of line = Some f \<Longrightarrow> process_of_stat page_size p f = Inr i \<Longrightarrow>
   parse_kv K (''/proc/'' @ to_string p @ ''/status'') s1 = Some (status, s2) \<Longrightarrow>
   read_file K (''/proc/'' @ to_string p @ ''/cmdline'') s2 = Some (cl, s3) \<Longrightarrow>
   scanned K page_size ps infos s3 s4 \<Longrightarrow>
   scanned K page_size (p # ps) (add_cmdline cl (add_status status i) # infos) s s4"

text \<open>
  The order. The biggest come first for memory, time and threads, the lowest for the pid; the
  time is the sum of both counters over the clock rate.
\<close>

definition busy_seconds :: "int \<Rightarrow> ProcessInfo \<Rightarrow> rat" where
  "busy_seconds hz i =
     to_double (to_double (of_int (utime_ticks i + stime_ticks i)) / to_double (of_int hz))"

definition listed_before :: "int \<Rightarrow> string \<Rightarrow> ProcessInfo \<Rightarrow> ProcessInfo \<Rightarrow> bool" where
  "listed_before hz key a b \<longleftrightarrow>
     key = ''rss'' \<and> rss_bytes b < rss_bytes a \<or>
     key = ''cpu'' \<and> busy_seconds hz b < busy_seconds hz a \<or>
     key = ''threads'' \<and> num_threads b < num_threads a \<or>
     key = ''pid'' \<and> pid a < pid b"

text \<open>The columns.\<close>

definition list_headers :: "string list" where
  "list_headers =
     [''PID'', ''PPID'', ''S'', ''THR'', ''RSS'', ''VSZ'', ''CPU'', ''MAJFLT'', ''COMMAND'']"

definition shown_row :: "int \<Rightarrow> ProcessInfo \<Rightarrow> string list \<Rightarrow> bool" where
  "shown_row hz i cells \<longleftrightarrow> ll_range (utime_ticks i + stime_ticks i) \<and>
     (\<exists>time. human_duration (busy_seconds hz i) = Inr time \<and>
       zip list_headers cells =
        [(''PID'', to_string (pid i)), (''PPID'', to_string (ppid i)), (''S'', [state i]),
         (''THR'', to_string (num_threads i)), (''RSS'', human_bytes (rss_bytes i)),
         (''VSZ'', human_bytes (vsize_bytes i)), (''CPU'', time),
         (''MAJFLT'', to_string (major_faults i)), (''COMMAND'', comm i)] \<and>
       length cells = 9)"

text \<open>
  The whole output: the table of the rows that are shown - numbers to the right, the command to
  the left - and below it how many there are and how many are shown.
\<close>

definition listing :: "string \<Rightarrow> nat \<Rightarrow> string list list \<Rightarrow> string \<Rightarrow> bool" where
  "listing key n cells shown_text \<longleftrightarrow> (\<exists>table.
     Table_print \<lparr>headers = list_headers, rows = cells, right = replicate 8 True @ [False]\<rparr> = Inr table \<and>
     shown_text = table @ newline @ to_string (int n) @ '' processes, showing '' @
       to_string (int (length cells)) @ '' (sorted by '' @ key @ '').'' @ newline)"

lemma list_options_asked:
  "list_options args (key0, n0) s = (Inr (Inr (key, limit)), s1) \<Longrightarrow>
    s1 = s \<and> (\<forall>a \<in> set args. prefix ''--sort='' a \<or> prefix ''--limit='' a) \<and>
    key = last (key0 # map (drop 7) (filter (prefix ''--sort='') args)) \<and>
    Inr limit = last (Inr n0 # map (\<lambda>a. stoul (drop 8 a)) (filter (prefix ''--limit='') args))"
proof (induction args arbitrary: key0 n0)
  case (Cons a args)
  have other: "\<not> prefix ''--limit='' a" if "prefix ''--sort='' a" using that by (auto simp: prefix_def)
  from Cons.prems consider "prefix ''--sort='' a" | n where "\<not> prefix ''--sort='' a"
    "prefix ''--limit='' a" "stoul (drop 8 a) = Inr n"
    by (auto split: if_splits sum.splits)
  then show ?case
  proof cases
    case 1
    with Cons.IH [of "drop 7 a" n0] Cons.prems other show ?thesis by simp
  next
    case 2
    with Cons.IH [of key0 n] Cons.prems show ?thesis by simp
  qed
qed simp

lemma read_processes_scanned:
  "read_processes K page_size pids acc s = Some (Inr infos, s1) \<Longrightarrow>
    \<exists>new. infos = acc @ new \<and> scanned K page_size pids new s s1"
proof (induction K page_size pids acc s rule: read_processes.induct)
  case (1 K page_size acc s)
  then show ?case by (auto intro: scanned_all)
next
  case (2 K page_size p ps acc s)
  from "2.prems" obtain r s2 where r: "read_process K page_size p s = Some (r, s2)"
    by (auto simp: bind_eq_Some_conv)
  from r obtain content s3 where st: "read_file K (''/proc/'' @ to_string p @ ''/stat'') s = Some (content, s3)"
    by (auto simp: read_process_def parse_stat_def bind_eq_Some_conv Let_def)
  consider (gone) "r = Inr None" | (found) i where "r = Inr (Some i)"
    using "2.prems" r by (cases r) (auto split: option.splits)
  then show ?case
  proof cases
    case gone
    with r st have bad: "content = None \<or> content = Some (the content) \<and> stat_of (the content) = None"
      and "s3 = s2"
      by (auto simp: read_process_def parse_stat_def bind_eq_Some_conv Let_def
          split: option.splits sum.splits)
    with "2.prems" "2.IH"(1) [OF r refl] gone r scanned_gone [OF st bad] show ?thesis by auto
  next
    case found
    with r st obtain line f i0 status s4 cl where
      ok: "content = Some line" "stat_of line = Some f" "process_of_stat page_size p f = Inr i0"
        "parse_kv K (''/proc/'' @ to_string p @ ''/status'') s3 = Some (status, s4)"
        "read_file K (''/proc/'' @ to_string p @ ''/cmdline'') s4 = Some (cl, s2)"
        "i = add_cmdline cl (add_status status i0)"
      by (auto simp: read_process_def parse_stat_def bind_eq_Some_conv Let_def
          split: option.splits sum.splits)
    from "2.prems" found r have "read_processes K page_size ps (acc @ [i]) s2 = Some (Inr infos, s1)"
      by simp
    from "2.IH"(2) [OF r refl found refl this] obtain new where
      "infos = (acc @ [i]) @ new" "scanned K page_size ps new s2 s1" by blast
    with scanned_read [of K p s] st ok show ?thesis by auto
  qed
qed

lemma scanned_streams: "scanned K page_size pids infos s s1 \<Longrightarrow> out s1 = out s \<and> err s1 = err s"
proof (induction rule: scanned.induct)
  case (scanned_read p s line s1 f i status s2 cl s3 ps infos s4)
  from scanned_read(4) have "out s2 = out s1 \<and> err s2 = err s1"
    by (auto simp: parse_kv_def read_lines_def bind_eq_Some_conv dest!: read_file_spec split: option.splits)
  with read_file_spec [OF scanned_read(1)] read_file_spec [OF scanned_read(5)] scanned_read.IH
  show ?case by auto
qed (auto dest: read_file_spec)

lemma list_row_shown: "list_row hz i = Inr cells \<Longrightarrow> shown_row hz i cells \<and> length cells = 9"
  by (auto simp: list_row_def cpu_seconds_def ticks_seconds_def ll_checked_def cbind_Inr_iff
      shown_row_def list_headers_def busy_seconds_def split: if_splits)

lemma add_rows_shown:
  "add_rows (list_row hz) ps t = Inr t' \<Longrightarrow> length (headers t) = 9 \<Longrightarrow>
    \<exists>cells. t' = t\<lparr>rows := rows t @ cells\<rparr> \<and> list_all2 (shown_row hz) ps cells"
proof (induction ps arbitrary: t)
  case (Cons i ps)
  then obtain c where c: "list_row hz i = Inr c" "add_rows (list_row hz) ps (add_row c t) = Inr t'"
    by (auto simp: cbind_Inr_iff)
  from Cons.IH [OF c(2)] Cons.prems(2) obtain cells where
    "t' = (add_row c t)\<lparr>rows := rows (add_row c t) @ cells\<rparr>" "list_all2 (shown_row hz) ps cells"
    by (auto simp: add_row_def)
  with list_row_shown [OF c(1)] Cons.prems(2) show ?case
    by (intro exI [of _ "c # cells"]) (auto simp: add_row_def resize_def)
qed auto

lemma list_table_shown:
  assumes "list_table hz ps = Inr t"
  shows "\<exists>cells. t = \<lparr>headers = list_headers, rows = cells, right = replicate 8 True @ [False]\<rparr> \<and>
    list_all2 (shown_row hz) ps cells"
proof -
  have "aligned_table list_headers [0..<8] =
      \<lparr>headers = list_headers, rows = [], right = replicate 8 True @ [False]\<rparr>"
    by (simp add: aligned_table_def Table_new_def right_align_def list_headers_def upt_rec numeral_eq_Suc)
  with assms add_rows_shown [of hz ps "aligned_table list_headers [0..<8]" t] show ?thesis
    by (auto simp: list_table_def list_headers_def)
qed

text \<open>The comparator of the source and the order above agree on what \<open>std::sort\<close> is given.\<close>

lemma leading_listed:
  assumes "leading before shown hidden ps" and "list_order hz key = Some before"
    and "\<not> (key = ''cpu'' \<and> 2 \<le> length ps \<and> (\<exists>p \<in> set ps. isl (cpu_seconds hz p)))"
  shows "leading (listed_before hz key) shown hidden ps"
proof -
  have perm: "mset shown + mset hidden = mset ps" using assms(1) by (simp add: leading_def)
  then have sub: "set shown \<subseteq> set ps" "set hidden \<subseteq> set ps"
    by (metis set_mset_mset set_mset_union Un_upper1, metis set_mset_mset set_mset_union Un_upper2)
  show ?thesis
  proof (cases "length ps < 2")
    case True
    with perm have "length shown + length hidden < 2" by (metis size_mset size_union)
    then have "shown = [] \<or> (\<exists>x. shown = [x]) \<and> hidden = []"
      by (cases shown; cases hidden) (auto simp: length_Suc_conv)
    with perm show ?thesis by (auto simp: leading_def)
  next
    case False
    have same: "before a b \<longleftrightarrow> listed_before hz key a b" if "a \<in> set ps" "b \<in> set ps" for a b
    proof -
      have "cpu_value hz i = busy_seconds hz i" if "key = ''cpu''" "i \<in> set ps" for i
        using that False assms(3)
        by (auto simp: cpu_value_def cpu_seconds_def ticks_seconds_def ll_checked_def busy_seconds_def)
      with assms(2) that show ?thesis
        by (auto simp: list_order_def listed_before_def split: if_splits)
    qed
    have "sorted_wrt (\<lambda>a b. \<not> listed_before hz key b a) shown"
      using assms(1) same sub(1) unfolding leading_def
      by (auto intro: sorted_wrt_mono_rel [rotated])
    moreover have "\<not> listed_before hz key b a" if "a \<in> set shown" "b \<in> set hidden" for a b
      using assms(1) same [of b a] sub that unfolding leading_def by blast
    ultimately show ?thesis using perm by (simp add: leading_def)
  qed
qed

lemma cmd_list_success:
  assumes "sorts srt" and "cmd_list K srt page_size hz args s = Some (Inr 0, s')"
  shows "\<exists>key limit pids s1 ps s2 shown before hidden table.
    list_options args (''rss'', 20) s = (Inr (Inr (key, limit)), s) \<and>
    list_pids K s = (Inr pids, s1) \<and> read_processes K page_size pids [] s1 = Some (Inr ps, s2) \<and>
    list_order hz key = Some before \<and>
    \<not> (key = ''cpu'' \<and> 2 \<le> length ps \<and> (\<exists>p \<in> set ps. isl (cpu_seconds hz p))) \<and>
    leading before shown hidden ps \<and> length shown = min limit (length ps) \<and>
    cbind (list_table hz shown) Table_print = Inr table \<and>
    out s' = out s2 @ table @ newline @ to_string (int (length ps)) @ '' processes, showing '' @
      to_string (int (length shown)) @ '' (sorted by '' @ key @ '').'' @ newline \<and>
    err s' = err s2 \<and> trace s' = trace s2"
proof -
  obtain o1 s1 where o: "list_options args (''rss'', 20) s = (o1, s1)" by fastforce
  from assms(2) o obtain sort_by limit where o1: "o1 = Inr (Inr (sort_by, limit)) \<or> o1 = Inr (Inl 0)"
    by (cases o1) (auto simp: cmd_list_def split: sum.splits)
  have "list_options args opts s \<noteq> (Inr (Inl 0), s1)" for opts
    by (induction args opts s rule: list_options.induct) (auto split: sum.splits)
  with o o1 have o1: "o1 = Inr (Inr (sort_by, limit))" by metis
  note s1 = list_options_asked [OF o [unfolded o1], THEN conjunct1]
  obtain l s2 where l: "list_pids K s1 = (l, s2)" by fastforce
  from assms(2) o o1 l obtain pids where pids: "l = Inr pids"
    by (cases l) (auto simp: cmd_list_def)
  from assms(2) o o1 l pids obtain processes s3
    where p: "read_processes K page_size pids [] s2 = Some (processes, s3)"
    by (auto simp: cmd_list_def bind_eq_Some_conv)
  from assms(2) o o1 l pids p obtain sorted
    where srt: "cbind processes (sort_processes srt hz sort_by) = Inr (Some sorted)"
    by (auto simp: cmd_list_def split: sum.splits option.splits)
  let ?shown = "if limit < length sorted then take limit sorted else sorted"
  obtain r s4 where t: "print_table (list_table hz ?shown) s3 = (r, s4)" by fastforce
  from srt obtain ps before where ps: "processes = Inr ps" "list_order hz sort_by = Some before"
    "sorted = srt before ps"
    "\<not> (sort_by = ''cpu'' \<and> 2 \<le> length ps \<and> (\<exists>p \<in> set ps. isl (cpu_seconds hz p)))"
    by (auto simp: cbind_Inr_iff sort_processes_def split: option.splits if_splits)
  have len: "length sorted = length ps"
    using assms(1) list_order_strict_weak [OF ps(2)] ps(3) by (metis sorts_def size_mset)
  have shown: "?shown = take limit sorted" by simp
  let ?summary = "newline @ to_string (int (length sorted)) @ '' processes, showing '' @
    to_string (int (length ?shown)) @ '' (sorted by '' @ sort_by @ '').'' @ newline"
  have "cmd_list K srt page_size hz args s =
      (case r of Inl e \<Rightarrow> Some (Inl e, s4) | Inr _ \<Rightarrow> Some (Inr 0, put_out ?summary s4))"
    unfolding cmd_list_def o o1 l pids prod.case sum.case p Option.bind.simps srt option.case Let_def t
    by (rule refl)
  with assms(2) have s': "r = Inr ()" "s' = put_out ?summary s4" by (auto split: sum.splits)
  with t obtain table where printed: "cbind (list_table hz ?shown) Table_print = Inr table"
    "s4 = put_out table s3" by (auto simp: print_table_def split: sum.splits)
  from sorts_take [OF assms(1) list_order_strict_weak [OF ps(2)], of limit ps]
  obtain hidden where h: "leading before ?shown hidden ps"
    unfolding shown unfolding ps(3) by blast
  have "length ?shown = min limit (length ps)" unfolding shown using len by simp
  moreover have "out s' = out s3 @ table @ newline @ to_string (int (length ps)) @
      '' processes, showing '' @ to_string (int (length ?shown)) @ '' (sorted by '' @ sort_by @ '').'' @ newline"
    unfolding s'(2) printed(2) by (simp add: len)
  moreover have "err s' = err s3" "trace s' = trace s3" unfolding s'(2) printed(2) by simp_all
  ultimately show ?thesis
    using o o1 l pids p ps h printed(1) s1 by blast
qed

text \<open>C18: When \<open>procmon list\<close> succeeds, its options are the ones it knows, and it shows the first
  \<open>limit\<close> processes in the order asked for, of all those that can be read. The numeric names of
  \<open>/proc\<close> are visited in ascending order; a process that cannot be read is skipped and the rest are
  still listed; memory, time and threads are in descending order and pids in ascending order; no
  process left out precedes one that is shown; each row has pid, parent, state, threads, sizes,
  time, faults and command under their headers; the counts below are those of the processes read
  and shown; and nothing else is printed.
\<close>

theorem cmd_list_shows:
  assumes "sorts srt" and "cmd_list K srt page_size hz args s = Some (Inr 0, s')"
  shows "\<exists>key limit names s1 ps s2 shown hidden cells shown_text.
    asked args key limit \<and> sys_listdir K ''/proc'' s = (names, s1) \<and>
    scanned K page_size
      (sort (map (\<lambda>n. int (value_of 10 n)) (filter (\<lambda>n. n \<noteq> [] \<and> list_all isdigit n) names)))
      ps s1 s2 \<and>
    leading (listed_before hz key) shown hidden ps \<and> length shown = min limit (length ps) \<and>
    list_all2 (shown_row hz) shown cells \<and> listing key (length ps) cells shown_text \<and>
    out s' = out s @ shown_text \<and> err s' = err s \<and> trace s' = trace s2"
proof -
  from cmd_list_success [OF assms] obtain key limit pids s1 ps s2 shown before hidden tbl where
    opts: "list_options args (''rss'', 20) s = (Inr (Inr (key, limit)), s)" and
    pids: "list_pids K s = (Inr pids, s1)" and
    read: "read_processes K page_size pids [] s1 = Some (Inr ps, s2)" and
    key: "list_order hz key = Some before"
      "\<not> (key = ''cpu'' \<and> 2 \<le> length ps \<and> (\<exists>p \<in> set ps. isl (cpu_seconds hz p)))" and
    lead: "leading before shown hidden ps" "length shown = min limit (length ps)" and
    table: "cbind (list_table hz shown) Table_print = Inr tbl" and
    final: "out s' = out s2 @ tbl @ newline @ to_string (int (length ps)) @ '' processes, showing '' @
      to_string (int (length shown)) @ '' (sorted by '' @ key @ '').'' @ newline"
      "err s' = err s2" "trace s' = trace s2" by blast
  obtain names s0 where dir: "sys_listdir K ''/proc'' s = (names, s0)" by fastforce
  with pids have s1: "s0 = s1"
    and pids': "pids = sort (map (\<lambda>n. int (value_of 10 n)) (filter is_number names))"
    using list_pids_result [of K s] by (auto simp: list_pids_def Let_def split: if_splits)
  have num: "is_number = (\<lambda>n. n \<noteq> [] \<and> list_all isdigit n)" by (simp add: fun_eq_iff is_number_def)
  from read_processes_scanned [OF read] have scan: "scanned K page_size pids ps s1 s2" by simp
  from table obtain t where t: "list_table hz shown = Inr t" "Table_print t = Inr tbl"
    by (auto simp: cbind_Inr_iff)
  from list_table_shown [OF t(1)] obtain cells where
    cells: "t = \<lparr>headers = list_headers, rows = cells, right = replicate 8 True @ [False]\<rparr>"
      "list_all2 (shown_row hz) shown cells" by blast
  have "asked args key limit"
    using list_options_asked [OF opts] key(1) by (auto simp: asked_def list_order_def split: if_splits)
  moreover have "out s1 = out s \<and> err s1 = err s" using dir s1 by (auto simp: sys_listdir_def split: prod.splits)
  moreover note scanned_streams [OF scan]
  moreover have "listing key (length ps) cells (tbl @ newline @ to_string (int (length ps)) @
      '' processes, showing '' @ to_string (int (length shown)) @ '' (sorted by '' @ key @ '').'' @ newline)"
    using t(2) cells list_all2_lengthD [OF cells(2)] by (auto simp: listing_def)
  ultimately show ?thesis
    using dir s1 scan lead(2) cells(2) final leading_listed [OF lead(1) key] unfolding num pids'
    by (intro exI) (rule conjI, assumption | simp)+
qed

lemma list_table_prints:
  assumes "\<forall>p \<in> set ps. \<exists>cells. list_row hz p = Inr cells"
  shows "\<exists>text. cbind (list_table hz ps) Table_print = Inr text"
proof -
  have "\<exists>t'. add_rows (list_row hz) ps t = Inr t' \<and> table_ok t'" if "table_ok t" for t
    using assms that
  proof (induction ps arbitrary: t)
    case (Cons p ps)
    then obtain cells where "list_row hz p = Inr cells" by auto
    with Cons show ?case by (auto intro: table_ok_intros)
  qed simp
  moreover have "table_ok (fold right_align columns t)" if "table_ok t" for columns t
    using that by (induction columns arbitrary: t) (auto intro: table_ok_intros)
  ultimately obtain t' where t': "list_table hz ps = Inr t'" "table_ok t'"
    using table_ok_intros(1) unfolding list_table_def aligned_table_def by blast
  with Table_print_eq [OF t'(2)] show ?thesis by auto
qed

text \<open>
  A directory with three processes of which the one with pid 8 is gone when it is visited. The
  compiler with pid 30 holds more memory than the shell with pid 7.
\<close>

definition shell_numbers :: "int list" where
  "shell_numbers = [1, 7, 7, 0, -1, 0, 0, 0, 2, 0, 5, 3, 0, 0, 20, 0, 1, 0, 100, 4096000, 300]"

definition compiler_numbers :: "int list" where
  "compiler_numbers = [7, 30, 7, 0, -1, 0, 0, 0, 4, 0, 250, 50, 0, 0, 20, 0, 2, 0, 180, 81920000, 9000]"

definition visit :: "int \<Rightarrow> string \<Rightarrow> char \<Rightarrow> int list \<Rightarrow> answer list" where
  "visit p cm st ns =
     [A_int 3, A_bytes (stat_line p cm st ns), A_bytes [], A_int 0, A_fail 2, A_fail 2]"

definition three_processes :: "answer list" where
  "three_processes = A_names [''30'', ''self'', ''7'', ''8''] #
     visit 7 ''sh'' CHR ''S'' shell_numbers @ A_fail 2 #
     visit 30 ''cc1 (x)'' CHR ''R'' compiler_numbers"

lemma scripted_file:
  assumes "world s = A_int fd # A_bytes d # A_bytes [] # A_int r # w"
    and "0 \<le> fd" "d \<noteq> []" "length d \<le> 4096"
  shows "\<exists>s'. read_file scripted p s = Some (Some d, s') \<and> world s' = w"
  using assms
  by (simp add: read_file_def FileDescriptor_open_def FileDescriptor_valid_def
      FileDescriptor_destroy_def FileDescriptor_reset_def read_loop.simps run_simps)

lemma scripted_no_file:
  assumes "world s = A_fail e # w"
  shows "\<exists>s'. read_file scripted p s = Some (None, s') \<and> world s' = w"
  using assms
  by (simp add: read_file_def FileDescriptor_open_def FileDescriptor_valid_def
      FileDescriptor_destroy_def FileDescriptor_reset_def run_simps)

lemma scripted_visit:
  assumes w: "world s = visit p cm st ns @ w" and "length (stat_line p cm st ns) \<le> 4096"
    and line: "ink st" "st \<noteq> CHR '')''" "\<forall>n \<in> set ns. ll_range n" "7 \<le> length ns" "length ns < 2 ^ 60"
      "ll_range (stat_number ns 20 * 4096)"
  shows "\<exists>s'. read_process scripted 4096 p s = Some (Inr (Some (stat_process 4096 p cm st ns)), s') \<and>
    world s' = w"
proof -
  let ?base = "''/proc/'' @ to_string p"
  have "stat_line p cm st ns \<noteq> []" by (simp add: stat_line_def)
  with scripted_file [of s 3 "stat_line p cm st ns" 0 "A_fail 2 # A_fail 2 # w" "?base @ ''/stat''"]
    w assms(2) obtain s1
    where r1: "read_file scripted (?base @ ''/stat'') s = Some (Some (stat_line p cm st ns), s1)"
    and w1: "world s1 = A_fail 2 # A_fail 2 # w" by (auto simp: visit_def)
  from scripted_no_file [OF w1] obtain s2
    where r2: "read_file scripted (?base @ ''/status'') s1 = Some (None, s2)"
    and w2: "world s2 = A_fail 2 # w" by blast
  from scripted_no_file [OF w2] obtain s3
    where r3: "read_file scripted (?base @ ''/cmdline'') s2 = Some (None, s3)"
    and w3: "world s3 = w" by blast
  from stat_line_process [OF line] obtain f where
    "stat_of (stat_line p cm st ns) = Some f"
    "process_of_stat 4096 p f = Inr (stat_process 4096 p cm st ns)" by blast
  moreover have "add_status [] (stat_process 4096 p cm st ns) = stat_process 4096 p cm st ns"
    by (simp add: add_status_def kv_number_def stat_process_def ProcessInfo_init_def)
  ultimately show ?thesis using r1 r2 r3 w3
    by (simp add: read_process_def parse_stat_def parse_kv_def read_lines_def add_cmdline_def Let_def)
qed

lemma scripted_gone:
  assumes "world s = A_fail e # w"
  shows "\<exists>s'. read_process scripted 4096 p s = Some (Inr None, s') \<and> world s' = w"
  using scripted_no_file [OF assms, of "''/proc/'' @ to_string p @ ''/stat''"]
  by (auto simp: read_process_def parse_stat_def)

definition shell :: ProcessInfo where
  "shell = stat_process 4096 7 ''sh'' CHR ''S'' shell_numbers"

definition compiler :: ProcessInfo where
  "compiler = stat_process 4096 30 ''cc1 (x)'' CHR ''R'' compiler_numbers"

lemma stat_lines_short:
  "length (stat_line 7 ''sh'' CHR ''S'' shell_numbers) \<le> 4096"
  "length (stat_line 30 ''cc1 (x)'' CHR ''R'' compiler_numbers) \<le> 4096"
  by (simp_all add: stat_line_def unwords_def shell_numbers_def compiler_numbers_def to_string_def
      digits.simps)

lemma stoul_one: "stoul ''1'' = Inr 1"
proof -
  have "''1'' = to_string 1" "digits 10 1 = ''1''" by code_simp+
  then show ?thesis
    using strto_subject_to_string [of "[]" 1] value_of_digits [of 10 1] to_string_ink(1) [of 1]
    by (simp add: stoul_def ull_max_def)
qed

lemma compiler_sizes: "rss_bytes shell = 1228800" "rss_bytes compiler = 36864000"
  by (simp_all add: shell_def compiler_def stat_process_def stat_number_def shell_numbers_def
      compiler_numbers_def)

lemma compiler_row: "\<exists>cells. list_row 100 compiler = Inr cells"
proof -
  have "utime_ticks compiler + stime_ticks compiler = 300"
    by (simp add: compiler_def stat_process_def stat_number_def compiler_numbers_def)
  then have "cpu_seconds 100 compiler = Inr (to_double (to_double 300 / to_double 100))"
    by (simp add: cpu_seconds_def ticks_seconds_def ll_checked_def ll_range_def)
  moreover have "to_double (to_double 300 / to_double 100) < 2 ^ 31" by code_simp
  ultimately show ?thesis
    using human_duration_defined [of "to_double (to_double 300 / to_double 100)"]
    by (auto simp: list_row_def)
qed

lemma three_processes_scan:
  assumes "world s = tl three_processes"
  shows "\<exists>s'. read_processes scripted 4096 [7, 8, 30] [] s = Some (Inr [shell, compiler], s')"
proof -
  from assms have w: "world s = visit 7 ''sh'' CHR ''S'' shell_numbers @
      (A_fail 2 # visit 30 ''cc1 (x)'' CHR ''R'' compiler_numbers @ [])"
    by (simp add: three_processes_def)
  obtain s1 where r1: "read_process scripted 4096 7 s = Some (Inr (Some shell), s1)"
    and w1: "world s1 = A_fail 2 # visit 30 ''cc1 (x)'' CHR ''R'' compiler_numbers @ []"
    using scripted_visit [OF w stat_lines_short(1)]
    by (auto simp: isspace_def ll_range_def stat_number_def shell_numbers_def shell_def)
  from scripted_gone [OF w1] obtain s2 where r2: "read_process scripted 4096 8 s1 = Some (Inr None, s2)"
    and w2: "world s2 = visit 30 ''cc1 (x)'' CHR ''R'' compiler_numbers @ []" by blast
  obtain s3 where r3: "read_process scripted 4096 30 s2 = Some (Inr (Some compiler), s3)"
    using scripted_visit [OF w2 stat_lines_short(2)]
    by (auto simp: isspace_def ll_range_def stat_number_def compiler_numbers_def compiler_def)
  show ?thesis by (simp add: r1 r2 r3)
qed

lemma three_pids: "list_pids_loop [''30'', ''self'', ''7'', ''8''] [] = Inr [30, 7, 8]"
  by code_simp

lemma three_processes_run:
  "\<exists>s'. cmd_list scripted insertion_sort 4096 100 [''--limit=1''] (fresh_os three_processes) =
    Some (Inr 0, s')"
proof -
  let ?s = "fresh_os three_processes"
  have opt: "list_options [''--limit=1''] (''rss'', 20) ?s = (Inr (Inr (''rss'', 1)), ?s)"
    using stoul_one by simp
  let ?s1 = "snd (sys_listdir scripted ''/proc'' ?s)"
  have l: "list_pids scripted ?s = (Inr [7, 8, 30], ?s1)" and "world ?s1 = tl three_processes"
    using three_pids by (simp_all add: list_pids_def three_processes_def sys_listdir_def)
  then obtain s2 where rp: "read_processes scripted 4096 [7, 8, 30] [] ?s1 = Some (Inr [shell, compiler], s2)"
    using three_processes_scan by blast
  have srt: "cbind (Inr [shell, compiler]) (sort_processes insertion_sort 100 ''rss'') =
      Inr (Some [compiler, shell])"
    by (simp add: sort_processes_def list_order_def insertion_sort_def compiler_sizes)
  obtain table where "cbind (list_table 100 [compiler]) Table_print = Inr table"
    using list_table_prints [of "[compiler]" 100] compiler_row by auto
  then have pt: "print_table (list_table 100 [compiler]) s2 = (Inr (), put_out table s2)"
    by (simp add: print_table_def)
  have "(if 1 < length [compiler, shell] then take 1 [compiler, shell] else [compiler, shell]) = [compiler]"
    by simp
  with pt show ?thesis
    unfolding cmd_list_def opt l prod.case sum.case rp Option.bind.simps srt option.case Let_def
    by (simp only: prod.case sum.case) blast
qed

lemma scanned_deterministic:
  "scanned K page_size pids infos s s1 \<Longrightarrow> scanned K page_size pids infos' s s2 \<Longrightarrow> infos' = infos \<and> s2 = s1"
proof (induction arbitrary: infos' rule: scanned.induct)
  case (scanned_all s)
  then show ?case by (auto elim: scanned.cases)
next
  case (scanned_gone p s content s1 line ps infos s2)
  from scanned_gone.prems scanned_gone.hyps scanned_gone.IH show ?case by (cases rule: scanned.cases) auto
next
  case (scanned_read p s line s1 f i status s2 cl s3 ps infos s4)
  from scanned_read.prems scanned_read.hyps scanned_read.IH show ?case by (cases rule: scanned.cases) auto
qed

theorem cmd_list_shows_witness:
  "\<exists>s' s1 s2 cells shown_text.
    cmd_list scripted insertion_sort 4096 100 [''--limit=1''] (fresh_os three_processes) =
      Some (Inr 0, s') \<and>
    scanned scripted 4096 [7, 8, 30] [shell, compiler] s1 s2 \<and>
    leading (listed_before 100 ''rss'') [compiler] [shell] [shell, compiler] \<and>
    shown_row 100 compiler cells \<and> listing ''rss'' 2 [cells] shown_text \<and>
    out s' = shown_text \<and> err s' = [] \<and> trace s' = trace s2"
proof -
  let ?s = "fresh_os three_processes"
  from three_processes_run obtain s' where
    run: "cmd_list scripted insertion_sort 4096 100 [''--limit=1''] ?s = Some (Inr 0, s')" by blast
  from cmd_list_shows [OF insertion_sort_sorts run] obtain key limit names s1 ps s2 shown hidden cells shown_text
    where a: "asked [''--limit=1''] key limit" "sys_listdir scripted ''/proc'' ?s = (names, s1)"
      "scanned scripted 4096
        (sort (map (\<lambda>n. int (value_of 10 n)) (filter (\<lambda>n. n \<noteq> [] \<and> list_all isdigit n) names))) ps s1 s2"
      "leading (listed_before 100 key) shown hidden ps" "length shown = min limit (length ps)"
      "list_all2 (shown_row 100) shown cells" "listing key (length ps) cells shown_text"
      "out s' = out ?s @ shown_text" "err s' = err ?s" "trace s' = trace s2"
    by blast
  from a(1) stoul_one have opts: "key = ''rss''" "limit = 1" by (simp_all add: asked_def)
  from a(2) have names: "names = [''30'', ''self'', ''7'', ''8'']" and w: "world s1 = tl three_processes"
    by (auto simp: sys_listdir_def three_processes_def)
  have "value_of 10 ''30'' = 30" "value_of 10 ''7'' = 7" "value_of 10 ''8'' = 8" by code_simp+
  then have pids: "sort (map (\<lambda>n. int (value_of 10 n)) (filter (\<lambda>n. n \<noteq> [] \<and> list_all isdigit n) names)) =
      [7, 8, 30]"
    by (simp add: names isdigit_def)
  from three_processes_scan [OF w] read_processes_scanned obtain s3 where
    "scanned scripted 4096 [7, 8, 30] [shell, compiler] s1 s3" by fastforce
  with a(3) scanned_deterministic have ps: "ps = [shell, compiler]" unfolding pids by blast
  obtain x where shown: "shown = [x]" using a(5) by (auto simp: opts ps length_Suc_conv)
  have both: "{#x#} + mset hidden = {#shell, compiler#}" using a(4) by (simp add: leading_def shown ps)
  then have "x \<in># {#shell, compiler#}" by (metis union_single_eq_member add_mset_add_single add.commute)
  then have x: "x = shell \<or> x = compiler" by auto
  have hidden: "mset hidden = {#shell, compiler#} - {#x#}" using both by (metis add_diff_cancel_left')
  have "x \<noteq> shell"
  proof
    assume "x = shell"
    with hidden have "hidden = [compiler]" by simp
    with a(4) \<open>x = shell\<close> show False
      by (simp add: leading_def shown opts listed_before_def compiler_sizes)
  qed
  with x hidden have c: "x = compiler" "hidden = [shell]" by auto
  obtain row where row: "cells = [row]" "shown_row 100 compiler row"
    using a(6) by (auto simp: shown c list_all2_Cons1)
  show ?thesis
  proof (intro exI conjI)
    show "cmd_list scripted insertion_sort 4096 100 [''--limit=1''] ?s = Some (Inr 0, s')" by (rule run)
    show "scanned scripted 4096 [7, 8, 30] [shell, compiler] s1 s2" using a(3) by (simp only: pids ps)
    show "leading (listed_before 100 ''rss'') [compiler] [shell] [shell, compiler]"
      using a(4) by (simp only: opts ps shown c)
    show "shown_row 100 compiler row" by (rule row)
    show "listing ''rss'' 2 [row] shown_text" using a(7) by (simp add: opts ps row numeral_2_eq_2)
    show "out s' = shown_text" "err s' = []" using a(8,9) by (simp_all add: fresh_os_def)
    show "trace s' = trace s2" by (rule a(10))
  qed
qed

subsection \<open>The summary of the mappings\<close>

definition size_by_name :: "MemoryRegion list \<Rightarrow> string \<Rightarrow> 64 word" where
  "size_by_name rs k = sum_list (map region_size (filter (\<lambda>r. map_name r = k) rs))"

lemma map_plus_keys: "fst ` set (map_plus k n m) = insert k (fst ` set m)"
  by (induction k n m rule: map_plus.induct) auto

lemma map_plus_sorted: "sorted_wrt (<) (map fst m) \<Longrightarrow> sorted_wrt (<) (map fst (map_plus k n m))"
proof (induction k n m rule: map_plus.induct)
  case (1 k n)
  then show ?case by simp
next
  case (2 k n k' v m)
  show ?case
  proof (cases "k = k' \<or> k < k'")
    case True
    with 2 show ?thesis by auto
  next
    case False
    then have "k' < k" by auto
    moreover have "set (map fst (map_plus k n m)) = insert k (set (map fst m))"
      using map_plus_keys [of k n m] by simp
    ultimately show ?thesis using 2 False by simp
  qed
qed

lemma map_plus_lookup:
  "map_of (map_plus k n m) x =
    (if x = k then Some (n + (case map_of m k of None \<Rightarrow> 0 | Some v \<Rightarrow> v)) else map_of m x)"
  if "sorted_wrt (<) (map fst m)"
  using that
proof (induction k n m rule: map_plus.induct)
  case (1 k n)
  then show ?case by simp
next
  case (2 k n k' v m)
  have "map_of m k = None" if "k < k'"
    using 2 that by (auto simp: map_of_eq_None_iff)
  with 2 show ?case by auto
qed

lemma map_plus_sum: "sum_list (map snd (map_plus k n m)) = n + sum_list (map snd m)"
  by (induction k n m rule: map_plus.induct) (auto simp: algebra_simps)

lemma group_regions_acc:
  assumes "group_regions rs (m0, t0) = (m, t)" and "sorted_wrt (<) (map fst m0)"
  shows "sorted_wrt (<) (map fst m) \<and> fst ` set m = fst ` set m0 \<union> map_name ` set rs \<and>
    t + sum_list (map snd m0) = t0 + sum_list (map snd m) \<and>
    t = t0 + sum_list (map region_size rs) \<and>
    (\<forall>k. case map_of m k of
       None \<Rightarrow> map_of m0 k = None \<and> k \<notin> map_name ` set rs
     | Some v \<Rightarrow> v = (case map_of m0 k of None \<Rightarrow> 0 | Some u \<Rightarrow> u) + size_by_name rs k)"
  using assms
proof (induction rs arbitrary: m0 t0)
  case Nil
  then show ?case by (auto simp: size_by_name_def split: option.splits)
next
  case (Cons r rs)
  let ?m = "map_plus (map_name r) (region_size r) m0"
  have g: "group_regions rs (?m, t0 + region_size r) = (m, t)" using Cons.prems(1) by simp
  note IH = Cons.IH [OF g map_plus_sorted [OF Cons.prems(2)]]
  have "case map_of m k of
       None \<Rightarrow> map_of m0 k = None \<and> k \<notin> map_name ` set (r # rs)
     | Some v \<Rightarrow> v = (case map_of m0 k of None \<Rightarrow> 0 | Some u \<Rightarrow> u) + size_by_name (r # rs) k" for k
    using IH [THEN conjunct2, THEN conjunct2, THEN conjunct2, THEN conjunct2, THEN spec, of k]
      Cons.prems(2)
    by (cases "map_of m k"; cases "k = map_name r")
       (simp_all add: map_plus_lookup size_by_name_def add.assoc add.commute)
  moreover have "fst ` set m = fst ` set m0 \<union> map_name ` set (r # rs)"
    using IH by (simp add: map_plus_keys)
  moreover have "t + (region_size r + sum_list (map snd m0)) = t0 + region_size r + sum_list (map snd m)"
    using IH [THEN conjunct2, THEN conjunct2, THEN conjunct1] by (simp only: map_plus_sum)
  then have "t + sum_list (map snd m0) = t0 + sum_list (map snd m)"
    by (simp only: add.left_commute [of t] add.assoc add.left_commute [of t0] add_left_cancel)
  moreover have "t = t0 + sum_list (map region_size (r # rs))"
    using IH by (simp add: add.assoc)
  moreover have "sorted_wrt (<) (map fst m)" using IH by blast
  ultimately show ?case by blast
qed

text \<open>
  The summary of \<open>procmon maps\<close>: one entry for each name, in ascending order, with the sum of
  the sizes of the regions of that name; the total is the sum of all sizes and of all entries
  (all modulo \<open>2^64\<close>, as the code adds).
\<close>

lemma group_regions_correct:
  assumes "group_regions rs ([], 0) = (m, t)"
  shows "sorted_wrt (<) (map fst m)" and "fst ` set m = map_name ` set rs"
    and "t = sum_list (map region_size rs)" and "t = sum_list (map snd m)"
    and "(k, v) \<in> set m \<Longrightarrow> v = size_by_name rs k"
proof -
  have "sorted_wrt (<) (map fst ([] :: (string \<times> 64 word) list))" by simp
  note acc = group_regions_acc [OF assms this]
  note g = acc [THEN conjunct1] acc [THEN conjunct2, THEN conjunct1]
  note sums = acc [THEN conjunct2, THEN conjunct2, THEN conjunct1]
    acc [THEN conjunct2, THEN conjunct2, THEN conjunct2, THEN conjunct1]
  from sums have g': "t = sum_list (map snd m)" "t = sum_list (map region_size rs)" by simp_all
  have g5: "case map_of m k of None \<Rightarrow> k \<notin> map_name ` set rs | Some v \<Rightarrow> v = size_by_name rs k" for k
    using acc [THEN conjunct2, THEN conjunct2, THEN conjunct2,
      THEN conjunct2, THEN spec, of k] by (simp split: option.splits)
  from g show "sorted_wrt (<) (map fst m)" "fst ` set m = map_name ` set rs"
    and "t = sum_list (map region_size rs)" "t = sum_list (map snd m)"
    using g' by (simp_all only: set_simps image_empty Un_empty_left)
  assume "(k, v) \<in> set m"
  moreover have "distinct (map fst m)" using g(1) by (simp add: strict_sorted_iff)
  ultimately have "map_of m k = Some v" by simp
  with g5 [of k] show "v = size_by_name rs k" by simp
qed

end
