(* ===== verification/Procmon_Mapped.thy ===== *)
theory Procmon_Mapped
  imports Procmon_Util
begin

section \<open>procmon: mapped files\<close>

text \<open>
  Models \<open>procmon/src/mapped_file.cpp\<close>, the class \<open>MappedFile\<close>, on top of
  \<open>FileDescriptor\<close>. An object is a record of its members; the null pointer is address 0, and
  \<open>MAP_FAILED\<close> is -1, which is what \<open>mmap\<close> returns on failure. A string that was moved from
  is left empty. The objects of a program are a list, so that aliasing is an equality of
  indices, as in \<^theory_text>\<open>Handle\<close>.
\<close>

record MappedFile =
  mf_data :: int
  mf_size :: nat
  mf_fd :: int
  mf_error :: string

definition MappedFile_init :: MappedFile where
  "MappedFile_init = \<lparr>mf_data = 0, mf_size = 0, mf_fd = -1, mf_error = []\<rparr>"

definition MappedFile_valid :: "MappedFile \<Rightarrow> bool" where
  "MappedFile_valid m \<longleftrightarrow> mf_data m \<noteq> 0"

definition MappedFile_reset :: "'w kernel \<Rightarrow> MappedFile \<Rightarrow> 'w os \<Rightarrow> MappedFile \<times> 'w os" where
  "MappedFile_reset K m s =
     (let (m, s) =
        (if mf_data m \<noteq> 0 then
           let (_, s) = call K (Sys_munmap (mf_data m) (mf_size m)) s in
           (m\<lparr>mf_data := 0, mf_size := 0\<rparr>, s)
         else (m, s));
        (fd, s) = FileDescriptor_reset K (mf_fd m) (-1) s in
      (m\<lparr>mf_fd := fd\<rparr>, s))"

definition MappedFile_destroy :: "'w kernel \<Rightarrow> MappedFile \<Rightarrow> 'w os \<Rightarrow> 'w os" where
  "MappedFile_destroy K m s = snd (MappedFile_reset K m s)"

text \<open>The new object, and what is left in \<open>other\<close>.\<close>

definition MappedFile_move :: "MappedFile \<Rightarrow> MappedFile \<times> MappedFile" where
  "MappedFile_move other =
     (let (fd, fd') = FileDescriptor_move (mf_fd other) in
      (\<lparr>mf_data = mf_data other, mf_size = mf_size other, mf_fd = fd, mf_error = mf_error other\<rparr>,
       \<lparr>mf_data = 0, mf_size = 0, mf_fd = fd', mf_error = []\<rparr>))"

definition MappedFile_assign ::
  "'w kernel \<Rightarrow> nat \<Rightarrow> nat \<Rightarrow> MappedFile list \<Rightarrow> 'w os \<Rightarrow> MappedFile list \<times> 'w os" where
  "MappedFile_assign K this other ms s =
     (if this \<noteq> other then
        let (m, s) = MappedFile_reset K (ms ! this) s;
            x = ms ! other;
            (fds, s) = FileDescriptor_assign K 0 1 [mf_fd m, mf_fd x] s in
        (ms[this := \<lparr>mf_data = mf_data x, mf_size = mf_size x, mf_fd = fds ! 0,
                     mf_error = mf_error x\<rparr>,
            other := \<lparr>mf_data = 0, mf_size = 0, mf_fd = fds ! 1, mf_error = []\<rparr>], s)
      else (ms, s))"

definition MappedFile_open ::
  "'w kernel \<Rightarrow> string \<Rightarrow> bool \<Rightarrow> bool \<Rightarrow> 'w os \<Rightarrow> MappedFile \<times> 'w os" where
  "MappedFile_open K path writable shared s =
     (let mf = MappedFile_init;
          (tmp, s) = FileDescriptor_open K path [if writable then O_RDWR else O_RDONLY] s;
          (fds, s) = FileDescriptor_assign K 0 1 [mf_fd mf, tmp] s;
          s = FileDescriptor_destroy K (fds ! 1) s;
          mf = mf\<lparr>mf_fd := fds ! 0\<rparr> in
      if \<not> FileDescriptor_valid (mf_fd mf) then
        (mf\<lparr>mf_error := ''open: '' @ strerror K (errno s)\<rparr>, s)
      else let ((r, st_size), s) = call_value K (Sys_fstat (mf_fd mf)) s in
      if r \<noteq> 0 then (mf\<lparr>mf_error := ''fstat: '' @ strerror K (errno s)\<rparr>, s)
      else if st_size \<le> 0 then (mf\<lparr>mf_error := ''file is empty''\<rparr>, s)
      else let (addr, s) = call K (Sys_mmap (nat st_size)
          (if writable then [PROT_READ, PROT_WRITE] else [PROT_READ])
          (if shared then MAP_SHARED else MAP_PRIVATE) (mf_fd mf)) s in
      if addr = -1 then (mf\<lparr>mf_error := ''mmap: '' @ strerror K (errno s)\<rparr>, s)
      else (mf\<lparr>mf_data := addr, mf_size := nat st_size\<rparr>, s))"

text \<open>\<open>size_t\<close> arithmetic; a page size of 0 would divide by zero.\<close>

definition page_count :: "int \<Rightarrow> MappedFile \<Rightarrow> nat cpp" where
  "page_count page_size m =
     (let ps = nat (page_size mod 2 ^ 64) in
      if mf_size m = 0 then Inr 0
      else if ps = 0 then Inl Undefined_Behaviour
      else Inr ((mf_size m + ps + (2 ^ 64 - 1)) mod 2 ^ 64 div ps))"

text \<open>\<open>mincore\<close> fills a vector of zeros, one byte for each page.\<close>

definition resident_pages :: "'w kernel \<Rightarrow> int \<Rightarrow> MappedFile \<Rightarrow> 'w os \<Rightarrow> int cpp \<times> 'w os" where
  "resident_pages K page_size m s =
     (if \<not> MappedFile_valid m then (Inr (-1), s)
      else case page_count page_size m of
        Inl e \<Rightarrow> (Inl e, s)
      | Inr n \<Rightarrow>
          if \<not> vector_length_ok 1 n then (Inl Length_Error, s)
          else let ((r, d), s) = sys_mincore K (mf_data m) (mf_size m) n s;
                   vec = d @ replicate (n - length d) CHR 0x00 in
            if r \<noteq> 0 then (Inr (-1), s)
            else (Inr (int (length (filter (\<lambda>b. odd (ord b)) vec))), s))"

subsection \<open>Programs with mapped files\<close>

datatype mf_op =
  MF_open nat string bool bool | MF_move nat nat | MF_assign nat nat | MF_destroy nat

fun mf_step ::
  "'w kernel \<Rightarrow> mf_op \<Rightarrow> MappedFile list \<times> 'w os \<Rightarrow> MappedFile list \<times> 'w os" where
  "mf_step K (MF_open i p w sh) (ms, s) = (let (m, s) = MappedFile_open K p w sh s in (ms[i := m], s))"
| "mf_step K (MF_move i j) (ms, s) =
     (let (a, b) = MappedFile_move (ms ! j) in (ms[i := a, j := b], s))"
| "mf_step K (MF_assign i j) (ms, s) = MappedFile_assign K i j ms s"
| "mf_step K (MF_destroy i) (ms, s) = (ms[i := MappedFile_init], MappedFile_destroy K (ms ! i) s)"

text \<open>An object is constructed in a place where none lives.\<close>

definition vacant :: "MappedFile \<Rightarrow> bool" where
  "vacant m \<longleftrightarrow> mf_data m = 0 \<and> mf_fd m < 0"

fun mf_legal :: "mf_op \<Rightarrow> MappedFile list \<Rightarrow> bool" where
  "mf_legal (MF_open i p w sh) ms \<longleftrightarrow> i < length ms \<and> vacant (ms ! i)"
| "mf_legal (MF_move i j) ms \<longleftrightarrow> i < length ms \<and> j < length ms \<and> i \<noteq> j \<and> vacant (ms ! i)"
| "mf_legal (MF_assign i j) ms \<longleftrightarrow> i < length ms \<and> j < length ms"
| "mf_legal (MF_destroy i) ms \<longleftrightarrow> i < length ms"

fun mf_run ::
  "'w kernel \<Rightarrow> mf_op list \<Rightarrow> MappedFile list \<times> 'w os \<Rightarrow> MappedFile list \<times> 'w os" where
  "mf_run K [] st = st"
| "mf_run K (x # xs) st = mf_run K xs (mf_step K x st)"

fun mf_legal_run :: "'w kernel \<Rightarrow> mf_op list \<Rightarrow> MappedFile list \<times> 'w os \<Rightarrow> bool" where
  "mf_legal_run K [] st \<longleftrightarrow> True"
| "mf_legal_run K (x # xs) st \<longleftrightarrow> mf_legal x (fst st) \<and> mf_legal_run K xs (mf_step K x st)"

subsection \<open>What is mapped and open\<close>

text \<open>
  The regions that \<open>mmap\<close> returned (at an address that is not null) and those given to
  \<open>munmap\<close>; the descriptors that \<open>open\<close> returned. Those that are closed are \<open>closes\<close>.
\<close>

fun mapped_region :: "event \<Rightarrow> (int \<times> nat) list" where
  "mapped_region (E_call (Sys_mmap n pr fl fd) (Inr a)) = (if a = 0 \<or> a = -1 then [] else [(a, n)])"
| "mapped_region _ = []"

fun unmapped_region :: "event \<Rightarrow> (int \<times> nat) list" where
  "unmapped_region (E_call (Sys_munmap a n) r) = [(a, n)]"
| "unmapped_region _ = []"

fun opened_fd :: "event \<Rightarrow> int list" where
  "opened_fd (E_call (Sys_open p fl) (Inr fd)) = only_valid fd"
| "opened_fd _ = []"

definition region_of :: "MappedFile \<Rightarrow> (int \<times> nat) list" where
  "region_of m = (if mf_data m = 0 then [] else [(mf_data m, mf_size m)])"

definition all_of :: "('a \<Rightarrow> 'b list) \<Rightarrow> 'a list \<Rightarrow> 'b multiset" where
  "all_of f xs = mset (concat (map f xs))"

lemma all_of_simps [simp]:
  "all_of f [] = {#}" "all_of f (x # xs) = mset (f x) + all_of f xs"
  "all_of f (xs @ ys) = all_of f xs + all_of f ys"
  by (simp_all add: all_of_def)

lemma all_of_update:
  "i < length xs \<Longrightarrow> all_of f (xs[i := v]) + mset (f (xs ! i)) = all_of f xs + mset (f v)"
proof (induction xs arbitrary: i)
  case Nil
  then show ?case by simp
next
  case (Cons x xs)
  then show ?case by (cases i) auto
qed

text \<open>
  Every region mapped is owned by exactly one object or was unmapped once, and every
  descriptor opened is owned by exactly one object or was closed once.
\<close>

definition mf_accounted :: "MappedFile list \<times> 'w os \<Rightarrow> bool" where
  "mf_accounted st \<longleftrightarrow>
     all_of mapped_region (trace (snd st)) =
       all_of region_of (fst st) + all_of unmapped_region (trace (snd st)) \<and>
     all_of opened_fd (trace (snd st)) =
       all_of (\<lambda>m. only_valid (mf_fd m)) (fst st) + mset (closes (trace (snd st)))"

text \<open>What a run of calls maps, unmaps, opens and closes.\<close>

definition did ::
  "(int \<times> nat) multiset \<Rightarrow> (int \<times> nat) multiset \<Rightarrow> int multiset \<Rightarrow> int multiset \<Rightarrow>
    'w os \<Rightarrow> 'w os \<Rightarrow> bool" where
  "did mp un op cl s s' \<longleftrightarrow>
     all_of mapped_region (trace s') = all_of mapped_region (trace s) + mp \<and>
     all_of unmapped_region (trace s') = all_of unmapped_region (trace s) + un \<and>
     all_of opened_fd (trace s') = all_of opened_fd (trace s) + op \<and>
     mset (closes (trace s')) = mset (closes (trace s)) + cl"

lemma did_refl: "did {#} {#} {#} {#} s s"
  by (simp add: did_def)

lemma did_trans:
  "did mp un op cl s s1 \<Longrightarrow> did mp' un' op' cl' s1 s' \<Longrightarrow>
    did (mp + mp') (un + un') (op + op') (cl + cl') s s'"
  by (simp add: did_def)

lemma did_munmap: "call K (Sys_munmap a n) s = (r, s') \<Longrightarrow> did {#} {#(a, n)#} {#} {#} s s'"
  by (auto simp: did_def closes_def List.map_filter_def dest!: call_trace)

lemma did_open:
  "call K (Sys_open p fl) s = (fd, s') \<Longrightarrow> did {#} {#} (mset (only_valid fd)) {#} s s'"
  by (auto simp: did_def closes_def List.map_filter_def only_valid_def c_int_def
      dest!: call_trace split: sum.splits)

lemma did_fstat: "call_value K (Sys_fstat fd) s = (r, s') \<Longrightarrow> did {#} {#} {#} {#} s s'"
  by (cases r) (auto simp: did_def closes_def List.map_filter_def dest!: call_value_trace)

lemma did_mmap:
  "call K (Sys_mmap n pr fl fd) s = (a, s') \<Longrightarrow>
    did (if a = 0 \<or> a = -1 then {#} else {#(a, n)#}) {#} {#} {#} s s'"
  by (auto simp: did_def closes_def List.map_filter_def c_int_def dest!: call_trace split: sum.splits)

lemma did_close:
  "FileDescriptor_reset K fd v s = (fd', s') \<Longrightarrow> fd' = v \<and> did {#} {#} {#} (mset (only_valid fd)) s s'"
proof -
  assume r: "FileDescriptor_reset K fd v s = (fd', s')"
  obtain n s1 where c: "call K (Sys_close fd) s = (n, s1)" by fastforce
  from call_trace [OF c] obtain x where "trace s1 = trace s @ [E_call (Sys_close fd) x]" by blast
  with r c show ?thesis
    by (auto simp: FileDescriptor_reset_def did_def only_valid_def split: if_splits)
qed

lemma reset_did:
  assumes "MappedFile_reset K m s = (m', s')"
  shows "mf_data m' = 0 \<and> mf_fd m' = -1 \<and>
    did {#} (mset (region_of m)) {#} (mset (only_valid (mf_fd m))) s s'"
proof (cases "mf_data m = 0")
  case True
  then show ?thesis using assms
    by (auto simp: MappedFile_reset_def region_of_def Let_def split: prod.splits dest!: did_close)
next
  case False
  obtain r s1 where c: "call K (Sys_munmap (mf_data m) (mf_size m)) s = (r, s1)" by fastforce
  obtain fd s2 where f: "FileDescriptor_reset K (mf_fd m) (-1) s1 = (fd, s2)" by fastforce
  from False c f assms have "m' = m\<lparr>mf_data := 0, mf_size := 0, mf_fd := fd\<rparr>" "s' = s2"
    by (auto simp: MappedFile_reset_def)
  with did_trans [OF did_munmap [OF c], of "{#}" "{#}" "{#}" "mset (only_valid (mf_fd m))" s2]
    did_close [OF f] False show ?thesis by (simp add: region_of_def)
qed

lemma assign_fds:
  "fd < 0 \<Longrightarrow> FileDescriptor_assign K 0 (Suc 0) [fd, fd'] s = ([fd', -1], s)"
  by (simp add: FileDescriptor_assign_def FileDescriptor_reset_def)

lemma MappedFile_eta [simp]:
  "\<lparr>mf_data = mf_data m, mf_size = mf_size m, mf_fd = mf_fd m, mf_error = mf_error m\<rparr> = m"
  by (cases m) simp

lemma assign_did:
  assumes "i \<noteq> j" and "MappedFile_assign K i j ms s = (ms', s')"
  shows "ms' = ms[i := ms ! j, j := MappedFile_init] \<and>
    did {#} (mset (region_of (ms ! i))) {#} (mset (only_valid (mf_fd (ms ! i)))) s s'"
proof -
  obtain m s1 where r: "MappedFile_reset K (ms ! i) s = (m, s1)" by fastforce
  with reset_did have m: "mf_fd m = -1"
    "did {#} (mset (region_of (ms ! i))) {#} (mset (only_valid (mf_fd (ms ! i)))) s s1" by blast+
  then show ?thesis using assms r
    by (auto simp: MappedFile_assign_def assign_fds MappedFile_init_def Let_def)
qed

text \<open>What \<open>open\<close> returns owns what it opened and mapped; it is valid iff there is no error.\<close>

lemma open_did:
  assumes "MappedFile_open K p w sh s = (m, s')"
  shows "did (mset (region_of m)) {#} (mset (only_valid (mf_fd m))) {#} s s' \<and>
    (mf_error m \<noteq> [] \<longrightarrow> \<not> MappedFile_valid m) \<and>
    (mf_error m = [] \<longrightarrow> FileDescriptor_valid (mf_fd m) \<and> 0 < mf_size m)"
proof -
  obtain fd s1 where o: "call K (Sys_open p [if w then O_RDWR else O_RDONLY]) s = (fd, s1)"
    by fastforce
  note d1 = did_open [OF o]
  note unf = MappedFile_open_def FileDescriptor_open_def o MappedFile_init_def assign_fds
    FileDescriptor_destroy_def FileDescriptor_reset_def FileDescriptor_valid_def Let_def
  show ?thesis
  proof (cases "0 \<le> fd")
    case False
    then show ?thesis using assms d1 by (auto simp: unf region_of_def MappedFile_valid_def)
  next
    case fd: True
    obtain r n s2 where f: "call_value K (Sys_fstat fd) s1 = ((r, n), s2)" by (metis prod.exhaust)
    note d2 = did_trans [OF d1 did_fstat [OF f]]
    show ?thesis
    proof (cases "r = 0 \<and> 0 < n")
      case False
      then show ?thesis using assms d2 fd f
        by (auto simp: unf region_of_def MappedFile_valid_def split: if_splits)
    next
      case True
      obtain a s3 where mm: "call K (Sys_mmap (nat n)
          (if w then [PROT_READ, PROT_WRITE] else [PROT_READ])
          (if sh then MAP_SHARED else MAP_PRIVATE) fd) s2 = (a, s3)" by fastforce
      from did_trans [OF d2 did_mmap [OF mm]] True show ?thesis using assms fd f mm
        by (auto simp: unf region_of_def MappedFile_valid_def split: if_splits)
    qed
  qed
qed

subsection \<open>Every region and descriptor is accounted for\<close>

lemma accounted_update:
  assumes "mf_accounted (ms, s)" and "i < length ms"
    and "did mp un op cl s s'"
    and "mset (region_of (ms ! i)) + mp = mset (region_of m) + un"
    and "mset (only_valid (mf_fd (ms ! i))) + op = mset (only_valid (mf_fd m)) + cl"
  shows "mf_accounted (ms[i := m], s')"
proof -
  have swap: "A' + a + y = A + x + a" if "A' + a = A + b" "a + x = b + y"
    for A A' a b x y :: "'c multiset"
  proof -
    have "A' + a + y = A + (b + y)" by (simp only: that(1) add.assoc)
    also have "\<dots> = A + x + a" by (simp only: that(2) [symmetric] add.assoc add.commute [of a])
    finally show ?thesis .
  qed
  have "all_of region_of (ms[i := m]) + un = all_of region_of ms + mp"
    using swap [OF all_of_update [OF assms(2), of region_of m] assms(4)]
    by (simp add: ac_simps)
  moreover have "all_of (\<lambda>m. only_valid (mf_fd m)) (ms[i := m]) + cl =
      all_of (\<lambda>m. only_valid (mf_fd m)) ms + op"
    using swap [OF all_of_update [OF assms(2), of "\<lambda>m. only_valid (mf_fd m)" m] assms(5)]
    by (simp add: ac_simps)
  moreover have add: "M + x = N' + (U + y)" if "N' + y = N + x" "M = N + U"
    for M N N' U x y :: "'c multiset"
    by (metis that add.assoc add.commute)
  ultimately show ?thesis
    using assms(1,3) unfolding mf_accounted_def did_def fst_conv snd_conv
    by (auto intro!: add)
qed

lemma init_owns_nothing [simp]:
  "region_of MappedFile_init = []" "only_valid (mf_fd MappedFile_init) = []"
  by (simp_all add: MappedFile_init_def region_of_def only_valid_def)

lemma vacant_owns_nothing: "vacant m \<Longrightarrow> region_of m = [] \<and> only_valid (mf_fd m) = []"
  by (simp add: vacant_def region_of_def only_valid_def)

lemma all_of_moved:
  assumes "i < length ms" "j < length ms" "i \<noteq> j" "f (ms ! i) = []" "f z = []"
  shows "all_of f (ms[i := ms ! j, j := z]) = all_of f ms"
proof -
  from assms have "all_of f (ms[i := ms ! j]) = all_of f ms + mset (f (ms ! j))"
    using all_of_update [of i ms f "ms ! j"] by simp
  moreover have "all_of f (ms[i := ms ! j, j := z]) + mset (f (ms ! j)) = all_of f (ms[i := ms ! j])"
    using all_of_update [of j "ms[i := ms ! j]" f z] assms by simp
  ultimately show ?thesis by simp
qed

lemma accounted_moved:
  assumes "mf_accounted (ms, s)" and "i < length ms" "j < length ms" "i \<noteq> j"
    and "region_of (ms ! i) = []" "only_valid (mf_fd (ms ! i)) = []"
  shows "mf_accounted (ms[i := ms ! j, j := MappedFile_init], s)"
  using assms by (simp add: mf_accounted_def all_of_moved)

lemma assign_accounted:
  assumes "mf_accounted (ms, s)" and "i < length ms" "j < length ms"
  shows "mf_accounted (MappedFile_assign K i j ms s)"
proof (cases "i = j")
  case True
  with assms show ?thesis by (simp add: MappedFile_assign_def)
next
  case False
  obtain ms' s' where a: "MappedFile_assign K i j ms s = (ms', s')" by fastforce
  from assign_did [OF False a] have ms': "ms' = ms[i := ms ! j, j := MappedFile_init]"
    and d: "did {#} (mset (region_of (ms ! i))) {#} (mset (only_valid (mf_fd (ms ! i)))) s s'" by auto
  have "mf_accounted (ms[i := MappedFile_init], s')"
    by (rule accounted_update [OF assms(1,2) d]) simp_all
  from accounted_moved [OF this, of i j] assms False show ?thesis by (simp add: a ms')
qed

lemma mf_step_accounted:
  assumes "mf_accounted st" and "mf_legal x (fst st)"
  shows "mf_accounted (mf_step K x st)"
proof -
  obtain ms s where st: "st = (ms, s)" by fastforce
  show ?thesis
  proof (cases x)
    case (MF_open i p w sh)
    obtain m s' where o: "MappedFile_open K p w sh s = (m, s')" by fastforce
    from open_did [OF o] have "did (mset (region_of m)) {#} (mset (only_valid (mf_fd m))) {#} s s'" by blast
    from accounted_update [OF assms(1) [unfolded st] _ this, of i m] assms(2)
    show ?thesis by (simp add: MF_open st o vacant_owns_nothing)
  next
    case (MF_move i j)
    have "MappedFile_move m = (m, MappedFile_init)" for m
      by (simp add: MappedFile_move_def FileDescriptor_move_def MappedFile_init_def)
    with accounted_moved [OF assms(1) [unfolded st], of i j] assms(2)
    show ?thesis by (simp add: MF_move st vacant_owns_nothing)
  next
    case (MF_assign i j)
    with assign_accounted [OF assms(1) [unfolded st], of i j] assms(2) show ?thesis by (simp add: st)
  next
    case (MF_destroy i)
    obtain m s' where r: "MappedFile_reset K (ms ! i) s = (m, s')" by fastforce
    from reset_did [OF r]
    have "did {#} (mset (region_of (ms ! i))) {#} (mset (only_valid (mf_fd (ms ! i)))) s s'" by blast
    from accounted_update [OF assms(1) [unfolded st] _ this, of i MappedFile_init] assms(2)
    show ?thesis by (simp add: MF_destroy st MappedFile_destroy_def r)
  qed
qed

lemma mf_run_accounted:
  "mf_accounted st \<Longrightarrow> mf_legal_run K xs st \<Longrightarrow> mf_accounted (mf_run K xs st)"
  by (induction K xs st rule: mf_run.induct) (auto intro: mf_step_accounted)

definition mf_start :: "nat \<Rightarrow> 'w \<Rightarrow> MappedFile list \<times> 'w os" where
  "mf_start n w = (replicate n MappedFile_init, fresh_os w)"

lemma all_of_replicate [simp]: "f x = [] \<Longrightarrow> all_of f (replicate n x) = {#}"
  by (induction n) simp_all

lemma mf_start_accounted: "mf_accounted (mf_start n w)"
  by (simp add: mf_accounted_def mf_start_def fresh_os_def)

lemma all_vacant:
  "\<forall>m \<in> set ms. vacant m \<Longrightarrow>
    all_of region_of ms = {#} \<and> all_of (\<lambda>m. only_valid (mf_fd m)) ms = {#}"
  by (induction ms) (auto dest: vacant_owns_nothing)

text \<open>C17: Whatever a program does with its mapped files (open, move, assign, also to itself,
  destroy) and whatever the kernel answers, every region that was mapped is owned by exactly one object or
  has been unmapped exactly once, with the address and the length it was mapped with, and
  every descriptor that was opened is owned by exactly one object or has been closed exactly
  once. So when no object owns anything any more, nothing is leaked and nothing was released
  twice.
\<close>

theorem MappedFile_no_leak:
  assumes "mf_legal_run K xs (mf_start n w)"
  shows "mf_accounted (mf_run K xs (mf_start n w)) \<and>
    ((\<forall>m \<in> set (fst (mf_run K xs (mf_start n w))). vacant m) \<longrightarrow>
      all_of mapped_region (trace (snd (mf_run K xs (mf_start n w)))) =
        all_of unmapped_region (trace (snd (mf_run K xs (mf_start n w)))) \<and>
      all_of opened_fd (trace (snd (mf_run K xs (mf_start n w)))) =
        mset (closes (trace (snd (mf_run K xs (mf_start n w))))))"
proof -
  have "mf_accounted (mf_run K xs (mf_start n w))"
    by (rule mf_run_accounted [OF mf_start_accounted assms])
  then show ?thesis by (simp add: mf_accounted_def all_vacant)
qed

definition mf_sample :: "mf_op list" where
  "mf_sample = [MF_open 0 ''data'' True True, MF_move 1 0, MF_open 0 ''none'' False False,
     MF_assign 0 1, MF_destroy 0]"

definition mf_world :: "answer list" where
  "mf_world = [A_int 3, A_int 5000, A_int 4096, A_fail 2, A_int 0, A_int 0]"

theorem MappedFile_no_leak_witness:
  "mf_accounted (mf_run scripted mf_sample (mf_start 2 mf_world)) \<and>
    all_of mapped_region (trace (snd (mf_run scripted mf_sample (mf_start 2 mf_world)))) =
      all_of unmapped_region (trace (snd (mf_run scripted mf_sample (mf_start 2 mf_world)))) \<and>
    all_of opened_fd (trace (snd (mf_run scripted mf_sample (mf_start 2 mf_world)))) =
      mset (closes (trace (snd (mf_run scripted mf_sample (mf_start 2 mf_world)))))"
proof -
  have legal: "mf_legal_run scripted mf_sample (mf_start 2 mf_world)" by code_simp
  have "\<forall>m \<in> set (fst (mf_run scripted mf_sample (mf_start 2 mf_world))). vacant m" by code_simp
  with MappedFile_no_leak [OF legal] show ?thesis by (simp only: simp_thms)
qed

lemma mf_sample_trace:
  "trace (snd (mf_run scripted mf_sample (mf_start 2 mf_world))) =
    [E_call (Sys_open ''data'' [O_RDWR]) (Inr 3), E_call (Sys_fstat 3) (Inr 5000),
     E_call (Sys_mmap 5000 [PROT_READ, PROT_WRITE] MAP_SHARED 3) (Inr 4096),
     E_call (Sys_open ''none'' [O_RDONLY]) (Inl 2),
     E_call (Sys_munmap 4096 5000) (Inr 0), E_call (Sys_close 3) (Inr 0)]"
  by code_simp

end
