(* ===== verification/Procmon_Demos.thy ===== *)
theory Procmon_Demos
  imports Procmon_Mapped Procmon_Process Procmon_System Procmon_Format
begin

section \<open>procmon: the demonstration programs\<close>

text \<open>
  Models \<open>procmon/demo/mmap_demo.cpp\<close> and \<open>procmon/demo/pagecache_demo.cpp\<close>. An output file
  stream opens its file, writes what it is given with a loop of \<open>write\<close> calls, ignores
  everything once it has failed, and closes the file when it is destroyed. A read through a
  mapping is a call, since the kernel answers it with a page; a load that it refuses (the file
  was cut in the meantime) is undefined behaviour. As elsewhere \<open>None\<close> is "does not return",
  and an exception or undefined behaviour ends the program.
\<close>

definition seq ::
  "('a cpp \<times> 'w os) option \<Rightarrow> ('a \<Rightarrow> 'w os \<Rightarrow> ('b cpp \<times> 'w os) option) \<Rightarrow> ('b cpp \<times> 'w os) option"
where
  "seq m f = do {
     (r, s) \<leftarrow> m;
     (case r of Inl e \<Rightarrow> Some (Inl e, s) | Inr x \<Rightarrow> f x s)
   }"

subsection \<open>Output files\<close>

text \<open>The loop of \<open>std::filebuf\<close>; the result is whether everything was written.\<close>

partial_function (option) write_fully ::
  "'w kernel \<Rightarrow> int \<Rightarrow> string \<Rightarrow> 'w os \<Rightarrow> (bool \<times> 'w os) option" where
  "write_fully K fd data s =
     (if data = [] then Some (True, s)
      else let (n, s) = sys_write K fd data s in
        if n < 0 then
          if errno s = EINTR then write_fully K fd data s else Some (False, s)
        else write_fully K fd (drop (nat n) data) s)"

fun write_chunks ::
  "'w kernel \<Rightarrow> int \<Rightarrow> string \<Rightarrow> nat \<Rightarrow> bool \<Rightarrow> 'w os \<Rightarrow> (bool \<times> 'w os) option" where
  "write_chunks K fd chunk 0 good s = Some (good, s)"
| "write_chunks K fd chunk (Suc n) good s =
     do {
       (good, s) \<leftarrow> (if good then write_fully K fd chunk s else Some (good, s));
       write_chunks K fd chunk n good s
     }"

text \<open>Both programs have this function, with \<open>'A'\<close> and with \<open>'B'\<close>.\<close>

definition create_file ::
  "'w kernel \<Rightarrow> char \<Rightarrow> string \<Rightarrow> 64 word \<Rightarrow> 'w os \<Rightarrow> 'w os option" where
  "create_file K c file megabytes s =
     (let (fd, s) = call K (Sys_open file [O_WRONLY, O_CREAT, O_TRUNC]) s in
      do {
        (_, s) \<leftarrow> write_chunks K fd (replicate (1024 * 1024) c) (unat megabytes) (0 \<le> fd) s;
        Some (if 0 \<le> fd then snd (call K (Sys_close fd) s) else s)
      })"

definition megabytes_of :: "string list \<Rightarrow> 64 word" where
  "megabytes_of args = (case args of [] \<Rightarrow> 64 | a # _ \<Rightarrow> strtoull 10 a)"

subsection \<open>mmap_demo\<close>

definition mmap_report ::
  "'w kernel \<Rightarrow> int \<Rightarrow> string \<Rightarrow> int \<Rightarrow> 'w os \<Rightarrow> (unit cpp \<times> 'w os) option" where
  "mmap_report K page_size label p s =
     seq (read_process K page_size p s) (\<lambda>info s.
       (case info of
          None \<Rightarrow> Some (Inr (), s)
        | Some i \<Rightarrow> Some (Inr (), put_out
            (''  '' @ label @ newline @
             ''    VSZ='' @ human_bytes (vsize_bytes i) @ ''  RSS='' @ human_bytes (rss_bytes i) @
             ''  minflt='' @ to_string (minor_faults i) @
             ''  majflt='' @ to_string (major_faults i) @ newline) s)))"

text \<open>The loop that reads one byte of each page; \<open>offset\<close> is a \<open>size_t\<close>, so it wraps.\<close>

partial_function (option) touch_pages ::
  "'w kernel \<Rightarrow> MappedFile \<Rightarrow> nat \<Rightarrow> nat \<Rightarrow> 64 word \<Rightarrow> 'w os \<Rightarrow> (64 word cpp \<times> 'w os) option" where
  "touch_pages K m ps off acc s =
     (if off < mf_size m then
        let (b, s) = call K (Sys_load (mf_data m + int off)) s in
        if b < 0 then Some (Inl Undefined_Behaviour, s)
        else touch_pages K m ps ((off + ps) mod 2 ^ 64) (acc + word_of_int b) s
      else Some (Inr acc, s))"

text \<open>
  The part of \<open>main\<close> after the mapping was made. \<open>std::cin.get()\<close> fills the buffer of the
  standard input, whose size the C library chooses.
\<close>

definition mmap_explore ::
  "'w kernel \<Rightarrow> int \<Rightarrow> nat \<Rightarrow> int \<Rightarrow> MappedFile \<Rightarrow> 'w os \<Rightarrow> (int cpp \<times> 'w os) option" where
  "mmap_explore K page_size stdin_size p mapping s =
     (let s = put_out (newline @ ''  Mapped '' @ human_bytes (int (mf_size mapping)) @ '' at 0x'' @
            hex_address (word_of_int (mf_data mapping)) @ newline) s in
      seq (mmap_report K page_size ''After mmap, before touching anything'' p s) (\<lambda>_ s.
      let s = put_out (''    -> VSZ grew, RSS barely moved: no physical pages are attached yet.'' @
            newline) s;
          ps = nat (page_size mod 2 ^ 64) in
      seq (touch_pages K mapping ps 0 0 s) (\<lambda>_ s.
      seq (mmap_report K page_size ''After touching every page'' p s) (\<lambda>_ s.
      let s = put_out (
            ''    -> RSS grew by the size of the mapping as faults attached the pages.'' @ newline @
            ''       Note minflt rose by far less than the page count: on each fault the'' @ newline @
            ''       kernel maps a batch of surrounding pages (fault-around).'' @ newline) s;
          s = put_out (
            newline @ ''  Now try this from another shell:'' @ newline @
            ''    ./build/procmon maps '' @ to_string p @ '' | grep mmap_demo'' @ newline @
            ''    ./build/procmon show '' @ to_string p @ newline @ newline @
            ''  Press Enter to unmap and exit...'' @ newline) s;
          (_, s) = sys_read K 0 stdin_size s in
      Some (Inr 0, MappedFile_destroy K mapping s)))))"

definition mmap_main ::
  "'w kernel \<Rightarrow> int \<Rightarrow> nat \<Rightarrow> string list \<Rightarrow> 'w os \<Rightarrow> (int cpp \<times> 'w os) option" where
  "mmap_main K page_size stdin_size args s =
     (let megabytes = megabytes_of args; file = ''/tmp/mmap_demo.bin'';
          (p, s) = call K Sys_getpid s;
          s = put_out (''mmap demo (pid '' @ to_string p @ '')'' @ newline @ newline) s in
      seq (mmap_report K page_size ''Start'' p s) (\<lambda>_ s.
      let s = put_out (newline @ ''  Creating a '' @ digits 10 (unat megabytes) @ '' MB file: '' @
            file @ newline) s in
      do {
        s \<leftarrow> create_file K CHR ''A'' file megabytes s;
        seq (mmap_report K page_size ''After writing the file'' p s) (\<lambda>_ s.
        let (mapping, s) = MappedFile_open K file False True s in
        if \<not> MappedFile_valid mapping then
          Some (Inr 1, MappedFile_destroy K mapping
            (put_err (''mmap failed: '' @ mf_error mapping @ newline) s))
        else mmap_explore K page_size stdin_size p mapping s)
      }))"

subsection \<open>pagecache_demo\<close>

definition cached_percent :: "int \<Rightarrow> nat \<Rightarrow> rat" where
  "cached_percent resident pages =
     (if 0 < pages then
        to_double (to_double (100 * to_double (of_int resident)) / to_double (of_nat pages))
      else 0)"

definition cache_report ::
  "'w kernel \<Rightarrow> int \<Rightarrow> string \<Rightarrow> MappedFile \<Rightarrow> 'w os \<Rightarrow> (unit cpp \<times> 'w os) option" where
  "cache_report K page_size label mapping s =
     seq (Some (resident_pages K page_size mapping s)) (\<lambda>resident s.
     seq (Some (page_count page_size mapping, s)) (\<lambda>pages s.
     let s = put_out (''  '' @ label @ newline) s in
     if resident < 0 then Some (Inr (), put_out (''    mincore failed'' @ newline) s)
     else let buf = take 31 ('' ('' @ format_fixed 1 (cached_percent resident pages) @ ''%)'') in
     seq (Some (ll_checked (resident * page_size), s)) (\<lambda>bytes s.
     let s = put_out (''    '' @ to_string resident @ '' / '' @ digits 10 pages @
           '' pages cached'' @ buf @ ''  = '' @ human_bytes bytes @ newline) s in
     do {
       (mem, s) \<leftarrow> read_meminfo K s;
       (case mem of
          None \<Rightarrow> Some (Inr (), s)
        | Some i \<Rightarrow>
            seq (Some (human_kb (cached i), s)) (\<lambda>kb s.
              Some (Inr (), put_out (''    system Cached: '' @ kb @ newline) s)))
     })))"

definition drop_from_cache :: "'w kernel \<Rightarrow> string \<Rightarrow> 'w os \<Rightarrow> 'w os" where
  "drop_from_cache K file s =
     (let (fd, s) = FileDescriptor_open K file [O_RDONLY] s in
      if \<not> FileDescriptor_valid fd then FileDescriptor_destroy K fd s
      else let (_, s) = call K (Sys_fadvise fd POSIX_FADV_DONTNEED) s in
        FileDescriptor_destroy K fd s)"

text \<open>The loop that reads the file end to end into a buffer of a megabyte.\<close>

partial_function (option) read_through :: "'w kernel \<Rightarrow> int \<Rightarrow> 'w os \<Rightarrow> 'w os option" where
  "read_through K fd s =
     (let ((n, buffer), s) = sys_read K fd (2 ^ 20) s in
      if 0 < n then read_through K fd s else Some s)"

definition takeaway :: string where
  "takeaway =
     newline @ ''  Takeaway: file contents live in RAM as \"Cached\". The first read hits'' @ newline @
     ''  the disk (a major fault, real I/O); later reads are served from the cache.'' @ newline @
     ''  Under memory pressure the kernel reclaims those pages.'' @ newline @ newline @
     ''  Note that writing also fills the cache - which is why a benchmark that'' @ newline @
     ''  writes a file and immediately reads it back never measures the disk.'' @ newline"

text \<open>The second block of \<open>main\<close>, and what follows it.\<close>

definition pagecache_reread ::
  "'w kernel \<Rightarrow> int \<Rightarrow> string \<Rightarrow> 'w os \<Rightarrow> (int cpp \<times> 'w os) option" where
  "pagecache_reread K page_size file s =
     (let (mapping, s) = MappedFile_open K file False True s in
      seq (cache_report K page_size ''After posix_fadvise(DONTNEED)'' mapping s) (\<lambda>_ s.
      let (fd, s) = FileDescriptor_open K file [O_RDONLY] s in
      do {
        s \<leftarrow> read_through K fd s;
        seq (cache_report K page_size ''After reading it back with read()'' mapping s) (\<lambda>_ s.
        let s = MappedFile_destroy K mapping (FileDescriptor_destroy K fd s);
            s = put_out takeaway s;
            (_, s) = call K (Sys_unlink file) s in
        Some (Inr 0, s))
      }))"

definition pagecache_main ::
  "'w kernel \<Rightarrow> int \<Rightarrow> string list \<Rightarrow> 'w os \<Rightarrow> (int cpp \<times> 'w os) option" where
  "pagecache_main K page_size args s =
     (let megabytes = megabytes_of args; file = ''/tmp/pagecache_demo.bin'';
          s = put_out (''Page cache demo ('' @ digits 10 (unat megabytes) @ '' MB)'' @
            newline @ newline) s in
      do {
        s \<leftarrow> create_file K CHR ''B'' file megabytes s;
        (let (_, s) = call K Sys_sync s; (mapping, s) = MappedFile_open K file False True s in
         if \<not> MappedFile_valid mapping then
           Some (Inr 1, MappedFile_destroy K mapping
             (put_err (''mmap failed: '' @ mf_error mapping @ newline) s))
         else
         seq (cache_report K page_size
             ''Right after writing (the write itself filled the cache)'' mapping s) (\<lambda>_ s.
         pagecache_reread K page_size file
           (drop_from_cache K file (MappedFile_destroy K mapping s))))
      })"

subsection \<open>What is written to the file\<close>

fun accepted_bytes :: "event \<Rightarrow> string" where
  "accepted_bytes (E_write fd d (Inr n)) = take n d"
| "accepted_bytes _ = []"

definition file_bytes :: "event list \<Rightarrow> string" where
  "file_bytes evs = concat (map accepted_bytes evs)"

lemma file_bytes_simps [simp]:
  "file_bytes [] = []" "file_bytes (ev # evs) = accepted_bytes ev @ file_bytes evs"
  "file_bytes (evs @ evs') = file_bytes evs @ file_bytes evs'"
  by (simp_all add: file_bytes_def)

lemma write_fully_result:
  assumes "write_fully K fd data s = Some (ok, s')"
  shows "\<exists>evs. extends evs s s' \<and> prefix (file_bytes evs) data \<and> (ok \<longrightarrow> file_bytes evs = data)"
proof -
  let ?P = "\<lambda>data s (ok, s'). \<exists>evs. extends evs s s' \<and> prefix (file_bytes evs) data \<and>
    (ok \<longrightarrow> file_bytes evs = data)"
  have "?P data s (ok, s')"
  proof (rule write_fully.raw_induct [where P = "\<lambda>K fd. ?P", OF _ assms], goal_cases)
    case (1 f K fd data s r)
    obtain n s1 where w: "sys_write K fd data s = (n, s1)" by (metis surj_pair)
    from sys_write_extends [OF w] obtain x where x: "extends [E_write fd data x] s s1"
      "n = (case x of Inl _ \<Rightarrow> -1 | Inr k \<Rightarrow> int k)" by blast
    have rec: "?P data s r" if "f K fd (drop (length (accepted_bytes (E_write fd data x))) data) s1 = Some r"
    proof -
      from "1"(1) [OF that] obtain evs where evs: "extends evs s1 (snd r)"
        "prefix (file_bytes evs) (drop (length (accepted_bytes (E_write fd data x))) data)"
        "fst r \<longrightarrow> file_bytes evs = drop (length (accepted_bytes (E_write fd data x))) data"
        by (auto simp: case_prod_beta)
      have "accepted_bytes (E_write fd data x) @
          drop (length (accepted_bytes (E_write fd data x))) data = data"
        by (cases x) (auto simp: min_def)
      with evs(2,3) extends_trans [OF x(1) evs(1)] show ?thesis
        unfolding case_prod_beta
        by (intro exI [of _ "E_write fd data x # evs"])
           (metis append_Cons append_Nil file_bytes_simps(2) same_prefix_prefix)
    qed
    show ?case
    proof (cases "data = []")
      case True
      with "1"(2) show ?thesis by (auto intro!: exI [of _ "[]"])
    next
      case more: False
      show ?thesis
      proof (cases x)
        case (Inl e)
        show ?thesis
        proof (cases "errno s1 = EINTR")
          case True
          with Inl more "1"(2) w x show ?thesis by (intro rec) simp
        next
          case False
          with Inl more "1"(2) w x have "r = (False, s1)" by simp
          with Inl x show ?thesis by (auto intro!: exI [of _ "[E_write fd data x]"])
        qed
      next
        case (Inr k)
        have "drop (length (take k data)) data = drop k data"
          by (cases "length data \<le> k") simp_all
        with Inr more "1"(2) w x show ?thesis by (intro rec) (simp del: length_take)
      qed
    qed
  qed
  then show ?thesis by simp
qed

lemma write_chunks_result:
  assumes "write_chunks K fd chunk n good s = Some (ok, s')"
  shows "\<exists>evs. extends evs s s' \<and> prefix (file_bytes evs) (concat (replicate n chunk)) \<and>
    (ok \<longrightarrow> file_bytes evs = concat (replicate n chunk))"
  using assms
proof (induction n arbitrary: good s)
  case 0
  then show ?case by (auto intro!: exI [of _ "[]"])
next
  case (Suc n)
  from Suc.prems obtain g s1 where
    w: "(if good then write_fully K fd chunk s else Some (good, s)) = Some (g, s1)"
    and rest: "write_chunks K fd chunk n g s1 = Some (ok, s')"
    by (auto simp: bind_eq_Some_conv)
  show ?case
  proof (cases g)
    case True
    with w have "write_fully K fd chunk s = Some (True, s1)" by (auto split: if_splits)
    from write_fully_result [OF this] obtain evs where 1: "extends evs s s1" "file_bytes evs = chunk"
      by blast
    from Suc.IH [OF rest] obtain evs' where 2: "extends evs' s1 s'"
      "prefix (file_bytes evs') (concat (replicate n chunk))"
      "ok \<longrightarrow> file_bytes evs' = concat (replicate n chunk)" by blast
    from extends_trans [OF 1(1) 2(1)] 1(2) 2(2,3) show ?thesis
      by (intro exI [of _ "evs @ evs'"]) simp
  next
    case False
    have still: "write_chunks K fd chunk n False s1 = Some (False, s1)" for n s1
      by (induction n) auto
    have "\<exists>evs. extends evs s s1 \<and> prefix (file_bytes evs) chunk"
    proof (cases good)
      case True
      with w write_fully_result [of K fd chunk s g s1] show ?thesis by auto
    next
      case False
      with w show ?thesis by (auto intro: exI [of _ "[]"])
    qed
    with rest False still [of n s1] show ?thesis by (auto intro: prefix_order.trans)
  qed
qed

subsection \<open>Which pages are touched\<close>

fun loaded :: "event \<Rightarrow> int list" where
  "loaded (E_call (Sys_load a) r) = [a]"
| "loaded _ = []"

lemma page_below: "0 < (ps::nat) \<Longrightarrow> k * ps < n \<longleftrightarrow> k < (n + ps - 1) div ps"
proof -
  assume ps: "0 < ps"
  then have "k < (n + ps - 1) div ps \<longleftrightarrow> Suc k * ps \<le> n + ps - 1"
    by (metis Suc_le_eq less_eq_div_iff_mult_less_eq)
  with ps show ?thesis by auto
qed

text \<open>
  The loop ends, and unless a load fails it has read the first byte of each page of the mapping
  in order, once; when a load fails it has read those before it.
\<close>

lemma touch_pages_run:
  assumes "0 < ps" and "mf_size m + ps \<le> 2 ^ 64" and "k * ps \<le> mf_size m + ps"
  shows "\<exists>r s' evs j. touch_pages K m ps (k * ps) acc s = Some (r, s') \<and> extends evs s s' \<and>
    concat (map loaded evs) = map (\<lambda>i. mf_data m + int (i * ps)) [k..<j] \<and>
    j \<le> max k ((mf_size m + ps - 1) div ps) \<and>
    (\<not> isl r \<longrightarrow> j = max k ((mf_size m + ps - 1) div ps))"
  using assms(3)
proof (induction "mf_size m + ps - k * ps" arbitrary: k acc s rule: less_induct)
  case less
  let ?N = "(mf_size m + ps - 1) div ps"
  show ?case
  proof (cases "k * ps < mf_size m")
    case False
    then have "\<not> k < ?N" using page_below [OF assms(1)] by simp
    with False show ?thesis
      by (intro exI [of _ "Inr acc"] exI [of _ s] exI [of _ "[]"] exI [of _ k])
         (simp add: touch_pages.simps max_def)
  next
    case True
    then have N: "k < ?N" using page_below [OF assms(1)] by simp
    obtain b s1 where b: "call K (Sys_load (mf_data m + int (k * ps))) s = (b, s1)"
      by (metis surj_pair)
    from call_extends [OF b] obtain x where
      x: "extends [E_call (Sys_load (mf_data m + int (k * ps))) x] s s1" by blast
    show ?thesis
    proof (cases "b < 0")
      case fail: True
      with True b x N show ?thesis
        by (intro exI [of _ "Inl Undefined_Behaviour"] exI [of _ s1]
            exI [of _ "[E_call (Sys_load (mf_data m + int (k * ps))) x]"] exI [of _ "Suc k"])
           (simp add: touch_pages.simps)
    next
      case ok: False
      have next_off: "(k * ps + ps) mod 2 ^ 64 = Suc k * ps"
        using True assms(2) by (simp add: add.commute)
      have "mf_size m + ps - Suc k * ps < mf_size m + ps - k * ps" "Suc k * ps \<le> mf_size m + ps"
        using True assms(1) by auto
      from less.hyps [OF this, of "acc + word_of_int b" s1] obtain r s' evs j where IH:
        "touch_pages K m ps (Suc k * ps) (acc + word_of_int b) s1 = Some (r, s')" "extends evs s1 s'"
        "concat (map loaded evs) = map (\<lambda>i. mf_data m + int (i * ps)) [Suc k..<j]"
        "j \<le> max (Suc k) ?N" "\<not> isl r \<longrightarrow> j = max (Suc k) ?N" by blast
      have "touch_pages K m ps (k * ps) acc s = Some (r, s')"
        by (subst touch_pages.simps) (use True ok b IH(1) next_off in simp)
      moreover note extends_trans [OF x IH(2)]
      moreover have "concat (map loaded ([E_call (Sys_load (mf_data m + int (k * ps))) x] @ evs)) =
          map (\<lambda>i. mf_data m + int (i * ps)) [k..<max (Suc k) j]"
        using IH(3) by (cases "Suc k \<le> j") (simp_all add: upt_conv_Cons max_def not_less_eq_eq)
      moreover have "max (Suc k) j \<le> max k ?N" "\<not> isl r \<longrightarrow> max (Suc k) j = max k ?N"
        using IH(4,5) N by simp_all
      ultimately show ?thesis by blast
    qed
  qed
qed

end
