(* ===== verification/Procmon_Resources.thy ===== *)
theory Procmon_Resources
  imports Procmon_Main Procmon_Demos
begin

section \<open>procmon: what whole runs leave behind\<close>

text \<open>
  The programs of procmon as a whole: what they ask of the kernel, and that they give back every
  descriptor and every mapping. \<open>tidy P\<close> relates the states before and after a part of a run in
  which all calls satisfy \<open>P\<close> and nothing stays open or mapped. It is reflexive and transitive,
  so it is proved for each function once, in the order of the calls.
\<close>

definition tidy :: "(event \<Rightarrow> bool) \<Rightarrow> 'w os \<Rightarrow> 'w os \<Rightarrow> bool" where
  "tidy P s s' \<longleftrightarrow> (\<exists>evs. trace s' = trace s @ evs \<and> list_all P evs \<and>
     all_of mapped_region evs = all_of unmapped_region evs \<and>
     all_of opened_fd evs = mset (closes evs))"

lemma tidy_refl [simp]: "tidy P s s"
  by (auto simp: tidy_def intro: exI [of _ "[]"])

lemma tidy_trans [trans]: "tidy P s s1 \<Longrightarrow> tidy P s1 s2 \<Longrightarrow> tidy P s s2"
  unfolding tidy_def
proof (elim exE conjE, goal_cases)
  case (1 evs evs')
  then show ?case by (intro exI [of _ "evs @ evs'"]) simp
qed

lemma tidy_mono: "tidy P s s' \<Longrightarrow> (\<And>ev. P ev \<Longrightarrow> Q ev) \<Longrightarrow> tidy Q s s'"
  unfolding tidy_def by (meson list.pred_mono_strong)

lemma tidy_same: "trace s1 = trace s \<Longrightarrow> trace s2 = trace s' \<Longrightarrow> tidy P s1 s2 = tidy P s s'"
  by (simp add: tidy_def)

lemma tidy_put [simp]:
  "tidy P s (put_out x s') = tidy P s s'" "tidy P s (put_err x s') = tidy P s s'"
  "tidy P (put_out x s) s' = tidy P s s'" "tidy P (put_err x s) s' = tidy P s s'"
  by (simp_all add: tidy_def)

text \<open>A call that neither opens nor closes.\<close>

fun neutral :: "syscall \<Rightarrow> bool" where
  "neutral (Sys_open p fl) \<longleftrightarrow> False"
| "neutral (Sys_close fd) \<longleftrightarrow> False"
| "neutral (Sys_mmap n pr fl fd) \<longleftrightarrow> False"
| "neutral (Sys_munmap a n) \<longleftrightarrow> False"
| "neutral c \<longleftrightarrow> True"

lemma neutral_event:
  "neutral c \<Longrightarrow> mapped_region (E_call c r) = [] \<and> unmapped_region (E_call c r) = [] \<and>
    Procmon_Mapped.opened_fd (E_call c r) = [] \<and> closes [E_call c r] = []"
  by (cases c) (auto simp: closes_def List.map_filter_def)

lemma call_tidy: "call K c s = (n, s') \<Longrightarrow> neutral c \<Longrightarrow> (\<And>r. P (E_call c r)) \<Longrightarrow> tidy P s s'"
  by (drule call_trace) (auto simp: tidy_def neutral_event)

lemma sys_read_tidy: "sys_read K fd n s = (r, s') \<Longrightarrow> (\<And>r. P (E_read fd n r)) \<Longrightarrow> tidy P s s'"
  by (cases r) (auto simp: tidy_def closes_def List.map_filter_def dest!: sys_read_trace)

lemma sys_listdir_tidy: "sys_listdir K p s = (ns, s') \<Longrightarrow> (\<And>r. P (E_listdir p r)) \<Longrightarrow> tidy P s s'"
  by (auto simp: sys_listdir_def finish_def tidy_def closes_def List.map_filter_def
      split: prod.splits)

subsection \<open>procmon only observes\<close>

text \<open>
  The calls of a program that only observes: it opens files under /proc for reading, reads and
  closes descriptors, lists directories under /proc, and asks for its own process id.
\<close>

fun observes :: "event \<Rightarrow> bool" where
  "observes (E_call (Sys_open p fl) r) \<longleftrightarrow> prefix ''/proc/'' p \<and> fl = [O_RDONLY]"
| "observes (E_call (Sys_close fd) r) \<longleftrightarrow> True"
| "observes (E_call Sys_getpid r) \<longleftrightarrow> True"
| "observes (E_read fd n r) \<longleftrightarrow> True"
| "observes (E_listdir p ns) \<longleftrightarrow> p = ''/proc'' \<or> prefix ''/proc/'' p"
| "observes ev \<longleftrightarrow> False"

lemma read_file_tidy:
  assumes "Procmon_Util.read_file K p s = Some (r, s')" and "prefix ''/proc/'' p"
  shows "tidy observes s s'"
proof -
  obtain fd s1 where o: "call K (Sys_open p [O_RDONLY]) s = (fd, s1)" by fastforce
  from call_trace [OF o] obtain x where
    x: "trace s1 = trace s @ [E_call (Sys_open p [O_RDONLY]) x]" "fd = c_int x" by blast
  have open_fd: "Procmon_Mapped.opened_fd (E_call (Sys_open p [O_RDONLY]) x) = only_valid fd"
    using x(2) by (cases x) (simp_all add: only_valid_def)
  show ?thesis
  proof (cases "0 \<le> fd")
    case False
    with assms(1) o have "s' = s1"
      by (simp add: Procmon_Util.read_file_def FileDescriptor_open_def FileDescriptor_valid_def
          FileDescriptor_destroy_def FileDescriptor_reset_def)
    with x(1) open_fd False assms(2) show ?thesis
      by (auto simp: tidy_def closes_def List.map_filter_def only_valid_def)
  next
    case True
    with assms(1) o obtain n tx s2 where rd: "read_loop K fd [] s1 = Some ((n, tx), s2)"
      and s': "s' = FileDescriptor_destroy K fd s2"
      by (auto simp: Procmon_Util.read_file_def FileDescriptor_open_def FileDescriptor_valid_def
          bind_eq_Some_conv)
    from read_loop_only_reads [OF rd] obtain evs where
      evs: "trace s2 = trace s1 @ evs" "\<forall>ev \<in> set evs. \<exists>q. ev = E_read fd 4096 q" by auto
    have quiet: "list_all observes evs \<and> all_of mapped_region evs = {#} \<and>
        all_of unmapped_region evs = {#} \<and> all_of Procmon_Mapped.opened_fd evs = {#} \<and> closes evs = []"
      using evs(2) by (induction evs) (auto simp: closes_def List.map_filter_def)
    obtain n' s3 where c: "call K (Sys_close fd) s2 = (n', s3)" by fastforce
    from call_trace [OF c] obtain y where y: "trace s3 = trace s2 @ [E_call (Sys_close fd) y]" by blast
    from s' c True have "s' = s3"
      by (simp add: FileDescriptor_destroy_def FileDescriptor_reset_def)
    with x(1) open_fd evs(1) y quiet True assms(2) show ?thesis
      unfolding tidy_def
      by (intro exI [of _ "[E_call (Sys_open p [O_RDONLY]) x] @ evs @ [E_call (Sys_close fd) y]"])
         (auto simp: only_valid_def closes_def List.map_filter_def)
  qed
qed

lemma read_lines_tidy:
  "read_lines K p s = Some (r, s') \<Longrightarrow> prefix ''/proc/'' p \<Longrightarrow> tidy observes s s'"
  by (auto simp: read_lines_def bind_eq_Some_conv dest: read_file_tidy split: option.splits)

lemma parse_kv_tidy:
  "parse_kv K p s = Some (r, s') \<Longrightarrow> prefix ''/proc/'' p \<Longrightarrow> tidy observes s s'"
  by (auto simp: parse_kv_def bind_eq_Some_conv dest: read_lines_tidy)

lemma parse_stat_tidy:
  "parse_stat K p s = Some (r, s') \<Longrightarrow> prefix ''/proc/'' p \<Longrightarrow> tidy observes s s'"
  by (auto simp: parse_stat_def bind_eq_Some_conv dest: read_file_tidy)

lemma read_process_tidy:
  assumes "read_process K page_size p s = Some (r, s')"
  shows "tidy observes s s'"
proof -
  let ?base = "''/proc/'' @ to_string p"
  from assms obtain f s1 where st: "parse_stat K (?base @ ''/stat'') s = Some (f, s1)"
    by (auto simp: read_process_def bind_eq_Some_conv Let_def)
  then have q1: "tidy observes s s1" by (rule parse_stat_tidy) simp
  show ?thesis
  proof (cases "\<exists>fs info. f = Some fs \<and> process_of_stat page_size p fs = Inr info")
    case False
    with assms st have "s' = s1"
      by (auto simp: read_process_def Let_def split: option.split_asm sum.split_asm)
    with q1 show ?thesis by simp
  next
    case True
    with assms st obtain kv s2 cl where kv: "parse_kv K (?base @ ''/status'') s1 = Some (kv, s2)"
      and cl: "Procmon_Util.read_file K (?base @ ''/cmdline'') s2 = Some (cl, s')"
      by (auto simp: read_process_def bind_eq_Some_conv Let_def)
    note q1
    also have "tidy observes s1 s2" using kv by (rule parse_kv_tidy) simp
    also have "tidy observes s2 s'" using cl by (rule read_file_tidy) simp
    finally show ?thesis .
  qed
qed

lemma list_pids_tidy: "list_pids K s = (r, s') \<Longrightarrow> tidy observes s s'"
  by (auto simp: list_pids_def intro: sys_listdir_tidy split: prod.splits)

lemma read_maps_tidy: "read_maps K p s = Some (r, s') \<Longrightarrow> tidy observes s s'"
  by (auto simp: read_maps_def bind_eq_Some_conv dest!: read_lines_tidy)

lemma read_thread_tidy:
  assumes "read_thread K dir name s = Some (r, s')" and "prefix ''/proc/'' dir"
  shows "tidy observes s s'"
proof (cases "is_number name")
  case False
  with assms(1) show ?thesis by (simp add: read_thread_def)
next
  case num: True
  from assms(2) obtain d where dir: "dir = ''/proc/'' @ d" by (auto simp: prefix_def)
  from assms(1) num obtain f s1 where st: "parse_stat K (dir @ ''/'' @ name @ ''/stat'') s = Some (f, s1)"
    by (auto simp: read_thread_def bind_eq_Some_conv)
  then have q1: "tidy observes s s1" by (rule parse_stat_tidy) (simp add: dir)
  show ?thesis
  proof (cases "\<exists>fs n. f = Some fs \<and> stoi name = Inr n \<and> \<not> views_dangle fs")
    case False
    with assms(1) num st have "s' = s1"
      by (auto simp: read_thread_def split: option.split_asm sum.split_asm)
    with q1 show ?thesis by simp
  next
    case True
    with assms(1) num st obtain kv where
      kv: "parse_kv K (dir @ ''/'' @ name @ ''/status'') s1 = Some (kv, s')"
      by (auto simp: read_thread_def bind_eq_Some_conv)
    note q1
    also have "tidy observes s1 s'" using kv by (rule parse_kv_tidy) (simp add: dir)
    finally show ?thesis .
  qed
qed

lemma read_threads_loop_tidy:
  "read_threads_loop K dir names ts s = Some (r, s') \<Longrightarrow> prefix ''/proc/'' dir \<Longrightarrow> tidy observes s s'"
proof (induction K dir names ts s rule: read_threads_loop.induct)
  case (2 K dir name ns ts s)
  from "2.prems"(1) obtain t s1 where t: "read_thread K dir name s = Some (t, s1)"
    by (auto simp: bind_eq_Some_conv)
  note q1 = read_thread_tidy [OF t "2.prems"(2)]
  consider e where "t = Inl e" | "t = Inr None" | th where "t = Inr (Some th)"
    by (metis sum.exhaust option.exhaust)
  then show ?case
    using "2.prems" t q1 "2.IH"(1) [OF t refl] "2.IH"(2) [OF t refl]
    by cases (auto intro: tidy_trans)
qed simp

lemma read_threads_tidy:
  assumes "read_threads K p s = Some (r, s')"
  shows "tidy observes s s'"
proof -
  let ?dir = "''/proc/'' @ to_string p @ ''/task''"
  obtain names s1 where l: "sys_listdir K ?dir s = (names, s1)" by fastforce
  with assms obtain ts s2 where "read_threads_loop K ?dir names [] s1 = Some (ts, s2)" "s2 = s'"
    by (auto simp: read_threads_def bind_eq_Some_conv Let_def)
  then have "tidy observes s1 s'" using read_threads_loop_tidy by fastforce
  moreover have "tidy observes s s1" by (rule sys_listdir_tidy [OF l]) simp
  ultimately show ?thesis by (rule tidy_trans [rotated])
qed

lemma read_processes_tidy:
  "read_processes K page_size ps acc s = Some (r, s') \<Longrightarrow> tidy observes s s'"
proof (induction K page_size ps acc s rule: read_processes.induct)
  case (2 K page_size p ps acc s)
  from "2.prems" obtain t s1 where t: "read_process K page_size p s = Some (t, s1)"
    by (auto simp: bind_eq_Some_conv)
  note q1 = read_process_tidy [OF t]
  consider e where "t = Inl e" | "t = Inr None" | i where "t = Inr (Some i)"
    by (metis sum.exhaust option.exhaust)
  then show ?case
    using "2.prems" t q1 "2.IH"(1) [OF t refl] "2.IH"(2) [OF t refl]
    by cases (auto intro: tidy_trans)
qed simp

lemma read_meminfo_tidy: "read_meminfo K s = Some (r, s') \<Longrightarrow> tidy observes s s'"
  by (auto simp: read_meminfo_def bind_eq_Some_conv dest!: parse_kv_tidy)

lemma read_loadavg_tidy: "read_loadavg K s = Some (r, s') \<Longrightarrow> tidy observes s s'"
  by (auto simp: read_loadavg_def bind_eq_Some_conv dest!: read_file_tidy)

lemma read_uptime_tidy: "read_uptime_seconds K s = Some (r, s') \<Longrightarrow> tidy observes s s'"
  by (auto simp: read_uptime_seconds_def bind_eq_Some_conv dest!: read_file_tidy)

text \<open>Printing makes no call in the model.\<close>

lemma print_report_tidy: "print_report items s = (r, s') \<Longrightarrow> tidy P s s'"
proof (induction items s rule: print_report.induct)
  case (2 title items s)
  then show ?case by (simp add: print_section_def)
next
  case (4 label v items s)
  then show ?case by (simp add: print_field_def)
qed simp_all

lemma print_table_tidy: "print_table t s = (r, s') \<Longrightarrow> tidy P s s'"
  by (auto simp: print_table_def split: sum.splits)

lemma list_options_tidy: "list_options args opts s = (r, s') \<Longrightarrow> tidy P s s'"
  by (induction args opts s rule: list_options.induct) (auto split: if_splits sum.splits)

lemma resolve_pid_tidy: "resolve_pid K arg s = (r, s') \<Longrightarrow> tidy observes s s'"
  by (auto simp: resolve_pid_def intro: call_tidy split: prod.splits if_splits)

text \<open>The commands, and the program.\<close>

lemma cmd_list_tidy:
  assumes "cmd_list K srt page_size hz args s = Some (r, s')"
  shows "tidy observes s s'"
proof -
  obtain o1 s1 where o: "list_options args (''rss'', 20) s = (o1, s1)" by fastforce
  note q1 = list_options_tidy [OF o, of observes]
  obtain l s2 where l: "list_pids K s1 = (l, s2)" by fastforce
  note q2 = tidy_trans [OF q1 list_pids_tidy [OF l]]
  consider (opts) "\<forall>x. o1 \<noteq> Inr (Inr x)" | (pids) "\<exists>x e. o1 = Inr (Inr x) \<and> l = Inl e"
    | (go) sort_by limit ps where "o1 = Inr (Inr (sort_by, limit))" "l = Inr ps"
    by (cases l) auto
  then show ?thesis
  proof cases
    case opts
    with assms o have "s' = s1" by (auto simp: cmd_list_def split: sum.split_asm)
    with q1 show ?thesis by simp
  next
    case pids
    with assms o l have "s' = s2" by (auto simp: cmd_list_def)
    with q2 show ?thesis by simp
  next
    case go
    with assms o l obtain processes s3 where
      p: "read_processes K page_size ps [] s2 = Some (processes, s3)"
      by (auto simp: cmd_list_def bind_eq_Some_conv)
    note q3 = tidy_trans [OF q2 read_processes_tidy [OF p]]
    show ?thesis
    proof (cases "\<exists>sorted. cbind processes (sort_processes srt hz sort_by) = Inr (Some sorted)")
      case False
      with assms o l go p q3 show ?thesis
        by (auto simp: cmd_list_def split: sum.split_asm option.split_asm)
    next
      case True
      then obtain sorted where srt: "cbind processes (sort_processes srt hz sort_by) = Inr (Some sorted)"
        by blast
      let ?shown = "if limit < length sorted then take limit sorted else sorted"
      obtain x s4 where t: "print_table (list_table hz ?shown) s3 = (x, s4)" by fastforce
      note q4 = tidy_trans [OF q3 print_table_tidy [OF t]]
      have "\<exists>y. s' = s4 \<or> s' = put_out y s4"
        using assms o l go p srt t by (cases x) (auto simp: cmd_list_def Let_def)
      with q4 show ?thesis by auto
    qed
  qed
qed

lemma cmd_show_tidy:
  assumes "cmd_show K page_size hz p s = Some (r, s')"
  shows "tidy observes s s'"
proof -
  from assms obtain info s1 where i: "read_process K page_size p s = Some (info, s1)"
    by (auto simp: cmd_show_def bind_eq_Some_conv)
  note q1 = read_process_tidy [OF i]
  show ?thesis
  proof (cases "\<exists>x. info = Inr (Some x)")
    case False
    with assms i q1 show ?thesis by (auto simp: cmd_show_def split: sum.split_asm option.split_asm)
  next
    case True
    then obtain x where x: "info = Inr (Some x)" by blast
    obtain y s2 where pr: "print_report (show_process hz x) s1 = (y, s2)" by fastforce
    note q2 = tidy_trans [OF q1 print_report_tidy [OF pr]]
    show ?thesis
    proof (cases y)
      case (Inl e)
      with assms i x pr q2 show ?thesis by (auto simp: cmd_show_def)
    next
      case (Inr u)
      with assms i x pr obtain regions s3 where m: "read_maps K p s2 = Some (regions, s3)"
        by (auto simp: cmd_show_def bind_eq_Some_conv)
      note q3 = tidy_trans [OF q2 read_maps_tidy [OF m]]
      obtain z s4 where pr2: "print_report (show_regions regions) s3 = (z, s4)" by fastforce
      note q4 = tidy_trans [OF q3 print_report_tidy [OF pr2]]
      have "s' = s3 \<or> (\<exists>t. s' = s4 \<or> s' = put_out t s4)"
        using assms i x pr Inr m pr2
        by (cases z) (auto simp: cmd_show_def split: if_splits)
      with q3 q4 show ?thesis by auto
    qed
  qed
qed

lemma cmd_threads_tidy:
  assumes "cmd_threads K hz p s = Some (r, s')"
  shows "tidy observes s s'"
proof -
  from assms obtain ts s1 where t: "read_threads K p s = Some (ts, s1)"
    by (auto simp: cmd_threads_def bind_eq_Some_conv)
  note q1 = read_threads_tidy [OF t]
  have "\<exists>x. s' = s1 \<or> s' = put_err x s1 \<or> (\<exists>tb s2 y. print_table tb s1 = (y, s2) \<and>
      (s' = s2 \<or> s' = put_out x s2))"
    using assms t by (auto simp: cmd_threads_def split: sum.split_asm list.split_asm prod.split_asm)
  with q1 show ?thesis by (auto dest!: print_table_tidy [where P = observes] intro: tidy_trans)
qed

lemma cmd_maps_tidy:
  assumes "cmd_maps K srt p s = Some (r, s')"
  shows "tidy observes s s'"
proof -
  from assms obtain regions s1 where m: "read_maps K p s = Some (regions, s1)"
    by (auto simp: cmd_maps_def bind_eq_Some_conv)
  note q1 = read_maps_tidy [OF m]
  from assms m q1 show ?thesis
    by (auto simp: cmd_maps_def Let_def simp del: print_report.simps
        split: sum.split_asm if_splits prod.split_asm intro: tidy_trans
        dest!: print_table_tidy [where P = observes] print_report_tidy [where P = observes])
qed

lemma cmd_mem_tidy:
  assumes "cmd_mem K s = Some (r, s')"
  shows "tidy observes s s'"
proof -
  from assms obtain mem s1 where m: "read_meminfo K s = Some (mem, s1)"
    by (auto simp: cmd_mem_def bind_eq_Some_conv)
  note q1 = read_meminfo_tidy [OF m]
  show ?thesis
  proof (cases mem)
    case None
    with assms m q1 show ?thesis by (auto simp: cmd_mem_def)
  next
    case (Some mi)
    obtain x s2 where pr: "print_report (mem_report mi) s1 = (x, s2)" by fastforce
    note q2 = tidy_trans [OF q1 print_report_tidy [OF pr]]
    show ?thesis
    proof (cases x)
      case (Inl e)
      with assms m Some pr q2 show ?thesis by (auto simp: cmd_mem_def)
    next
      case x: (Inr u)
      with assms m Some pr obtain la s3 where l: "read_loadavg K s2 = Some (la, s3)"
        by (auto simp: cmd_mem_def bind_eq_Some_conv)
      note q3 = tidy_trans [OF q2 read_loadavg_tidy [OF l]]
      let ?items = "case la of None \<Rightarrow> [] | Some la \<Rightarrow> load_report la"
      obtain y s4 where pl: "print_report ?items s3 = (y, s4)" by fastforce
      note q4 = tidy_trans [OF q3 print_report_tidy [OF pl]]
      show ?thesis
      proof (cases y)
        case (Inl e)
        with assms m Some pr x l pl q4 show ?thesis by (auto simp: cmd_mem_def)
      next
        case y: (Inr v)
        with assms m Some pr x l pl obtain up s5 where u: "read_uptime_seconds K s4 = Some (up, s5)"
          by (auto simp: cmd_mem_def bind_eq_Some_conv)
        note q5 = tidy_trans [OF q4 read_uptime_tidy [OF u]]
        let ?up = "case up of None \<Rightarrow> [] | Some t \<Rightarrow> [Field ''Uptime'' (human_duration t)]"
        obtain z s6 where pu: "print_report ?up s5 = (z, s6)" by fastforce
        note q6 = tidy_trans [OF q5 print_report_tidy [OF pu]]
        have "s' = s6 \<or> s' = put_out mem_note s6"
          using assms m Some pr x l pl y u pu by (cases z) (auto simp: cmd_mem_def)
        with q6 show ?thesis by auto
      qed
    qed
  qed
qed

lemma main_tidy:
  assumes "Procmon_Main.main K srt srt2 page_size hz args s = Some (r, s')"
  shows "tidy observes s s'"
proof -
  obtain p s1 where p: "resolve_pid K (args ! 1) s = (p, s1)" by fastforce
  note q1 = resolve_pid_tidy [OF p]
  show ?thesis
    using assms p q1
    by (cases p) (auto simp: Procmon_Main.main_def Let_def split: if_splits intro: tidy_trans
        dest: cmd_list_tidy cmd_mem_tidy cmd_show_tidy cmd_threads_tidy cmd_maps_tidy)
qed

text \<open>C10: procmon only observes. A whole run of the program, whatever its arguments, whatever the
  kernel answers and however it ends (with a status or with an uncaught exception), opens nothing
  but files under /proc, for reading, lists no directory elsewhere, makes no call that changes
  anything, and closes every descriptor that it opened, each exactly once.\<close>

theorem procmon_observes:
  assumes "Procmon_Main.main K srt srt2 page_size hz args s = Some (r, s')"
  shows "\<exists>evs. trace s' = trace s @ evs \<and> list_all observes evs \<and>
    mset (concat (map Procmon_Mapped.opened_fd evs)) = mset (closes evs)"
  using main_tidy [OF assms] by (auto simp: tidy_def all_of_def)

lemma procmon_observes_witness:
  "\<exists>r s' evs. Procmon_Main.main scripted insertion_sort insertion_sort 4096 100 [''mem'']
      (fresh_os [A_int 3, A_fail 5, A_int 0]) = Some (r, s') \<and>
    trace s' = [] @ evs \<and> list_all observes evs \<and> closes evs = [3]"
proof -
  let ?s = "fresh_os [A_int 3, A_fail 5, A_int 0]"
  have run: "\<exists>s'. Procmon_Main.main scripted insertion_sort insertion_sort 4096 100 [''mem''] ?s =
      Some (Inr 1, s') \<and> closes (trace s') = [3]"
    by (simp add: Procmon_Main.main_def cmd_mem_def read_meminfo_def parse_kv_def read_lines_def
        Procmon_Util.read_file_def FileDescriptor_open_def FileDescriptor_valid_def read_loop.simps
        FileDescriptor_destroy_def FileDescriptor_reset_def run_simps closes_def List.map_filter_def)
  then obtain s' where s': "Procmon_Main.main scripted insertion_sort insertion_sort 4096 100 [''mem'']
      ?s = Some (Inr 1, s')" "closes (trace s') = [3]" by blast
  from procmon_observes [OF s'(1)] s' show ?thesis by auto
qed

subsection \<open>The demonstration programs unmap and close\<close>

abbreviation settled :: "'w os \<Rightarrow> 'w os \<Rightarrow> bool" where
  "settled \<equiv> tidy (\<lambda>_. True)"

lemma settledI: "tidy observes s s' \<Longrightarrow> settled s s'"
  by (erule tidy_mono) simp

text \<open>What is still mapped and open after a part of a run.\<close>

definition owes :: "(int \<times> nat) multiset \<Rightarrow> int multiset \<Rightarrow> 'w os \<Rightarrow> 'w os \<Rightarrow> bool" where
  "owes mp op s s' \<longleftrightarrow> (\<exists>evs. trace s' = trace s @ evs \<and>
     all_of mapped_region evs = all_of unmapped_region evs + mp \<and>
     all_of Procmon_Mapped.opened_fd evs = mset (closes evs) + op)"

lemma owes_nothing: "owes {#} {#} s s' \<longleftrightarrow> settled s s'"
  by (auto simp: owes_def tidy_def list_all_iff)

lemma owes_settled:
  assumes "owes mp op s s1" and "settled s1 s2"
  shows "owes mp op s s2"
proof -
  from assms obtain evs evs' where
    "trace s1 = trace s @ evs" "all_of mapped_region evs = all_of unmapped_region evs + mp"
    "all_of Procmon_Mapped.opened_fd evs = mset (closes evs) + op"
    "trace s2 = trace s1 @ evs'" "all_of mapped_region evs' = all_of unmapped_region evs'"
    "all_of Procmon_Mapped.opened_fd evs' = mset (closes evs')"
    unfolding owes_def tidy_def by blast
  then show ?thesis unfolding owes_def by (intro exI [of _ "evs @ evs'"]) (simp add: ac_simps)
qed

lemma did_owes:
  assumes "did mp un op cl s1 s2" and "owes mp0 op0 s s1" and "\<exists>evs. trace s2 = trace s1 @ evs"
    and "mp0 + mp = un + mp'" and "op0 + op = cl + op'"
  shows "owes mp' op' s s2"
proof -
  from assms(2,3) obtain evs evs' where evs: "trace s1 = trace s @ evs" "trace s2 = trace s1 @ evs'"
    "all_of mapped_region evs = all_of unmapped_region evs + mp0"
    "all_of Procmon_Mapped.opened_fd evs = mset (closes evs) + op0"
    unfolding owes_def by blast
  from assms(1) evs(2) have d: "all_of mapped_region evs' = mp" "all_of unmapped_region evs' = un"
    "all_of Procmon_Mapped.opened_fd evs' = op" "mset (closes evs') = cl"
    by (auto simp: did_def)
  show ?thesis
    unfolding owes_def
  proof (intro exI [of _ "evs @ evs'"] conjI)
    show "trace s2 = trace s @ evs @ evs'" using evs(1,2) by simp
    show "all_of mapped_region (evs @ evs') = all_of unmapped_region (evs @ evs') + mp'"
      using assms(4) by (simp add: evs(3) d add.assoc)
    show "all_of Procmon_Mapped.opened_fd (evs @ evs') = mset (closes (evs @ evs')) + op'"
      using assms(5) by (simp add: evs(4) d add.assoc)
  qed
qed

lemma reset_grows: "\<exists>evs. trace (snd (MappedFile_reset K m s)) = trace s @ evs"
proof -
  have fd: "\<exists>evs. trace (snd (FileDescriptor_reset K fd v s)) = trace s @ evs" for fd v s
    by (cases "call K (Sys_close fd) s") (auto simp: FileDescriptor_reset_def dest: call_trace)
  show ?thesis
  proof (cases "mf_data m = 0")
    case True
    with fd [of "mf_fd m" "-1" s] show ?thesis
      by (simp add: MappedFile_reset_def case_prod_beta)
  next
    case False
    obtain n s1 where c: "call K (Sys_munmap (mf_data m) (mf_size m)) s = (n, s1)" by fastforce
    from call_trace [OF c] fd [of "mf_fd m" "-1" s1] False c show ?thesis
      by (auto simp: MappedFile_reset_def case_prod_beta)
  qed
qed

lemma open_grows:
  assumes "MappedFile_open K p w sh s = (m, s')"
  shows "\<exists>evs. trace s' = trace s @ evs"
  using assms
  by (auto simp: MappedFile_open_def FileDescriptor_open_def MappedFile_init_def assign_fds
      FileDescriptor_destroy_def FileDescriptor_reset_def Let_def
      dest!: call_trace call_value_trace split: prod.splits if_splits)

lemma owes_open:
  assumes "MappedFile_open K p w sh s1 = (m, s2)" and "settled s s1"
  shows "owes (mset (region_of m)) (mset (only_valid (mf_fd m))) s s2"
  using did_owes [OF open_did [OF assms(1), THEN conjunct1] assms(2) [folded owes_nothing]
    open_grows [OF assms(1)]] by simp

lemma owes_destroy:
  assumes "owes (mset (region_of m)) (mset (only_valid (mf_fd m))) s s1"
  shows "settled s (MappedFile_destroy K m s1)"
proof -
  obtain m' s2 where r: "MappedFile_reset K m s1 = (m', s2)" by fastforce
  with reset_grows [of K m s1] have "\<exists>evs. trace s2 = trace s1 @ evs" by simp
  from did_owes [OF reset_did [OF r, THEN conjunct2, THEN conjunct2] assms this, of "{#}" "{#}"]
  show ?thesis by (simp add: MappedFile_destroy_def r owes_nothing)
qed

lemma owes_put [simp]:
  "owes mp op s (put_out x s') = owes mp op s s'" "owes mp op s (put_err x s') = owes mp op s s'"
  by (simp_all add: owes_def)

lemma sys_write_tidy: "sys_write K fd d s = (n, s') \<Longrightarrow> (\<And>r. P (E_write fd d r)) \<Longrightarrow> tidy P s s'"
  by (drule sys_write_trace) (auto simp: tidy_def closes_def List.map_filter_def)

lemma write_fully_settled: "write_fully K fd d s = Some (ok, s') \<Longrightarrow> settled s s'"
proof -
  assume *: "write_fully K fd d s = Some (ok, s')"
  have "settled s (snd (ok, s'))"
  proof (rule write_fully.raw_induct [where P = "\<lambda>K fd d s r. settled s (snd r)", OF _ *], goal_cases)
    case (1 f K fd d s r)
    obtain n s1 where w: "sys_write K fd d s = (n, s1)" by fastforce
    with "1"(2) have "r = (True, s) \<or> r = (False, s1) \<or> (\<exists>d'. f K fd d' s1 = Some r)"
      by (auto split: if_splits)
    moreover have "settled s s1" by (rule sys_write_tidy [OF w]) simp
    moreover note "1"(1)
    ultimately show ?case by (metis snd_conv tidy_refl tidy_trans)
  qed
  then show ?thesis by simp
qed

lemma write_chunks_settled: "write_chunks K fd ch n good s = Some (ok, s') \<Longrightarrow> settled s s'"
  by (induction n arbitrary: good s)
     (auto simp: bind_eq_Some_conv dest: write_fully_settled intro: tidy_trans split: if_splits)

lemma opened_closed_settled:
  assumes "call K (Sys_open p fl) s = (fd, s1)" and "settled s1 s2"
  shows "settled s (if 0 \<le> fd then snd (call K (Sys_close fd) s2) else s2)"
proof -
  from assms(1) obtain x where o: "trace s1 = trace s @ [E_call (Sys_open p fl) x]" "fd = c_int x"
    by (auto dest: call_trace)
  have f: "Procmon_Mapped.opened_fd (E_call (Sys_open p fl) x) = only_valid fd"
    using o(2) by (cases x) (simp_all add: only_valid_def)
  from assms(2) obtain evs where evs: "trace s2 = trace s1 @ evs"
    "all_of mapped_region evs = all_of unmapped_region evs"
    "all_of Procmon_Mapped.opened_fd evs = mset (closes evs)" by (auto simp: tidy_def)
  obtain n s3 where c: "call K (Sys_close fd) s2 = (n, s3)" by fastforce
  from call_trace [OF c] obtain y where y: "trace s3 = trace s2 @ [E_call (Sys_close fd) y]" by blast
  have no: "closes [E_call (Sys_open p fl) x] = []" by (simp add: closes_def List.map_filter_def)
  show ?thesis
  proof (cases "0 \<le> fd")
    case True
    then show ?thesis
      unfolding tidy_def using o(1) f evs y c no
      by (intro exI [of _ "[E_call (Sys_open p fl) x] @ evs @ [E_call (Sys_close fd) y]"])
         (simp add: only_valid_def list_all_iff del: append_Cons)
  next
    case False
    then show ?thesis
      unfolding tidy_def using o(1) f evs no
      by (intro exI [of _ "[E_call (Sys_open p fl) x] @ evs"])
         (simp add: only_valid_def list_all_iff del: append_Cons)
  qed
qed

lemma create_file_settled:
  assumes "create_file K c p mb s = Some s'"
  shows "settled s s'"
proof -
  obtain fd s1 where o: "call K (Sys_open p [O_WRONLY, O_CREAT, O_TRUNC]) s = (fd, s1)" by fastforce
  with assms obtain ok s2 where
    w: "write_chunks K fd (replicate (1024 * 1024) c) (unat mb) (0 \<le> fd) s1 = Some (ok, s2)"
    and s': "s' = (if 0 \<le> fd then snd (call K (Sys_close fd) s2) else s2)"
    by (auto simp: create_file_def bind_eq_Some_conv)
  show ?thesis unfolding s' by (rule opened_closed_settled [OF o write_chunks_settled [OF w]])
qed

lemma drop_from_cache_settled: "settled s (drop_from_cache K p s)"
proof -
  obtain fd s1 where o: "call K (Sys_open p [O_RDONLY]) s = (fd, s1)" by fastforce
  obtain n s2 where a: "call K (Sys_fadvise fd POSIX_FADV_DONTNEED) s1 = (n, s2)" by fastforce
  then have "settled s1 s2" by (rule call_tidy) simp_all
  from opened_closed_settled [OF o this] opened_closed_settled [OF o tidy_refl] show ?thesis
    by (auto simp: drop_from_cache_def FileDescriptor_open_def o a FileDescriptor_valid_def
        FileDescriptor_destroy_def FileDescriptor_reset_def Let_def case_prod_beta)
qed

lemma read_through_settled:
  assumes "read_through K fd s = Some s'"
  shows "settled s s'"
proof (rule read_through.raw_induct [where P = "\<lambda>K fd. settled", OF _ assms], goal_cases)
  case (1 f K fd s s')
  obtain n d s1 where r: "sys_read K fd (2 ^ 20) s = ((n, d), s1)" by (metis surj_pair)
  then have q: "settled s s1" by (rule sys_read_tidy) simp
  from "1"(2) r have "f K fd s1 = Some s' \<or> s' = s1" by (auto split: if_splits)
  with "1"(1) q show ?case by (auto intro: tidy_trans)
qed

lemma touch_pages_settled: "touch_pages K m ps off acc s = Some (r, s') \<Longrightarrow> settled s s'"
proof -
  assume *: "touch_pages K m ps off acc s = Some (r, s')"
  have "settled s (snd (r, s'))"
  proof (rule touch_pages.raw_induct [where P = "\<lambda>K m ps off acc s r. settled s (snd r)", OF _ *],
      goal_cases)
    case (1 f K m ps off acc s r)
    obtain b s1 where c: "call K (Sys_load (mf_data m + int off)) s = (b, s1)" by fastforce
    then have q: "settled s s1" by (rule call_tidy) simp_all
    from "1"(2) c have "r = (Inr acc, s) \<or> r = (Inl Undefined_Behaviour, s1) \<or>
        (\<exists>off' acc'. f K m ps off' acc' s1 = Some r)"
      by (auto split: if_splits)
    with "1"(1) q show ?case by (metis snd_conv tidy_refl tidy_trans)
  qed
  then show ?thesis by simp
qed

lemma resident_pages_settled: "resident_pages K page_size m s = (r, s') \<Longrightarrow> settled s s'"
  by (auto simp: resident_pages_def sys_mincore_def finish_def tidy_def closes_def
      List.map_filter_def list_all_iff Let_def split: if_splits sum.splits prod.splits)

text \<open>The steps of \<open>seq\<close>, for a run that ends with a status.\<close>

lemma seq_Inr:
  "seq m f = Some (Inr y, s') \<longleftrightarrow> (\<exists>x s. m = Some (Inr x, s) \<and> f x s = Some (Inr y, s'))"
  by (auto simp: seq_def bind_eq_Some_conv split: sum.split_asm)

lemma mmap_report_settled:
  assumes "mmap_report K page_size label p s = Some (r, s')"
  shows "settled s s'"
proof -
  from assms obtain info s1 where i: "read_process K page_size p s = Some (info, s1)"
    by (auto simp: mmap_report_def seq_def bind_eq_Some_conv)
  note q = settledI [OF read_process_tidy [OF i]]
  have "s' = s1 \<or> (\<exists>x. s' = put_out x s1)"
    using assms i by (auto simp: mmap_report_def seq_def split: sum.split_asm option.split_asm)
  with q show ?thesis by auto
qed

lemma cache_report_settled:
  assumes "cache_report K page_size label m s = Some (Inr u, s')"
  shows "settled s s'"
proof -
  obtain res s1 where p: "resident_pages K page_size m s = (res, s1)" by fastforce
  note q1 = resident_pages_settled [OF p]
  from assms p obtain x y where
    "s' = put_out x (put_out y s1) \<or> (\<exists>mem s2. read_meminfo K (put_out x (put_out y s1)) = Some (mem, s2) \<and>
      (s' = s2 \<or> (\<exists>z. s' = put_out z s2)))"
    by (fastforce simp: cache_report_def seq_Inr bind_eq_Some_conv Let_def
        split: if_splits option.split_asm)
  with q1 show ?thesis
    by (auto dest!: read_meminfo_tidy settledI intro: tidy_trans)
qed

lemma seqE:
  assumes "seq m f = Some (Inr y, s')"
    and "\<And>x s. m = Some (Inr x, s) \<Longrightarrow> f x s = Some (Inr y, s') \<Longrightarrow> thesis"
  shows thesis
  using assms by (auto simp: seq_Inr)

lemma bindE:
  assumes "Option.bind m f = Some y" and "\<And>x. m = Some x \<Longrightarrow> f x = Some y \<Longrightarrow> thesis"
  shows thesis
  using assms by (auto simp: bind_eq_Some_conv)

lemma mmap_explore_settled:
  assumes "mmap_explore K page_size n p m s = Some (Inr status, s')"
    and "owes (mset (region_of m)) (mset (only_valid (mf_fd m))) s0 s"
  shows "settled s0 s'"
  using assms(1) unfolding mmap_explore_def Let_def
proof (rule seqE, goal_cases)
  case (1 u s1)
  note o1 = owes_settled [OF assms(2) mmap_report_settled [OF "1"(1), simplified]]
  from "1"(2) show ?case
  proof (rule seqE, goal_cases)
    case (1 w s2)
    note o2 = owes_settled [OF o1 touch_pages_settled [OF "1"(1), simplified]]
    from "1"(2) show ?case
    proof (rule seqE, goal_cases)
      case (1 v s3)
      note o3 = owes_settled [OF o2 mmap_report_settled [OF "1"(1)]]
      from "1"(2) obtain x y z s4 where i: "sys_read K 0 n (put_out x (put_out y s3)) = (z, s4)"
        and fin: "s' = MappedFile_destroy K m s4"
        by (auto split: prod.split_asm)
      have "settled s3 s4" using sys_read_tidy [OF i, of "\<lambda>_. True"] by simp
      from owes_destroy [OF owes_settled [OF o3 this]] show ?case by (simp add: fin)
    qed
  qed
qed

lemma mmap_main_settled:
  assumes "mmap_main K page_size n args s = Some (Inr status, s')"
  shows "settled s s'"
proof -
  obtain p s1 where p: "call K Sys_getpid s = (p, s1)" by fastforce
  then have q1: "settled s s1" by (rule call_tidy) simp_all
  from assms show ?thesis
    unfolding mmap_main_def Let_def p prod.case
  proof (rule seqE, goal_cases)
    case (1 u s2)
    note q2 = tidy_trans [OF q1 mmap_report_settled [OF "1"(1), simplified]]
    from "1"(2) show ?case
    proof (rule bindE, goal_cases)
      case (1 s3)
      note q3 = tidy_trans [OF q2 create_file_settled [OF "1"(1), simplified]]
      from "1"(2) show ?case
      proof (rule seqE, goal_cases)
        case (1 v s4)
        note q4 = tidy_trans [OF q3 mmap_report_settled [OF "1"(1)]]
        obtain m s5 where o: "MappedFile_open K ''/tmp/mmap_demo.bin'' False True s4 = (m, s5)"
          by fastforce
        note o5 = owes_open [OF o q4]
        from "1"(2) o consider x where "s' = MappedFile_destroy K m (put_err x s5)"
          | "mmap_explore K page_size n p m s5 = Some (Inr status, s')"
          by (auto split: if_splits)
        then show ?case
          using o5 by cases (auto intro: owes_destroy mmap_explore_settled)
      qed
    qed
  qed
qed

lemma owes_fd:
  assumes "call K (Sys_open p fl) s = (fd, s1)" and "owes mp op s0 s"
  shows "owes mp (op + mset (only_valid fd)) s0 s1"
  using did_owes [OF did_open [OF assms(1)] assms(2)] call_trace [OF assms(1)] by fastforce

lemma owes_closed:
  assumes "owes mp (op + mset (only_valid fd)) s0 s"
  shows "owes mp op s0 (FileDescriptor_destroy K fd s)"
proof (cases "0 \<le> fd")
  case True
  obtain n s1 where c: "call K (Sys_close fd) s = (n, s1)" by fastforce
  then have "FileDescriptor_reset K fd (-1) s = (-1, s1)" using True by (simp add: FileDescriptor_reset_def)
  from did_owes [OF did_close [OF this, THEN conjunct2] assms, of mp op] call_trace [OF c] True c
  show ?thesis by (auto simp: FileDescriptor_destroy_def FileDescriptor_reset_def)
next
  case False
  with assms show ?thesis
    by (simp add: FileDescriptor_destroy_def FileDescriptor_reset_def only_valid_def)
qed

lemma pagecache_reread_settled:
  assumes "pagecache_reread K page_size file s = Some (Inr status, s')" and "settled s0 s"
  shows "settled s0 s'"
proof -
  obtain m s1 where o: "MappedFile_open K file False True s = (m, s1)" by fastforce
  note o1 = owes_open [OF o assms(2)]
  from assms(1) show ?thesis
    unfolding pagecache_reread_def Let_def o prod.case
  proof (rule seqE, goal_cases)
    case (1 u s2)
    note o2 = owes_settled [OF o1 cache_report_settled [OF "1"(1)]]
    obtain fd s3 where f: "call K (Sys_open file [O_RDONLY]) s2 = (fd, s3)" by fastforce
    note o3 = owes_fd [OF f o2]
    from "1"(2) show ?case
      unfolding FileDescriptor_open_def f prod.case
    proof (rule bindE, goal_cases)
      case (1 s4)
      note o4 = owes_settled [OF o3 read_through_settled [OF "1"(1)]]
      from "1"(2) show ?case
      proof (rule seqE, goal_cases)
        case (1 v s5)
        note o5 = owes_settled [OF o4 cache_report_settled [OF "1"(1)]]
        let ?s6 = "MappedFile_destroy K m (FileDescriptor_destroy K fd s5)"
        obtain n s7 where ul: "call K (Sys_unlink file) (put_out takeaway ?s6) = (n, s7)" by fastforce
        have "settled s0 ?s6" by (rule owes_destroy [OF owes_closed [OF o5]])
        moreover have "settled ?s6 s7" using call_tidy [OF ul, of "\<lambda>_. True"] by simp
        moreover have "s' = s7" using "1"(2) ul by simp
        ultimately show ?case by (auto intro: tidy_trans)
      qed
    qed
  qed
qed

lemma pagecache_main_settled:
  assumes "pagecache_main K page_size args s = Some (Inr status, s')"
  shows "settled s s'"
  using assms unfolding pagecache_main_def Let_def
proof (rule bindE, goal_cases)
  case (1 s1)
  note q1 = create_file_settled [OF "1"(1), simplified]
  obtain n s2 where c: "call K Sys_sync s1 = (n, s2)" by fastforce
  then have "settled s1 s2" by (rule call_tidy) simp_all
  note q2 = tidy_trans [OF q1 this]
  obtain m s3 where o: "MappedFile_open K ''/tmp/pagecache_demo.bin'' False True s2 = (m, s3)"
    by fastforce
  note o3 = owes_open [OF o q2]
  show ?case
  proof (cases "MappedFile_valid m")
    case False
    with "1"(2) c o have "\<exists>x. s' = MappedFile_destroy K m (put_err x s3)" by auto
    with o3 show ?thesis by (auto intro: owes_destroy)
  next
    case True
    from "1"(2) show ?thesis
      unfolding c o prod.case if_not_P [OF iffD2 [OF not_not True]]
    proof (rule seqE, goal_cases)
      case (1 u s4)
      note q4 = owes_destroy [OF owes_settled [OF o3 cache_report_settled [OF "1"(1)]]]
      from pagecache_reread_settled [OF "1"(2) tidy_trans [OF q4 drop_from_cache_settled]]
      show ?case .
    qed
  qed
qed

text \<open>C38: Both demonstration programs clean up: a run that ends with a status has unmapped every
  region that it mapped, with the size it was mapped with, and closed every descriptor that it
  opened, each exactly once - also when the file could not be created, opened or mapped, when
  \<open>mincore\<close> fails, and when reading stops with an error.\<close>

theorem demos_clean_up:
  assumes "mmap_main K page_size n args s = Some (Inr status, s') \<or>
    pagecache_main K page_size args s = Some (Inr status, s')"
  shows "\<exists>evs. trace s' = trace s @ evs \<and>
    mset (concat (map mapped_region evs)) = mset (concat (map unmapped_region evs)) \<and>
    mset (concat (map Procmon_Mapped.opened_fd evs)) = mset (closes evs)"
proof -
  from assms have "settled s s'" by (auto dest: mmap_main_settled pagecache_main_settled)
  then show ?thesis by (auto simp: tidy_def all_of_def)
qed

lemma demos_clean_up_witness:
  "\<exists>s' evs. pagecache_main scripted 4096 [''0'']
      (fresh_os [A_int 3, A_int 0, A_int 0, A_int 4, A_int 0, A_int 0]) = Some (Inr 1, s') \<and>
    trace s' = [] @ evs \<and> err s' = ''mmap failed: file is empty'' @ newline \<and>
    mset (concat (map Procmon_Mapped.opened_fd evs)) = mset (closes evs)"
proof -
  let ?s = "fresh_os [A_int 3, A_int 0, A_int 0, A_int 4, A_int 0, A_int 0]"
  have zero: "megabytes_of [''0''] = 0"
    by (simp add: megabytes_of_def strtoull_def strto_subject_def strip_0x_def is_digit_of_def
        digit_value_def isdigit_def isspace_def value_of_def digit_val_def)
  have "\<exists>s'. pagecache_main scripted 4096 [''0''] ?s = Some (Inr 1, s') \<and>
      err s' = ''mmap failed: file is empty'' @ newline"
    by (simp add: pagecache_main_def zero create_file_def run_simps MappedFile_open_def
        MappedFile_init_def FileDescriptor_open_def assign_fds FileDescriptor_destroy_def
        FileDescriptor_reset_def FileDescriptor_valid_def MappedFile_valid_def
        MappedFile_destroy_def MappedFile_reset_def Let_def)
  then obtain s' where run: "pagecache_main scripted 4096 [''0''] ?s = Some (Inr 1, s')"
    "err s' = ''mmap failed: file is empty'' @ newline" by blast
  have "mmap_main scripted 4096 0 [''0''] ?s = Some (Inr 1, s') \<or>
      pagecache_main scripted 4096 [''0''] ?s = Some (Inr 1, s')" using run(1) by simp
  from demos_clean_up [OF this] run show ?thesis by auto
qed

end
