(* ===== verification/Ev_Socket.thy ===== *)
theory Ev_Socket
  imports Handle
begin

section \<open>evserver: sockets and the signal descriptor\<close>

text \<open>
  Models \<open>evserver/src/socket.cpp\<close>, \<open>evserver/src/signals.cpp\<close> and the class \<open>Socket\<close> of
  \<open>evserver/include/ev/socket.hpp\<close>. A \<open>Socket\<close> is its \<open>fd_\<close>; a function that returns one
  returns the descriptor, having run the destructors of its locals. An \<open>std::string *error\<close>
  is an option, \<open>None\<close> for a null pointer, and is returned updated.
\<close>

subsection \<open>Socket\<close>

definition Socket_valid :: "int \<Rightarrow> bool" where
  "Socket_valid fd0 \<longleftrightarrow> 0 \<le> fd0"

definition Socket_reset :: "'w kernel \<Rightarrow> int \<Rightarrow> int \<Rightarrow> 'w os \<Rightarrow> int \<times> 'w os" where
  "Socket_reset K fd0 fd s =
     (let s = (if 0 \<le> fd0 then snd (call K (Sys_close fd0) s) else s) in (fd, s))"

definition Socket_release :: "int \<Rightarrow> int \<times> int" where
  "Socket_release fd0 = (let fd = fd0 in (fd, -1))"

definition Socket_move :: "int \<Rightarrow> int \<times> int" where
  "Socket_move other = (other, -1)"

definition Socket_assign ::
  "'w kernel \<Rightarrow> nat \<Rightarrow> nat \<Rightarrow> int list \<Rightarrow> 'w os \<Rightarrow> int list \<times> 'w os" where
  "Socket_assign K this other os s =
     (if this \<noteq> other then
        let (v, s) = Socket_reset K (os ! this) (os ! other) s in
        (os[this := v, other := -1], s)
      else (os, s))"

definition Socket_destroy :: "'w kernel \<Rightarrow> int \<Rightarrow> 'w os \<Rightarrow> 'w os" where
  "Socket_destroy K fd0 s = snd (Socket_reset K fd0 (-1) s)"

definition Socket_class :: "'w handle_class" where
  "Socket_class = \<lparr>h_reset = Socket_reset, h_release = Socket_release, h_move = Socket_move,
     h_assign = Socket_assign, h_destroy = Socket_destroy\<rparr>"

lemma Socket_reset_closes:
  "closes (trace (snd (Socket_reset K h v s))) = closes (trace s) @ only_valid h"
  by (cases "call K (Sys_close h) s") (auto simp: Socket_reset_def only_valid_def dest!: call_trace)

interpretation sock: owning_handle Socket_class
  by unfold_locales
     (auto simp: Socket_class_def Socket_release_def Socket_move_def Socket_assign_def
        Socket_destroy_def Socket_reset_closes case_prod_beta
        Socket_reset_def [THEN arg_cong [of _ _ fst]] Let_def)

text \<open>Over any sequence of constructions, moves, assignments (self-assignment included),
  resets, releases and destructions of Socket objects that ends with every object empty, the
  descriptors that were handed to the objects are exactly those that were closed, each once,
  and those that were released: no socket leaks and none is closed twice.\<close>

lemma Socket_no_leak:
  assumes "legal_run Socket_class K xs (start_handles n w)"
    and "\<forall>v \<in> set (objs (hrun Socket_class K xs (start_handles n w))). v < 0"
  shows "let h = hrun Socket_class K xs (start_handles n w) in
    mset (adopted h) = mset (closes (trace (hos h))) + mset (released h)"
  by (rule sock.run_no_leak [OF assms])

subsection \<open>Errors through an out-parameter\<close>

definition errno_message :: "'w kernel \<Rightarrow> string \<Rightarrow> 'w os \<Rightarrow> string" where
  "errno_message K what s = what @ '': '' @ strerror K (errno s)"

subsection \<open>Listening and connecting\<close>

definition listen_tcp ::
  "'w kernel \<Rightarrow> 16 word \<Rightarrow> int \<Rightarrow> string option \<Rightarrow> 'w os \<Rightarrow> (int \<times> string option) \<times> 'w os" where
  "listen_tcp K port backlog error s =
     (let (sock, s) = call K Sys_socket s in
      if \<not> Socket_valid sock then
        ((-1, set_error (errno_message K ''socket'' s) error), Socket_destroy K sock s)
      else let (r, s) = call K (Sys_setsockopt sock SO_REUSEADDR) s in
      if r \<noteq> 0 then
        ((-1, set_error (errno_message K ''setsockopt(SO_REUSEADDR)'' s) error),
          Socket_destroy K sock s)
      else let (r, s) = call K (Sys_bind sock INADDR_ANY port) s in
      if r \<noteq> 0 then
        ((-1, set_error (errno_message K ''bind'' s) error), Socket_destroy K sock s)
      else let (r, s) = call K (Sys_listen sock backlog) s in
      if r \<noteq> 0 then
        ((-1, set_error (errno_message K ''listen'' s) error), Socket_destroy K sock s)
      else ((sock, error), s))"

definition connect_tcp ::
  "'w kernel \<Rightarrow> 16 word \<Rightarrow> string option \<Rightarrow> 'w os \<Rightarrow> (int \<times> string option) \<times> 'w os" where
  "connect_tcp K port error s =
     (let (sock, s) = call K Sys_socket s in
      if \<not> Socket_valid sock then
        ((-1, set_error (errno_message K ''socket'' s) error), Socket_destroy K sock s)
      else let (r, s) = call K (Sys_connect sock INADDR_LOOPBACK port) s in
      if r \<noteq> 0 then
        ((-1, set_error (errno_message K ''connect'' s) error), Socket_destroy K sock s)
      else ((sock, error), s))"

definition set_nonblocking :: "'w kernel \<Rightarrow> int \<Rightarrow> 'w os \<Rightarrow> bool \<times> 'w os" where
  "set_nonblocking K fd s =
     (let (flags, s) = call K (Sys_getfl fd) s in
      if flags < 0 then (False, s)
      else let (r, s) = call K (Sys_setfl fd (nat flags) O_NONBLOCK) s in (r = 0, s))"

definition set_nodelay :: "'w kernel \<Rightarrow> int \<Rightarrow> 'w os \<Rightarrow> bool \<times> 'w os" where
  "set_nodelay K fd s =
     (let (r, s) = call K (Sys_setsockopt fd TCP_NODELAY) s in (r = 0, s))"

definition signal_fd :: "'w kernel \<Rightarrow> string option \<Rightarrow> 'w os \<Rightarrow> (int \<times> string option) \<times> 'w os" where
  "signal_fd K error s =
     (let (r, s) = call K (Sys_sigprocmask [SIGINT, SIGTERM]) s in
      if r \<noteq> 0 then ((-1, set_error (errno_message K ''sigprocmask'' s) error), s)
      else let (fd, s) = call K (Sys_signalfd [SIGINT, SIGTERM] [SFD_NONBLOCK, SFD_CLOEXEC]) s;
        error = (if \<not> Socket_valid fd then set_error (errno_message K ''signalfd'' s) error
          else error) in
      ((fd, error), s))"

text \<open>
  The descriptors that a sequence of events created, for comparison with those it closed.
\<close>

fun opened_fd :: "event \<Rightarrow> int list" where
  "opened_fd (E_call (Sys_open p fl) r) = only_valid (c_int r)"
| "opened_fd (E_call Sys_socket r) = only_valid (c_int r)"
| "opened_fd (E_call (Sys_accept4 fd fl) r) = only_valid (c_int r)"
| "opened_fd (E_call (Sys_signalfd m fl) r) = only_valid (c_int r)"
| "opened_fd (E_call (Sys_epoll_create1 fl) r) = only_valid (c_int r)"
| "opened_fd _ = []"

definition opens :: "event list \<Rightarrow> int list" where
  "opens evs = concat (map opened_fd evs)"

lemma opens_simps [simp]:
  "opens [] = []" "opens (evs @ evs') = opens evs @ opens evs'" "opens (ev # evs) = opened_fd ev @ opens evs"
  by (simp_all add: opens_def)

lemma closes_Cons [simp]:
  "closes (ev # evs) = (case closed_fd ev of None \<Rightarrow> [] | Some fd \<Rightarrow> [fd]) @ closes evs"
  by (cases "closed_fd ev") (simp_all add: closes_def List.map_filter_simps)

lemma Socket_destroy_eq:
  "0 \<le> fd \<Longrightarrow> \<exists>r w. Socket_destroy K fd s = finish w r (E_call (Sys_close fd) r) s"
  using call_eq [of K "Sys_close fd" s] by (fastforce simp: Socket_destroy_def Socket_reset_def)

lemma Socket_destroy_none [simp]: "fd < 0 \<Longrightarrow> Socket_destroy K fd s = s"
  by (simp add: Socket_destroy_def Socket_reset_def)

text \<open>The name under which a failed call is reported, and a report that is right.\<close>

fun call_name :: "syscall \<Rightarrow> string" where
  "call_name Sys_socket = ''socket''"
| "call_name (Sys_setsockopt fd SO_REUSEADDR) = ''setsockopt(SO_REUSEADDR)''"
| "call_name (Sys_bind fd a p) = ''bind''"
| "call_name (Sys_listen fd n) = ''listen''"
| "call_name (Sys_connect fd a p) = ''connect''"
| "call_name (Sys_sigprocmask m) = ''sigprocmask''"
| "call_name (Sys_signalfd m f) = ''signalfd''"
| "call_name (Sys_epoll_create1 f) = ''epoll_create1''"
| "call_name (Sys_epoll_add ep fd f) = ''epoll_ctl(ADD)''"
| "call_name _ = []"

text \<open>What a failed call leaves in \<open>*error\<close>: the name given, and the message of its errno.\<close>

definition reports ::
  "'w kernel \<Rightarrow> string \<Rightarrow> errno + int \<Rightarrow> string option \<Rightarrow> string option \<Rightarrow> bool" where
  "reports K what r error error' \<longleftrightarrow>
     (\<exists>m. error' = set_error (what @ '': '' @ m) error \<and> (\<forall>e. r = Inl e \<longrightarrow> m = strerror K e))"

lemma reports_errno_message:
  "reports K what r error (set_error (errno_message K what (finish w r ev s)) error)"
  by (auto simp: reports_def errno_message_def)

text \<open>The runs of listen_tcp that fail: the first call fails, and nothing else is done; or the
  socket was created, some of the other three calls succeeded in their order, the next one
  failed, and the socket was closed.\<close>

definition listen_failed :: "'w kernel \<Rightarrow> 16 word \<Rightarrow> int \<Rightarrow> string option \<Rightarrow> string option \<Rightarrow>
    event list \<Rightarrow> bool" where
  "listen_failed K port backlog error error' evs \<longleftrightarrow>
     (\<exists>r. c_int r < 0 \<and> evs = [E_call Sys_socket r] \<and> reports K ''socket'' r error error') \<or>
     (\<exists>sock before c r r'. 0 \<le> sock \<and> c_int r \<noteq> 0 \<and>
        prefix (before @ [c])
          [Sys_setsockopt sock SO_REUSEADDR, Sys_bind sock INADDR_ANY port, Sys_listen sock backlog] \<and>
        evs = E_call Sys_socket (Inr sock) # map (\<lambda>c. E_call c (Inr 0)) before @
          [E_call c r, E_call (Sys_close sock) r'] \<and>
        reports K (call_name c) r error error')"

lemma listen_failedI:
  assumes "0 \<le> sock" and "c_int r \<noteq> 0"
    and "prefix (before @ [c])
      [Sys_setsockopt sock SO_REUSEADDR, Sys_bind sock INADDR_ANY port, Sys_listen sock backlog]"
  shows "listen_failed K port backlog error
      (set_error (errno_message K (call_name c) (finish w r ev s)) error)
      (E_call Sys_socket (Inr sock) # map (\<lambda>c. E_call c (Inr 0)) before @
        [E_call c r, E_call (Sys_close sock) r'])"
  unfolding listen_failed_def using assms
  by (intro disjI2 exI [of _ sock] exI [of _ before] exI [of _ c] exI [of _ r] exI [of _ r'])
     (simp add: reports_errno_message)

lemma listen_tcp_extends:
  assumes run: "listen_tcp K port backlog error s = ((fd, error'), s')"
  shows "\<exists>evs. extends evs s s' \<and> opens evs = closes evs @ only_valid fd \<and>
    (if 0 \<le> fd then error' = error \<and>
       evs = [E_call Sys_socket (Inr fd), E_call (Sys_setsockopt fd SO_REUSEADDR) (Inr 0),
         E_call (Sys_bind fd INADDR_ANY port) (Inr 0), E_call (Sys_listen fd backlog) (Inr 0)]
     else fd = -1 \<and> listen_failed K port backlog error error' evs)"
proof -
  obtain r1 w1 where c1: "call K Sys_socket s = (c_int r1, finish w1 r1 (E_call Sys_socket r1) s)"
    using call_eq [of K Sys_socket s] by blast
  let ?s1 = "finish w1 r1 (E_call Sys_socket r1) s" and ?fd = "c_int r1"
  show ?thesis
  proof (cases "0 \<le> ?fd")
    case False
    then have "?fd \<noteq> 0 \<and> opens [E_call Sys_socket r1] = []" by (simp add: only_valid_def)
    moreover from False run c1 have res: "fd = -1" "s' = ?s1"
      "error' = set_error (errno_message K ''socket'' ?s1) error"
      by (auto simp: listen_tcp_def Socket_valid_def)
    moreover have "listen_failed K port backlog error error' [E_call Sys_socket r1]"
      unfolding listen_failed_def res(3) using False reports_errno_message
      by (intro disjI1 exI [of _ r1]) auto
    ultimately show ?thesis
      by (intro exI [of _ "[E_call Sys_socket r1]"]) (simp add: extends_def only_valid_def)
  next
    case valid: True
    obtain r2 w2 where c2: "call K (Sys_setsockopt ?fd SO_REUSEADDR) ?s1 =
        (c_int r2, finish w2 r2 (E_call (Sys_setsockopt ?fd SO_REUSEADDR) r2) ?s1)"
      using call_eq [of K "Sys_setsockopt ?fd SO_REUSEADDR" ?s1] by blast
    let ?s2 = "finish w2 r2 (E_call (Sys_setsockopt ?fd SO_REUSEADDR) r2) ?s1"
    obtain r3 w3 where c3: "call K (Sys_bind ?fd INADDR_ANY port) ?s2 =
        (c_int r3, finish w3 r3 (E_call (Sys_bind ?fd INADDR_ANY port) r3) ?s2)"
      using call_eq [of K "Sys_bind ?fd INADDR_ANY port" ?s2] by blast
    let ?s3 = "finish w3 r3 (E_call (Sys_bind ?fd INADDR_ANY port) r3) ?s2"
    obtain r4 w4 where c4: "call K (Sys_listen ?fd backlog) ?s3 =
        (c_int r4, finish w4 r4 (E_call (Sys_listen ?fd backlog) r4) ?s3)"
      using call_eq [of K "Sys_listen ?fd backlog" ?s3] by blast
    let ?s4 = "finish w4 r4 (E_call (Sys_listen ?fd backlog) r4) ?s3"
    from valid obtain sock where sock: "r1 = Inr sock" "0 \<le> sock" by (auto simp: c_int_pos)
    have closing: "\<exists>r w. Socket_destroy K ?fd t = finish w r (E_call (Sys_close ?fd) r) t" for t
      using valid by (rule Socket_destroy_eq)
    note unfold = listen_tcp_def c1 c2 c3 c4 Socket_valid_def valid
    consider "c_int r2 \<noteq> 0" | "c_int r2 = 0" "c_int r3 \<noteq> 0"
      | "c_int r2 = 0" "c_int r3 = 0" "c_int r4 \<noteq> 0" | "c_int r2 = 0" "c_int r3 = 0" "c_int r4 = 0"
      by blast
    then show ?thesis
    proof cases
      case 1
      obtain r' w' where "Socket_destroy K ?fd ?s2 = finish w' r' (E_call (Sys_close ?fd) r') ?s2"
        using closing by blast
      with run 1 have "fd = -1" "s' = finish w' r' (E_call (Sys_close ?fd) r') ?s2"
        "error' = set_error (errno_message K ''setsockopt(SO_REUSEADDR)'' ?s2) error"
        by (auto simp: unfold)
      moreover have "listen_failed K port backlog error
          (set_error (errno_message K ''setsockopt(SO_REUSEADDR)'' ?s2) error)
          [E_call Sys_socket (Inr sock), E_call (Sys_setsockopt sock SO_REUSEADDR) r2, E_call (Sys_close sock) r']"
        using listen_failedI [OF sock(2) 1, of "[]" "Sys_setsockopt sock SO_REUSEADDR"] by simp
      ultimately show ?thesis using sock
        by (intro exI [of _ "[E_call Sys_socket r1, E_call (Sys_setsockopt ?fd SO_REUSEADDR) r2,
            E_call (Sys_close ?fd) r']"]) (simp add: extends_def only_valid_def)
    next
      case 2
      obtain r' w' where "Socket_destroy K ?fd ?s3 = finish w' r' (E_call (Sys_close ?fd) r') ?s3"
        using closing by blast
      with run 2 have "fd = -1" "s' = finish w' r' (E_call (Sys_close ?fd) r') ?s3"
        "error' = set_error (errno_message K ''bind'' ?s3) error"
        by (auto simp: unfold)
      moreover have "listen_failed K port backlog error
          (set_error (errno_message K ''bind'' ?s3) error)
          [E_call Sys_socket (Inr sock), E_call (Sys_setsockopt sock SO_REUSEADDR) (Inr 0),
            E_call (Sys_bind sock INADDR_ANY port) r3, E_call (Sys_close sock) r']"
        using listen_failedI [OF sock(2) 2(2), of "[Sys_setsockopt sock SO_REUSEADDR]"
          "Sys_bind sock INADDR_ANY port" port backlog] by simp
      ultimately show ?thesis using sock 2(1)
        by (intro exI [of _ "[E_call Sys_socket r1, E_call (Sys_setsockopt ?fd SO_REUSEADDR) r2,
            E_call (Sys_bind ?fd INADDR_ANY port) r3, E_call (Sys_close ?fd) r']"])
           (simp add: extends_def only_valid_def c_int_zero)
    next
      case 3
      obtain r' w' where "Socket_destroy K ?fd ?s4 = finish w' r' (E_call (Sys_close ?fd) r') ?s4"
        using closing by blast
      with run 3 have "fd = -1" "s' = finish w' r' (E_call (Sys_close ?fd) r') ?s4"
        "error' = set_error (errno_message K ''listen'' ?s4) error"
        by (auto simp: unfold)
      moreover have "listen_failed K port backlog error
          (set_error (errno_message K ''listen'' ?s4) error)
          [E_call Sys_socket (Inr sock), E_call (Sys_setsockopt sock SO_REUSEADDR) (Inr 0),
            E_call (Sys_bind sock INADDR_ANY port) (Inr 0), E_call (Sys_listen sock backlog) r4,
            E_call (Sys_close sock) r']"
        using listen_failedI [OF sock(2) 3(3), of "[Sys_setsockopt sock SO_REUSEADDR,
          Sys_bind sock INADDR_ANY port]" "Sys_listen sock backlog" port backlog] by simp
      ultimately show ?thesis using sock 3(1,2)
        by (intro exI [of _ "[E_call Sys_socket r1, E_call (Sys_setsockopt ?fd SO_REUSEADDR) r2,
            E_call (Sys_bind ?fd INADDR_ANY port) r3, E_call (Sys_listen ?fd backlog) r4,
            E_call (Sys_close ?fd) r']"]) (simp add: extends_def only_valid_def c_int_zero)
    next
      case 4
      then have "listen_tcp K port backlog error s = ((?fd, error), ?s4)" by (simp add: unfold)
      from trans [OF sym [OF run] this] have res: "fd = ?fd" "error' = error" "s' = ?s4"
        by (simp_all only: prod.inject)
      with sock 4 show ?thesis by (simp add: extends_def c_int_zero only_valid_def)
    qed
  qed
qed

text \<open>C39: listen_tcp either returns a valid descriptor, having made exactly the four calls
  socket, setsockopt(SO_REUSEADDR), bind to the given port on any address and listen with the
  given backlog, all of them successful, with *error untouched; or it returns -1, and then either
  socket failed and nothing else was called, or the socket was created, one of the other three
  calls failed after those before it in this order had succeeded, and the last call closes that
  socket, once. In both failures *error (unless null) is the name of the call that failed, a
  colon, and the message of its errno.\<close>

theorem listen_tcp_result:
  assumes run: "listen_tcp K port backlog error s = ((fd, error'), s')"
  shows "\<exists>evs. trace s' = trace s @ evs \<and>
    (if 0 \<le> fd then error' = error \<and>
       evs = [E_call Sys_socket (Inr fd), E_call (Sys_setsockopt fd SO_REUSEADDR) (Inr 0),
         E_call (Sys_bind fd INADDR_ANY port) (Inr 0), E_call (Sys_listen fd backlog) (Inr 0)]
     else fd = -1 \<and> listen_failed K port backlog error error' evs) \<and>
    opens evs = closes evs @ only_valid fd"
  using listen_tcp_extends [OF run] by (auto simp: extends_def)

text \<open>The port is taken: \<open>bind\<close> fails with \<open>EADDRINUSE\<close>. The theorem leaves one message and one
  sequence of calls.\<close>

lemma listen_tcp_result_witness:
  "\<exists>error' s' q e. listen_tcp scripted 9000 1024 (Some []) (fresh_os
      [A_int 3, A_int 0, A_fail 98, A_int 0]) = ((-1, error'), s') \<and>
    trace s' = [E_call Sys_socket (Inr 3), E_call (Sys_setsockopt 3 SO_REUSEADDR) (Inr 0),
      E_call (Sys_bind 3 INADDR_ANY 9000) (Inl e), E_call (Sys_close 3) q] \<and>
    error' = Some ''bind: error''"
proof -
  let ?s = "fresh_os [A_int 3, A_int 0, A_fail 98, A_int 0]"
  obtain error' s' where run: "listen_tcp scripted 9000 1024 (Some []) ?s = ((-1, error'), s')"
    and tr: "length (trace s') = 4" "trace s' ! 0 = E_call Sys_socket (Inr 3)"
      "trace s' ! 2 = E_call (Sys_bind 3 INADDR_ANY 9000) (Inl 98)"
    by (auto simp: listen_tcp_def Socket_valid_def run_simps Socket_destroy_def Socket_reset_def)
  from listen_tcp_result [OF run] have "listen_failed scripted 9000 1024 (Some []) error' (trace s')"
    by simp
  then show ?thesis
    unfolding listen_failed_def
  proof (elim disjE exE conjE)
    fix r assume "trace s' = [E_call Sys_socket r]"
    with tr(1) show ?thesis by simp
  next
    fix sock before c r r'
    assume a: "prefix (before @ [c])
        [Sys_setsockopt sock SO_REUSEADDR, Sys_bind sock INADDR_ANY 9000, Sys_listen sock 1024]"
      "trace s' = E_call Sys_socket (Inr sock) # map (\<lambda>c. E_call c (Inr 0)) before @
        [E_call c r, E_call (Sys_close sock) r']"
      "reports scripted (call_name c) r (Some []) error'"
    from a(2) tr(1,2) have "length before = 1" and sock: "sock = 3" by simp_all
    then obtain b where b: "before = [b]" by (auto simp: length_Suc_conv)
    with a(1) sock have c: "b = Sys_setsockopt 3 SO_REUSEADDR" "c = Sys_bind 3 INADDR_ANY 9000" by auto
    with a(2) b sock tr(3) have tr': "trace s' = [E_call Sys_socket (Inr 3),
        E_call (Sys_setsockopt 3 SO_REUSEADDR) (Inr 0),
        E_call (Sys_bind 3 INADDR_ANY 9000) (Inl 98), E_call (Sys_close 3) r']" "r = Inl 98" by simp_all
    with a(3) c have "error' = Some ''bind: error''" by (simp add: reports_def)
    with run tr'(1) show ?thesis by blast
  qed
qed

text \<open>The other calls, by what they opened and closed.\<close>

definition opened_closed :: "int list \<Rightarrow> int list \<Rightarrow> 'w os \<Rightarrow> 'w os \<Rightarrow> bool" where
  "opened_closed op cl s s' \<longleftrightarrow> (\<exists>evs. extends evs s s' \<and> opens evs = op \<and> closes evs = cl)"

lemma opened_closed_refl [simp]: "opened_closed [] [] s s"
  by (auto simp: opened_closed_def intro: exI [of _ "[]"])

lemma opened_closed_trans:
  assumes "opened_closed op cl s s1" and "opened_closed op' cl' s1 s2"
  shows "opened_closed (op @ op') (cl @ cl') s s2"
proof -
  from assms obtain evs evs' where
    "extends evs s s1 \<and> opens evs = op \<and> closes evs = cl"
    "extends evs' s1 s2 \<and> opens evs' = op' \<and> closes evs' = cl'"
    by (auto simp: opened_closed_def)
  then show ?thesis
    by (auto simp: opened_closed_def intro!: exI [of _ "evs @ evs'"] intro: extends_trans)
qed

text \<open>The calls of a start that succeeds: a socket that listens, and a descriptor for signals.\<close>

definition startup :: "16 word \<Rightarrow> int \<Rightarrow> int \<Rightarrow> int \<Rightarrow> event list" where
  "startup port backlog lis sig =
     [E_call Sys_socket (Inr lis), E_call (Sys_setsockopt lis SO_REUSEADDR) (Inr 0),
      E_call (Sys_bind lis INADDR_ANY port) (Inr 0), E_call (Sys_listen lis backlog) (Inr 0),
      E_call (Sys_sigprocmask [SIGINT, SIGTERM]) (Inr 0),
      E_call (Sys_signalfd [SIGINT, SIGTERM] [SFD_NONBLOCK, SFD_CLOEXEC]) (Inr sig)]"

lemma startup_fds:
  "opens (startup port backlog lis sig) = only_valid lis @ only_valid sig"
  "closes (startup port backlog lis sig) = []"
  by (simp_all add: startup_def)

lemma signal_fd_valid:
  assumes "signal_fd K error s = ((fd, error'), s')" and "0 \<le> fd"
  shows "error' = error \<and> extends [E_call (Sys_sigprocmask [SIGINT, SIGTERM]) (Inr 0),
    E_call (Sys_signalfd [SIGINT, SIGTERM] [SFD_NONBLOCK, SFD_CLOEXEC]) (Inr fd)] s s'"
  using assms
  by (auto simp: signal_fd_def Let_def Socket_valid_def extends_def c_int_zero c_int_pos
      dest!: call_trace split: prod.splits if_splits)

lemma startup_extends:
  assumes "listen_tcp K port backlog error s = ((lis, error1), s1)" and "0 \<le> lis"
    and "signal_fd K error1' s1 = ((sig, error2), s2)" and "0 \<le> sig"
  shows "extends (startup port backlog lis sig) s s2"
  using listen_tcp_extends [OF assms(1)] assms(2) signal_fd_valid [OF assms(3,4)]
  by (auto simp: startup_def extends_def)

lemma signal_fd_opened:
  "signal_fd K error s = ((fd, error'), s') \<Longrightarrow> opened_closed (only_valid fd) [] s s'"
  by (auto simp: signal_fd_def opened_closed_def extends_def only_valid_def Let_def dest!: call_trace
      split: prod.splits if_splits)

lemma set_nonblocking_opened:
  "set_nonblocking K fd s = (ok, s') \<Longrightarrow> opened_closed [] [] s s'"
  by (auto simp: set_nonblocking_def opened_closed_def extends_def dest!: call_trace
      split: prod.splits if_splits)

lemma listen_tcp_opened:
  assumes "listen_tcp K port backlog error s = ((fd, error'), s')"
  shows "\<exists>cl. opened_closed (cl @ only_valid fd) cl s s' \<and> (0 \<le> fd \<longrightarrow> cl = [])"
proof -
  from listen_tcp_extends [OF assms] obtain evs where
    evs: "extends evs s s'" "opens evs = closes evs @ only_valid fd"
    and ok: "0 \<le> fd \<longrightarrow> evs = [E_call Sys_socket (Inr fd),
      E_call (Sys_setsockopt fd SO_REUSEADDR) (Inr 0),
      E_call (Sys_bind fd INADDR_ANY port) (Inr 0), E_call (Sys_listen fd backlog) (Inr 0)]"
    by auto
  have "0 \<le> fd \<longrightarrow> closes evs = []" using ok by auto
  with evs show ?thesis by (auto simp: opened_closed_def)
qed

lemma Socket_destroy_closed:
  "opened_closed [] (only_valid fd) s (Socket_destroy K fd s)"
proof (cases "0 \<le> fd")
  case True
  then show ?thesis
    by (cases "call K (Sys_close fd) s")
       (auto simp: Socket_destroy_def Socket_reset_def opened_closed_def only_valid_def
         dest!: call_extends)
qed (simp add: only_valid_def)

end
