(* ===== verification/Ev_Server.thy ===== *)
theory Ev_Server
  imports Ev_Socket Numbers
begin

section \<open>evserver: counters, configuration and the choice of a backend\<close>

text \<open>
  Models \<open>evserver/include/ev/stats.hpp\<close>, \<open>evserver/include/ev/server.hpp\<close>,
  \<open>evserver/src/server.cpp\<close> and the option parsing of \<open>evserver/src/main.cpp\<close>. A counter is
  a 64-bit word, so it wraps. It then states what an echo server is, as a monitor over traces
  that the backends are proved to satisfy.
\<close>

subsection \<open>Counters\<close>

record Stats =
  accepted :: "64 word"
  closed :: "64 word"
  requests :: "64 word"
  bytes :: "64 word"
  read_calls :: "64 word"
  write_calls :: "64 word"
  wait_calls :: "64 word"
  eagain :: "64 word"
  threads_spawned :: "64 word"
  syscalls :: "64 word"

record StatsSnapshot =
  sn_accepted :: "64 word"
  sn_closed :: "64 word"
  sn_requests :: "64 word"
  sn_bytes :: "64 word"
  sn_read_calls :: "64 word"
  sn_write_calls :: "64 word"
  sn_wait_calls :: "64 word"
  sn_eagain :: "64 word"
  sn_threads_spawned :: "64 word"
  sn_syscalls :: "64 word"

definition Stats_init :: Stats where
  "Stats_init = \<lparr>accepted = 0, closed = 0, requests = 0, bytes = 0, read_calls = 0,
     write_calls = 0, wait_calls = 0, eagain = 0, threads_spawned = 0, syscalls = 0\<rparr>"

definition bump :: "64 word \<Rightarrow> 64 word \<Rightarrow> 64 word" where
  "bump by_n counter = counter + by_n"

lemma bump_simps [simp]:
  "accepted_update (bump k) st = st\<lparr>accepted := accepted st + k\<rparr>"
  "closed_update (bump k) st = st\<lparr>closed := closed st + k\<rparr>"
  "requests_update (bump k) st = st\<lparr>requests := requests st + k\<rparr>"
  "bytes_update (bump k) st = st\<lparr>bytes := bytes st + k\<rparr>"
  "read_calls_update (bump k) st = st\<lparr>read_calls := read_calls st + k\<rparr>"
  "write_calls_update (bump k) st = st\<lparr>write_calls := write_calls st + k\<rparr>"
  "wait_calls_update (bump k) st = st\<lparr>wait_calls := wait_calls st + k\<rparr>"
  "eagain_update (bump k) st = st\<lparr>eagain := eagain st + k\<rparr>"
  "threads_spawned_update (bump k) st = st\<lparr>threads_spawned := threads_spawned st + k\<rparr>"
  "syscalls_update (bump k) st = st\<lparr>syscalls := syscalls st + k\<rparr>"
  by (simp_all add: bump_def [abs_def])

definition snapshot :: "Stats \<Rightarrow> StatsSnapshot" where
  "snapshot st = \<lparr>sn_accepted = accepted st, sn_closed = closed st, sn_requests = requests st,
     sn_bytes = bytes st, sn_read_calls = read_calls st, sn_write_calls = write_calls st,
     sn_wait_calls = wait_calls st, sn_eagain = eagain st,
     sn_threads_spawned = threads_spawned st, sn_syscalls = syscalls st\<rparr>"

subsection \<open>Configuration\<close>

datatype Backend = ThreadPerConnection | EpollLevel | EpollEdge | IoUring

record Config =
  backend :: Backend
  port :: "16 word"
  max_events :: int
  buffer_size :: nat

definition Config_init :: Config where
  "Config_init = \<lparr>backend = EpollLevel, port = 9000, max_events = 256, buffer_size = 4096\<rparr>"

text \<open>\<open>make_server\<close> chooses the class that runs a configuration.\<close>

datatype Server = ThreadServer Config | EpollServer Config | UringServer Config

fun make_server :: "Config \<Rightarrow> Server" where
  "make_server cfg = (case backend cfg of
     ThreadPerConnection \<Rightarrow> ThreadServer cfg
   | EpollLevel \<Rightarrow> EpollServer cfg
   | EpollEdge \<Rightarrow> EpollServer cfg
   | IoUring \<Rightarrow> UringServer cfg)"

fun backend_name :: "Backend \<Rightarrow> string" where
  "backend_name ThreadPerConnection = ''thread-per-connection''"
| "backend_name EpollLevel = ''epoll (level-triggered)''"
| "backend_name EpollEdge = ''epoll (edge-triggered)''"
| "backend_name IoUring = ''io_uring''"

text \<open>\<open>None\<close> is the result \<open>false\<close>, which leaves \<open>*out\<close> alone.\<close>

definition parse_backend :: "string \<Rightarrow> Backend option" where
  "parse_backend tx =
     (if tx = ''threads'' then Some ThreadPerConnection
      else if tx = ''epoll'' then Some EpollLevel
      else if tx = ''epoll-et'' then Some EpollEdge
      else if tx = ''uring'' then Some IoUring
      else None)"

subsection \<open>Options\<close>

definition usage :: string where
  "usage =
     ''evserver - the same TCP echo server written four ways'' @ newline @ newline @
     ''Usage:'' @ newline @
     ''  evserver [--backend=threads|epoll|epoll-et|uring] [--port=N] [--buffer=N] [--max-events=N]''
       @ newline @ newline @
     ''Backends:'' @ newline @
     ''  threads    one blocking thread per connection (the baseline epoll replaced)'' @ newline @
     ''  epoll      epoll, level-triggered (default)'' @ newline @
     ''  epoll-et   epoll, edge-triggered - drains each socket until EAGAIN'' @ newline @
     ''  uring      io_uring: operations batched into a shared ring, one kernel entry''
       @ newline @ newline @
     ''Stop with Ctrl-C: SIGINT arrives through a signalfd inside the event loop,'' @ newline @
     ''so shutdown is part of the normal flow rather than an async handler.'' @ newline @ newline @
     ''Counters are printed on exit. Compare them across backends with bench/loadgen.'' @ newline"

text \<open>The loop ends with an exit status, with the configuration, or with an exception.\<close>

fun parse_args :: "string list \<Rightarrow> Config \<Rightarrow> 'w os \<Rightarrow> (int + Config) cpp \<times> 'w os" where
  "parse_args [] cfg s = (Inr (Inr cfg), s)"
| "parse_args (arg # args) cfg s =
     (if arg = ''-h'' \<or> arg = ''--help'' then (Inr (Inl 0), put_out usage s)
      else if prefix ''--backend='' arg then
        (case parse_backend (drop 10 arg) of
           None \<Rightarrow> (Inr (Inl 2), put_err (''Unknown backend: '' @ drop 10 arg @ newline) s)
         | Some b \<Rightarrow> parse_args args (cfg\<lparr>backend := b\<rparr>) s)
      else if prefix ''--port='' arg then
        (case stoi (drop 7 arg) of
           Inl e \<Rightarrow> (Inl e, s)
         | Inr n \<Rightarrow> parse_args args (cfg\<lparr>port := word_of_int n\<rparr>) s)
      else if prefix ''--buffer='' arg then
        (case stoul (drop 9 arg) of
           Inl e \<Rightarrow> (Inl e, s)
         | Inr n \<Rightarrow> parse_args args (cfg\<lparr>buffer_size := n\<rparr>) s)
      else if prefix ''--max-events='' arg then
        (case stoi (drop 13 arg) of
           Inl e \<Rightarrow> (Inl e, s)
         | Inr n \<Rightarrow> parse_args args (cfg\<lparr>max_events := n\<rparr>) s)
      else (Inr (Inl 2),
        put_out usage (put_err (''Unknown option: '' @ arg @ newline @ newline) s)))"

text \<open>A command line that spells out a configuration.\<close>

fun backend_flag :: "Backend \<Rightarrow> string" where
  "backend_flag ThreadPerConnection = ''threads''"
| "backend_flag EpollLevel = ''epoll''"
| "backend_flag EpollEdge = ''epoll-et''"
| "backend_flag IoUring = ''uring''"

definition config_args :: "Config \<Rightarrow> string list" where
  "config_args cfg =
     [''--backend='' @ backend_flag (backend cfg), ''--port='' @ to_string (uint (port cfg)),
      ''--buffer='' @ to_string (int (buffer_size cfg)),
      ''--max-events='' @ to_string (max_events cfg)]"

lemma parse_backend_flag: "parse_backend (backend_flag b) = Some b"
  by (cases b) (simp_all add: parse_backend_def)

lemma stoul_to_string [numbers]: "n \<le> ull_max \<Longrightarrow> stoul (to_string (int n)) = Inr n"
  using strto_subject_to_string [of "[]" "int n"] by (simp add: stoul_def value_of_digits)

text \<open>C40: Options round trip: the command line that spells out a configuration (any backend,
  port and integer number of events, any buffer size that fits 64 bits) is parsed to exactly
  that configuration, whatever the defaults were, with nothing printed.\<close>

theorem parse_args_roundtrip:
  assumes "int_range (max_events cfg)" and "buffer_size cfg \<le> ull_max"
  shows "parse_args (config_args cfg) cfg0 s = (Inr (Inr cfg), s)"
proof -
  have "uint (port cfg) < 2 ^ 16"
    using uint_lt2p [of "port cfg"] by simp
  then have "int_range (uint (port cfg))"
    by (simp add: int_range_def order_trans [OF _ uint_ge_0])
  with assms show ?thesis
    by (simp add: config_args_def parse_backend_flag stoi_to_string stoul_to_string)
qed

lemma parse_args_roundtrip_witness:
  "parse_args (config_args (Config_init\<lparr>backend := IoUring, port := 65535\<rparr>)) Config_init (fresh_os [])
     = (Inr (Inr (Config_init\<lparr>backend := IoUring, port := 65535\<rparr>)), fresh_os [])"
  by (rule parse_args_roundtrip) (simp_all add: Config_init_def int_range_def ull_max_def)

text \<open>What \<open>--port\<close> does with a number: one that fits an int is reduced modulo 65536
  without a diagnostic (70000 listens on port 4464), one that does not is an uncaught
  \<open>std::out_of_range\<close>.\<close>

lemma port_option:
  "parse_args [''--port='' @ to_string n] cfg s =
     (if int_range n then Inr (Inr (cfg\<lparr>port := word_of_int n\<rparr>)) else Inl Out_Of_Range, s)"
  by (simp add: stoi_to_string)

subsection \<open>The members of a server\<close>

text \<open>
  The members that the backends have in common; \<open>running_\<close> starts as \<open>true\<close>. Each
  backend extends the record with its own members.
\<close>

record server_state =
  cfg :: Config
  listener :: int
  signal :: int
  stats :: Stats
  running :: bool

end
