(* ===== verification/Ev_Echo.thy ===== *)
theory Ev_Echo
  imports Ev_Server
begin

section \<open>evserver: what an echo server promises\<close>

text \<open>
  The abstract specification that the backends are proved against, in two parts. A monitor
  reads a trace and keeps, for each descriptor, the bytes that were read and not yet written
  back; it rejects a read while an echo is pending and a write that offers anything but
  exactly the pending bytes; a close forgets them. A tally recomputes the counters from the
  trace. The signal descriptor \<open>sig\<close> is not a connection.
\<close>

subsection \<open>The echo monitor\<close>

fun echo_event :: "int \<Rightarrow> event \<Rightarrow> (int \<Rightarrow> string) \<Rightarrow> (int \<Rightarrow> string) option" where
  "echo_event sig (E_read fd n r) p =
     (if fd = sig then Some p
      else case r of
        Inl e \<Rightarrow> Some p
      | Inr d \<Rightarrow> if p fd = [] then Some (p(fd := d)) else None)"
| "echo_event sig (E_write fd d r) p =
     (if d \<noteq> [] \<and> d = p fd then
        Some (case r of Inl e \<Rightarrow> p | Inr k \<Rightarrow> p(fd := drop k d))
      else None)"
| "echo_event sig (E_call (Sys_close fd) r) p = Some (p(fd := []))"
| "echo_event sig _ p = Some p"

fun echo_run :: "int \<Rightarrow> event list \<Rightarrow> (int \<Rightarrow> string) \<Rightarrow> (int \<Rightarrow> string) option" where
  "echo_run sig [] p = Some p"
| "echo_run sig (ev # evs) p = Option.bind (echo_event sig ev p) (echo_run sig evs)"

text \<open>Nothing is pending anywhere.\<close>

abbreviation idle :: "int \<Rightarrow> string" where
  "idle \<equiv> \<lambda>_. []"

lemma idle_close: "idle(fd := []) = idle"
  by (simp add: fun_upd_idem)

lemma echo_run_append:
  "echo_run sig (evs @ evs') p = Option.bind (echo_run sig evs p) (echo_run sig evs')"
  by (induction evs arbitrary: p) (auto split: bind_split)

text \<open>The bytes that events read from, and got accepted on, a descriptor.\<close>

fun taken :: "int \<Rightarrow> event \<Rightarrow> string" where
  "taken fd (E_read fd' n r) = (if fd' = fd then (case r of Inl _ \<Rightarrow> [] | Inr d \<Rightarrow> d) else [])"
| "taken fd _ = []"

fun given :: "int \<Rightarrow> event \<Rightarrow> string" where
  "given fd (E_write fd' d r) =
     (if fd' = fd then (case r of Inl _ \<Rightarrow> [] | Inr k \<Rightarrow> take k d) else [])"
| "given fd _ = []"

definition bytes_in :: "int \<Rightarrow> event list \<Rightarrow> string" where
  "bytes_in fd evs = concat (map (taken fd) evs)"

definition bytes_out :: "int \<Rightarrow> event list \<Rightarrow> string" where
  "bytes_out fd evs = concat (map (given fd) evs)"

lemma bytes_simps [simp]:
  "bytes_in fd [] = []" "bytes_in fd (evs @ evs') = bytes_in fd evs @ bytes_in fd evs'"
  "bytes_out fd [] = []" "bytes_out fd (evs @ evs') = bytes_out fd evs @ bytes_out fd evs'"
  "bytes_in fd (ev # evs) = taken fd ev @ bytes_in fd evs"
  "bytes_out fd (ev # evs) = given fd ev @ bytes_out fd evs"
  by (simp_all add: bytes_in_def bytes_out_def)

lemma echo_event_balance:
  assumes "echo_event sig ev p = Some p'" "fd \<noteq> sig" "closed_fd ev \<noteq> Some fd"
  shows "p fd @ taken fd ev = given fd ev @ p' fd"
proof (cases ev)
  case (E_call c r)
  with assms show ?thesis by (cases c) auto
next
  case (E_read fd' n r)
  with assms show ?thesis by (auto split: sum.splits if_splits)
next
  case (E_write fd' d r)
  with assms show ?thesis by (auto split: sum.splits if_splits)
qed (use assms in auto)

text \<open>
  What acceptance by the monitor means: while a connection stays open, what was sent back
  followed by what is pending is what was pending followed by what was received. In
  particular the output is a prefix of the input.
\<close>

lemma echo_run_balance:
  "echo_run sig evs p = Some p' \<Longrightarrow> fd \<noteq> sig \<Longrightarrow> fd \<notin> set (closes evs) \<Longrightarrow>
    p fd @ bytes_in fd evs = bytes_out fd evs @ p' fd"
proof (induction evs arbitrary: p)
  case Nil
  then show ?case by simp
next
  case (Cons ev evs)
  then obtain q where q: "echo_event sig ev p = Some q" "echo_run sig evs q = Some p'"
    by (auto simp: bind_eq_Some_conv)
  from Cons.prems have open_ev: "closed_fd ev \<noteq> Some fd" and "fd \<notin> set (closes evs)"
    by auto
  with Cons q have "q fd @ bytes_in fd evs = bytes_out fd evs @ p' fd"
    by simp
  moreover have "p fd @ taken fd ev = given fd ev @ q fd"
    using q(1) Cons.prems(2) open_ev by (rule echo_event_balance)
  ultimately have "(p fd @ taken fd ev) @ bytes_in fd evs = given fd ev @ bytes_out fd evs @ p' fd"
    by (simp only: append.assoc)
  then show ?case by (simp only: append.assoc bytes_simps)
qed

text \<open>Every prefix of an accepted trace is accepted.\<close>

lemma echo_run_prefix:
  "echo_run sig (evs @ evs') p = Some p' \<Longrightarrow> \<exists>q. echo_run sig evs p = Some q"
  by (auto simp: echo_run_append bind_eq_Some_conv)

subsection \<open>The tally\<close>

fun tally_event :: "int \<Rightarrow> event \<Rightarrow> Stats \<Rightarrow> Stats" where
  "tally_event sig (E_wait fd n r) st =
     st\<lparr>wait_calls := wait_calls st + 1, syscalls := syscalls st + 1\<rparr>"
| "tally_event sig (E_read fd n r) st =
     (if fd = sig then st
      else let st = st\<lparr>read_calls := read_calls st + 1, syscalls := syscalls st + 1\<rparr> in
        case r of
          Inl e \<Rightarrow> if e = EAGAIN then st\<lparr>eagain := eagain st + 1\<rparr> else st
        | Inr d \<Rightarrow> if d = [] then st
            else st\<lparr>requests := requests st + 1, bytes := bytes st + of_nat (length d)\<rparr>)"
| "tally_event sig (E_write fd d r) st =
     st\<lparr>write_calls := write_calls st + 1, syscalls := syscalls st + 1\<rparr>"
| "tally_event sig (E_call (Sys_epoll_add ep fd fl) r) st =
     (if r = Inr 0 then st\<lparr>accepted := accepted st + 1\<rparr> else st)"
| "tally_event sig (E_call (Sys_epoll_del ep fd) r) st = st\<lparr>closed := closed st + 1\<rparr>"
| "tally_event sig _ st = st"

definition tally :: "int \<Rightarrow> event list \<Rightarrow> Stats \<Rightarrow> Stats" where
  "tally sig evs st = fold (tally_event sig) evs st"

lemma tally_simps [simp]:
  "tally sig [] st = st"
  "tally sig (ev # evs) st = tally sig evs (tally_event sig ev st)"
  "tally sig (evs @ evs') st = tally sig evs' (tally sig evs st)"
  by (simp_all add: tally_def)

text \<open>The count of kernel entries is the sum of the three kinds of calls.\<close>

definition uncounted :: "Stats \<Rightarrow> 64 word" where
  "uncounted st = syscalls st - (read_calls st + write_calls st + wait_calls st)"

lemma uncounted_zero:
  "uncounted st = 0 \<longleftrightarrow> syscalls st = read_calls st + write_calls st + wait_calls st"
  "uncounted Stats_init = 0"
  by (simp_all add: uncounted_def Stats_init_def)

lemma uncounted_tally: "uncounted (tally sig evs st) = uncounted st"
proof (induction evs arbitrary: st)
  case Nil
  then show ?case by simp
next
  case (Cons ev evs)
  have "uncounted (tally_event sig ev st) = uncounted st"
  proof (cases ev)
    case (E_call c r)
    then show ?thesis by (cases c) (auto simp: uncounted_def)
  qed (auto simp: Let_def uncounted_def split: sum.splits)
  with Cons.IH [of "tally_event sig ev st"] show ?case by simp
qed

end
