(* ===== verification/Ev_Epoll.thy ===== *)
theory Ev_Epoll
  imports Ev_Echo
begin

section \<open>evserver: the epoll backend\<close>

text \<open>
  Models \<open>evserver/src/server_epoll.cpp\<close>: the class \<open>EpollServer\<close>, level- and
  edge-triggered. A member function takes the server and the operating system state and
  returns both; the loops that need not end (a write that is never accepted, a connection
  that never runs dry, the event loop itself) are partial functions, \<open>None\<close> being "does not
  return". The buffer is only ever read where the last \<open>read\<close> filled it, so it is the list
  of those bytes.
\<close>

subsection \<open>The server\<close>

record epoll_server = server_state +
  epoll :: int

definition EpollServer_init :: "Config \<Rightarrow> epoll_server cpp" where
  "EpollServer_init c =
     (if \<not> vector_length_ok 1 (buffer_size c) then Inl Length_Error
      else Inr \<lparr>cfg = c, listener = -1, signal = -1, stats = Stats_init, running = True,
        epoll = -1\<rparr>)"

definition edge_triggered :: "epoll_server \<Rightarrow> bool" where
  "edge_triggered sv \<longleftrightarrow> backend (cfg sv) = EpollEdge"

definition add_to_epoll ::
  "'w kernel \<Rightarrow> epoll_server \<Rightarrow> int \<Rightarrow> flag list \<Rightarrow> string option \<Rightarrow> 'w os
    \<Rightarrow> (bool \<times> string option) \<times> 'w os" where
  "add_to_epoll K sv fd events error s =
     (let (r, s) = call K (Sys_epoll_add (epoll sv) fd events) s in
      if r \<noteq> 0 then ((False, set_error (errno_message K ''epoll_ctl(ADD)'' s) error), s)
      else ((True, error), s))"

definition start ::
  "'w kernel \<Rightarrow> epoll_server \<Rightarrow> string option \<Rightarrow> 'w os
    \<Rightarrow> (bool \<times> string option) \<times> epoll_server \<times> 'w os" where
  "start K sv error s =
     (let ((fd, error), s) = listen_tcp K (port (cfg sv)) 1024 error s;
          (fd, s) = Socket_reset K (listener sv) fd s; sv = sv\<lparr>listener := fd\<rparr> in
      if \<not> Socket_valid (listener sv) then ((False, error), sv, s)
      else let (ok, s) = set_nonblocking K (listener sv) s in
      if \<not> ok then ((False, set_error ''set_nonblocking(listener) failed'' error), sv, s)
      else let ((fd, error), s) = signal_fd K error s;
          (fd, s) = Socket_reset K (signal sv) fd s; sv = sv\<lparr>signal := fd\<rparr> in
      if \<not> Socket_valid (signal sv) then ((False, error), sv, s)
      else let (fd, s) = call K (Sys_epoll_create1 EPOLL_CLOEXEC) s;
          (fd, s) = Socket_reset K (epoll sv) fd s; sv = sv\<lparr>epoll := fd\<rparr> in
      if \<not> Socket_valid (epoll sv) then
        ((False, set_error (errno_message K ''epoll_create1'' s) error), sv, s)
      else let ((ok, error), s) = add_to_epoll K sv (listener sv) [EPOLLIN] error s in
      if \<not> ok then ((False, error), sv, s)
      else let ((ok, error), s) = add_to_epoll K sv (signal sv) [EPOLLIN] error s in
      ((ok, error), sv, s))"

text \<open>The members are destroyed in the reverse order of their declaration.\<close>

definition EpollServer_destroy :: "'w kernel \<Rightarrow> epoll_server \<Rightarrow> 'w os \<Rightarrow> 'w os" where
  "EpollServer_destroy K sv s =
     Socket_destroy K (listener sv) (Socket_destroy K (signal sv) (Socket_destroy K (epoll sv) s))"

subsection \<open>The handlers\<close>

text \<open>\<open>sizeof(signalfd_siginfo)\<close> is 128.\<close>

partial_function (option) drain_signal ::
  "'w kernel \<Rightarrow> epoll_server \<Rightarrow> 'w os \<Rightarrow> (epoll_server \<times> 'w os) option" where
  "drain_signal K sv s =
     (let ((n, info), s) = sys_read K (signal sv) 128 s in
      if n = 128 then drain_signal K (sv\<lparr>running := False\<rparr>) s else Some (sv, s))"

partial_function (option) accept_connections ::
  "'w kernel \<Rightarrow> epoll_server \<Rightarrow> 'w os \<Rightarrow> (epoll_server \<times> 'w os) option" where
  "accept_connections K sv s =
     (let (fd, s) = call K (Sys_accept4 (listener sv) [SOCK_NONBLOCK, SOCK_CLOEXEC]) s in
      if fd < 0 then
        if errno s = EAGAIN then Some (sv, s)
        else if errno s = EINTR then accept_connections K sv s
        else Some (sv, s)
      else let (_, s) = set_nodelay K fd s;
          flags = (if edge_triggered sv then [EPOLLIN, EPOLLET] else [EPOLLIN]);
          ((ok, _), s) = add_to_epoll K sv fd flags None s in
      if \<not> ok then let (_, s) = call K (Sys_close fd) s in accept_connections K sv s
      else accept_connections K (sv\<lparr>stats := accepted_update (bump 1) (stats sv)\<rparr>) s)"

definition close_connection ::
  "'w kernel \<Rightarrow> epoll_server \<Rightarrow> int \<Rightarrow> 'w os \<Rightarrow> epoll_server \<times> 'w os" where
  "close_connection K sv fd s =
     (let (_, s) = call K (Sys_epoll_del (epoll sv) fd) s; (_, s) = call K (Sys_close fd) s in
      (sv\<lparr>stats := closed_update (bump 1) (stats sv)\<rparr>, s))"

partial_function (option) write_all ::
  "'w kernel \<Rightarrow> epoll_server \<Rightarrow> int \<Rightarrow> string \<Rightarrow> nat \<Rightarrow> 'w os
    \<Rightarrow> (bool \<times> epoll_server \<times> 'w os) option" where
  "write_all K sv fd data written s =
     (if written < length data then
        let (n, s) = sys_write K fd (drop written data) s;
            sv = sv\<lparr>stats := write_calls_update (bump 1) (stats sv)\<rparr>;
            sv = sv\<lparr>stats := syscalls_update (bump 1) (stats sv)\<rparr> in
        if n > 0 then write_all K sv fd data (written + nat n) s
        else if n < 0 \<and> errno s = EAGAIN then write_all K sv fd data written s
        else if n < 0 \<and> errno s = EINTR then write_all K sv fd data written s
        else Some (False, sv, s)
      else Some (True, sv, s))"

text \<open>The loop of \<open>handle_connection\<close>, entered when neither error flag is set.\<close>

partial_function (option) handle_loop ::
  "'w kernel \<Rightarrow> epoll_server \<Rightarrow> int \<Rightarrow> 'w os \<Rightarrow> (epoll_server \<times> 'w os) option" where
  "handle_loop K sv fd s =
     (let ((n, buffer), s) = sys_read K fd (buffer_size (cfg sv)) s;
          sv = sv\<lparr>stats := read_calls_update (bump 1) (stats sv)\<rparr>;
          sv = sv\<lparr>stats := syscalls_update (bump 1) (stats sv)\<rparr> in
      if n > 0 then
        let sv = sv\<lparr>stats := requests_update (bump 1) (stats sv)\<rparr>;
            sv = sv\<lparr>stats := bytes_update (bump (of_int n)) (stats sv)\<rparr> in
        do {
          (ok, sv, s) \<leftarrow> write_all K sv fd buffer 0 s;
          if \<not> ok then Some (close_connection K sv fd s)
          else if \<not> edge_triggered sv then Some (sv, s)
          else handle_loop K sv fd s
        }
      else if n = 0 then Some (close_connection K sv fd s)
      else if errno s = EAGAIN then
        Some (sv\<lparr>stats := eagain_update (bump 1) (stats sv)\<rparr>, s)
      else if errno s = EINTR then handle_loop K sv fd s
      else Some (close_connection K sv fd s))"

definition handle_connection ::
  "'w kernel \<Rightarrow> epoll_server \<Rightarrow> int \<Rightarrow> flag list \<Rightarrow> 'w os \<Rightarrow> (epoll_server \<times> 'w os) option" where
  "handle_connection K sv fd events s =
     (if EPOLLHUP \<in> set events \<or> EPOLLERR \<in> set events then Some (close_connection K sv fd s)
      else handle_loop K sv fd s)"

subsection \<open>The event loop\<close>

fun dispatch ::
  "'w kernel \<Rightarrow> epoll_server \<Rightarrow> (int \<times> flag list) list \<Rightarrow> 'w os \<Rightarrow> (epoll_server \<times> 'w os) option"
where
  "dispatch K sv [] s = Some (sv, s)"
| "dispatch K sv ((fd, events) # rest) s =
     do {
       (sv, s) \<leftarrow>
         (if fd = signal sv then drain_signal K sv s
          else if fd = listener sv then accept_connections K sv s
          else handle_connection K sv fd events s);
       dispatch K sv rest s
     }"

partial_function (option) event_loop ::
  "'w kernel \<Rightarrow> epoll_server \<Rightarrow> 'w os \<Rightarrow> (epoll_server \<times> 'w os) option" where
  "event_loop K sv s =
     (if running sv then
        let ((n, events), s) = sys_wait K (epoll sv) (nat (max_events (cfg sv))) s;
            sv = sv\<lparr>stats := wait_calls_update (bump 1) (stats sv)\<rparr>;
            sv = sv\<lparr>stats := syscalls_update (bump 1) (stats sv)\<rparr> in
        if n < 0 then
          if errno s = EINTR then event_loop K sv s else Some (sv, s)
        else do {
          (sv, s) \<leftarrow> dispatch K sv events s;
          event_loop K sv s
        }
      else Some (sv, s))"

text \<open>
  \<open>run\<close> first allocates the event array: a negative \<open>max_events\<close> converts to a \<open>size_t\<close>
  beyond \<open>max_size()\<close>.
\<close>

definition run :: "'w kernel \<Rightarrow> epoll_server \<Rightarrow> 'w os \<Rightarrow> (epoll_server \<times> 'w os) cpp option" where
  "run K sv s =
     (if max_events (cfg sv) < 0 then Some (Inl Length_Error)
      else map_option Inr (event_loop K sv s))"

subsection \<open>Every handler refines the echo specification\<close>

text \<open>
  \<open>served\<close> relates the server before and after: the trace grew by events that the monitor
  accepts, the counters are their tally, and the server still runs unless a signal was read
  among them. Nothing else of the server changed. It is reflexive and transitive, so each
  handler is proved once and the event loop follows by composition.
\<close>

definition stopped :: "int \<Rightarrow> event list \<Rightarrow> bool" where
  "stopped sig evs \<longleftrightarrow> (\<exists>d. E_read sig 128 (Inr d) \<in> set evs \<and> length d = 128)"

lemma stopped_simps [simp]:
  "\<not> stopped sig []"
  "stopped sig (evs @ evs') \<longleftrightarrow> stopped sig evs \<or> stopped sig evs'"
  by (auto simp: stopped_def)

lemma not_stopped: "(\<And>n r. ev \<noteq> E_read sig n r) \<Longrightarrow> \<not> stopped sig [ev]"
  by (auto simp: stopped_def)

definition served ::
  "(int \<Rightarrow> string) \<Rightarrow> epoll_server \<Rightarrow> 'w os \<Rightarrow> epoll_server \<Rightarrow> 'w os \<Rightarrow> (int \<Rightarrow> string) \<Rightarrow> bool"
where
  "served p sv s sv' s' p' \<longleftrightarrow>
     (\<exists>evs. extends evs s s' \<and> echo_run (signal sv) evs p = Some p' \<and>
        sv' = sv\<lparr>stats := tally (signal sv) evs (stats sv),
          running := running sv \<and> \<not> stopped (signal sv) evs\<rparr>)"

lemma served_refl [simp]: "served p sv s sv s p"
  by (auto simp: served_def intro: exI [of _ "[]"])

lemma served_trans [trans]:
  assumes "served p sv s sv1 s1 p1" and "served p1 sv1 s1 sv2 s2 p2"
  shows "served p sv s sv2 s2 p2"
proof -
  from assms(1) obtain evs where 1: "extends evs s s1"
    "echo_run (signal sv) evs p = Some p1" "sv1 = sv\<lparr>stats := tally (signal sv) evs (stats sv),
      running := running sv \<and> \<not> stopped (signal sv) evs\<rparr>"
    by (auto simp: served_def)
  from assms(2) obtain evs' where 2: "extends evs' s1 s2"
    "echo_run (signal sv1) evs' p1 = Some p2" "sv2 = sv1\<lparr>stats := tally (signal sv1) evs' (stats sv1),
      running := running sv1 \<and> \<not> stopped (signal sv1) evs'\<rparr>"
    by (auto simp: served_def)
  show ?thesis
    unfolding served_def using 1(2,3) 2(2,3) extends_trans [OF 1(1) 2(1)]
    by (intro exI [of _ "evs @ evs'"]) (simp add: echo_run_append)
qed

lemma served_same:
  "served p sv s sv' s' p' \<Longrightarrow> signal sv' = signal sv \<and> listener sv' = listener sv \<and>
    epoll sv' = epoll sv \<and> cfg sv' = cfg sv"
  by (auto simp: served_def)

text \<open>One event at a time.\<close>

lemma served_event:
  assumes "extends [ev] s s'" and "echo_event (signal sv) ev p = Some p'"
    and "\<And>n r. ev \<noteq> E_read (signal sv) n r"
  shows "served p sv s (sv\<lparr>stats := tally_event (signal sv) ev (stats sv)\<rparr>) s' p'"
  unfolding served_def using assms(1,2) not_stopped [OF assms(3)]
  by (intro exI [of _ "[ev]"]) simp

lemma served_call:
  assumes "call K c s = (n, s')" and "\<And>r. tally_event (signal sv) (E_call c r) (stats sv) = stats sv"
    and "\<And>fd. c \<noteq> Sys_close fd"
  shows "served p sv s sv s' p"
proof -
  from call_extends [OF assms(1)] obtain r where tr: "extends [E_call c r] s s'" by blast
  have "echo_event (signal sv) (E_call c r) p = Some p"
    using assms(3) by (cases c) auto
  from served_event [of "E_call c r" s s' sv p p, OF tr this] assms(2) show ?thesis by simp
qed

lemma close_served:
  assumes "call K (Sys_close fd) s = (n, s')"
  shows "served p sv s sv s' (p(fd := []))"
proof -
  from call_extends [OF assms] obtain r where tr: "extends [E_call (Sys_close fd) r] s s'"
    by blast
  from served_event [of "E_call (Sys_close fd) r" s s' sv p "p(fd := [])", OF tr] show ?thesis
    by simp
qed

lemma close_connection_served:
  assumes "close_connection K sv fd s = (sv', s')"
  shows "served p sv s sv' s' (p(fd := []))"
proof -
  obtain m s1 where del: "call K (Sys_epoll_del (epoll sv) fd) s = (m, s1)"
    by (metis surj_pair)
  from call_extends [OF this] obtain r
    where tr: "extends [E_call (Sys_epoll_del (epoll sv) fd) r] s s1" by blast
  let ?sv = "sv\<lparr>stats := closed_update (bump 1) (stats sv)\<rparr>"
  from served_event [of "E_call (Sys_epoll_del (epoll sv) fd) r" s s1 sv p p, OF tr]
  have "served p sv s ?sv s1 p" by simp
  moreover obtain m2 s2 where cl: "call K (Sys_close fd) s1 = (m2, s2)"
    by (metis surj_pair)
  ultimately have "served p sv s ?sv s2 (p(fd := []))"
    by (blast intro: served_trans close_served)
  with assms del cl show ?thesis by (simp add: close_connection_def)
qed

lemma served_close:
  assumes "served p sv s sv1 s1 p" and "p fd = []" and "close_connection K sv1 fd s1 = (sv', s')"
  shows "served p sv s sv' s' p"
proof -
  have "p(fd := []) = p" using assms(2) by (simp add: fun_upd_idem)
  with served_trans [OF assms(1) close_connection_served [OF assms(3)]] show ?thesis by simp
qed

lemma write_all_served:
  assumes "write_all K sv fd data written s = Some (ok, sv', s')" and "p fd = drop written data"
  shows "\<exists>x. served p sv s sv' s' (p(fd := x)) \<and> (ok \<longrightarrow> x = [])"
proof -
  let ?P = "\<lambda>K sv fd data written s (ok, sv', s'). \<forall>p. p fd = drop written data \<longrightarrow>
    (\<exists>x. served p sv s sv' s' (p(fd := x)) \<and> (ok \<longrightarrow> x = []))"
  have "?P K sv fd data written s (ok, sv', s')"
  proof (rule write_all.raw_induct [where P = ?P, OF _ assms(1)], goal_cases)
    case (1 f K sv fd data written s r)
    note IH = "1"(1) and eq = "1"(2)
    obtain ok sv' s' where r: "r = (ok, sv', s')" by (metis surj_pair)
    obtain m s1 where wr: "sys_write K fd (drop written data) s = (m, s1)"
      by (metis surj_pair)
    from sys_write_extends [OF wr] obtain x where
      tr: "extends [E_write fd (drop written data) x] s s1" and
      m: "m = (case x of Inl _ \<Rightarrow> -1 | Inr k \<Rightarrow> int k)" by blast
    let ?sv = "sv\<lparr>stats := syscalls_update (bump 1) (write_calls_update (bump 1) (stats sv))\<rparr>"
    have step: "served p sv s ?sv s1 (p(fd := drop (written + nat (max 0 m)) data))"
      if "p fd = drop written data" and "written < length data" for p
      using served_event [of "E_write fd (drop written data) x" s s1 sv p
          "p(fd := drop (written + nat (max 0 m)) data)", OF tr] that m
      by (auto simp: add.commute fun_upd_idem split: sum.splits)
    show ?case
    proof (cases "written < length data")
      case False
      with eq r have "ok \<and> sv' = sv \<and> s' = s" by simp
      with False r show ?thesis
        by (auto intro!: exI [of _ "[]"] simp: fun_upd_idem)
    next
      case more: True
      have again: "?P K sv fd data written s r"
        if "f K ?sv fd data (written + nat (max 0 m)) s1 = Some r"
        unfolding r
      proof (simp, intro allI impI)
        fix p :: "int \<Rightarrow> string"
        let ?p = "p(fd := drop (written + nat (max 0 m)) data)"
        assume p: "p fd = drop written data"
        from IH [OF that, unfolded r prod.case, rule_format, of ?p]
        obtain x where "served ?p ?sv s1 sv' s' (?p(fd := x))" "ok \<longrightarrow> x = []"
          by auto
        with served_trans [OF step [of p, OF p more]] show "\<exists>x. served p sv s sv' s' (p(fd := x)) \<and> (ok \<longrightarrow> x = [])"
          by auto
      qed
      show ?thesis
      proof (cases "0 < m \<or> m < 0 \<and> errno s1 \<in> {EAGAIN, EINTR}")
        case True
        with eq wr more have "f K ?sv fd data (written + nat (max 0 m)) s1 = Some r"
          by (auto simp: max_def split: if_splits)
        then show ?thesis by (rule again)
      next
        case False
        with eq wr more r have "\<not> ok \<and> sv' = ?sv \<and> s' = s1" by (auto split: if_splits)
        with step [OF _ more] r show ?thesis by auto
      qed
    qed
  qed
  with assms(2) show ?thesis by auto
qed

lemma handle_loop_served:
  assumes "handle_loop K sv fd s = Some (sv', s')" and "fd \<noteq> signal sv" and "p fd = []"
  shows "served p sv s sv' s' p"
proof -
  let ?P = "\<lambda>K sv fd s (sv', s'). \<forall>p. fd \<noteq> signal sv \<longrightarrow> p fd = [] \<longrightarrow> served p sv s sv' s' p"
  have "?P K sv fd s (sv', s')"
  proof (rule handle_loop.raw_induct [where P = ?P, OF _ assms(1)], goal_cases)
    case (1 f K sv fd s r)
    note IH = "1"(1) and eq = "1"(2)
    obtain sv' s' where r: "r = (sv', s')" by (metis surj_pair)
    obtain n d s1 where rd: "sys_read K fd (buffer_size (cfg sv)) s = ((n, d), s1)"
      by (metis surj_pair)
    from sys_read_extends [OF rd] obtain x where
      tr: "extends [E_read fd (buffer_size (cfg sv)) x] s s1" and nd: "(n, d) = filled x"
      and err: "\<forall>e. x = Inl e \<longrightarrow> errno s1 = e" by blast
    let ?ev = "E_read fd (buffer_size (cfg sv)) x"
    let ?sv1 = "sv\<lparr>stats := syscalls_update (bump 1) (read_calls_update (bump 1) (stats sv))\<rparr>"
    let ?sv2 = "?sv1\<lparr>stats := bytes_update (bump (of_int n)) (requests_update (bump 1) (stats ?sv1))\<rparr>"
    have "served p sv s sv' s' p" if sig: "fd \<noteq> signal sv" and idle: "p fd = []" for p
    proof -
      have idle': "p(fd := []) = p" using idle by (simp add: fun_upd_idem)
      have step: "served p sv s (sv\<lparr>stats := tally_event (signal sv) ?ev (stats sv)\<rparr>) s1 (p(fd := d))"
        using served_event [of ?ev s s1 sv p "p(fd := d)", OF tr] sig idle nd
        by (auto simp: filled_def idle' split: sum.splits)
      show ?thesis
      proof (cases "n > 0")
        case True
        with nd have x: "x = Inr d" "d \<noteq> []" "n = int (length d)"
          by (auto simp: filled_def split: sum.splits)
        with step sig have got: "served p sv s ?sv2 s1 (p(fd := d))" by simp
        from eq rd True r obtain ok sv3 s3 where wa: "write_all K ?sv2 fd d 0 s1 = Some (ok, sv3, s3)"
          and rest: "(if \<not> ok then Some (close_connection K sv3 fd s3)
            else if \<not> edge_triggered sv3 then Some (sv3, s3) else f K sv3 fd s3) = Some (sv', s')"
          by (auto simp: bind_eq_Some_conv Let_def)
        from write_all_served [OF wa, of "p(fd := d)"] obtain y
          where y: "served (p(fd := d)) ?sv2 s1 sv3 s3 (p(fd := y))" "ok \<longrightarrow> y = []"
          by auto
        with got have main: "served p sv s sv3 s3 (p(fd := y))" by (blast intro: served_trans)
        show ?thesis
        proof (cases ok)
          case False
          with rest have "close_connection K sv3 fd s3 = (sv', s')" by simp
          from served_trans [OF main close_connection_served [OF this]] show ?thesis
            by (simp add: idle')
        next
          case ok: True
          with main y(2) idle' have main': "served p sv s sv3 s3 p" by simp
          show ?thesis
          proof (cases "edge_triggered sv3")
            case False
            with ok rest main' show ?thesis by simp
          next
            case True
            with ok rest r have "f K sv3 fd s3 = Some r" by simp
            note again = IH [OF this, unfolded r prod.case, rule_format, of p]
            from served_same [OF main'] sig idle again have "served p sv3 s3 sv' s' p" by simp
            with main' show ?thesis by (rule served_trans)
          qed
        qed
      next
        case False
        with nd have d: "d = []" by (auto simp: filled_def split: sum.splits)
        with step idle' have step': "served p sv s (sv\<lparr>stats := tally_event (signal sv) ?ev (stats sv)\<rparr>) s1 p"
          by simp
        consider "n = 0" | "n < 0" "errno s1 = EAGAIN" | "n < 0" "errno s1 = EINTR"
          | "n < 0" "errno s1 \<noteq> EAGAIN" "errno s1 \<noteq> EINTR"
          using False by linarith
        then show ?thesis
        proof cases
          case 1
          with nd have "x = Inr []" by (auto simp: filled_def split: sum.splits)
          with step' sig have "served p sv s ?sv1 s1 p" by simp
          moreover from 1 eq rd r have "close_connection K ?sv1 fd s1 = (sv', s')" by simp
          ultimately show ?thesis by (rule served_close [where fd = fd and p = p, OF _ idle])
        next
          case 2
          with nd err have "x = Inl EAGAIN" by (auto simp: filled_def split: sum.splits)
          with step' sig 2 eq rd r show ?thesis by (auto simp: Let_def)
        next
          case 3
          with nd err have "x = Inl EINTR" by (auto simp: filled_def split: sum.splits)
          with step' sig have main: "served p sv s ?sv1 s1 p" by simp
          from 3 eq rd have "f K ?sv1 fd s1 = Some r" by (simp add: Let_def)
          from IH [OF this, unfolded r prod.case, rule_format, of p] sig idle
          have "served p ?sv1 s1 sv' s' p" by simp
          with main show ?thesis by (rule served_trans)
        next
          case 4
          with nd err obtain e where "x = Inl e" "e \<noteq> EAGAIN"
            by (auto simp: filled_def split: sum.splits)
          with step' sig have "served p sv s ?sv1 s1 p" by simp
          moreover from 4 eq rd r have "close_connection K ?sv1 fd s1 = (sv', s')"
            by (simp add: Let_def)
          ultimately show ?thesis by (rule served_close [where fd = fd and p = p, OF _ idle])
        qed
      qed
    qed
    with r show ?case by simp
  qed
  with assms(2,3) show ?thesis by simp
qed

lemma drain_signal_served:
  assumes "drain_signal K sv s = Some (sv', s')"
  shows "served p sv s sv' s' p"
proof -
  let ?P = "\<lambda>K sv s (sv', s'). \<forall>p. served p sv s sv' s' p"
  have "?P K sv s (sv', s')"
  proof (rule drain_signal.raw_induct [where P = ?P, OF _ assms], goal_cases)
    case (1 f K sv s r)
    obtain sv' s' where r: "r = (sv', s')" by (metis surj_pair)
    obtain n d s1 where rd: "sys_read K (signal sv) 128 s = ((n, d), s1)"
      by (metis surj_pair)
    from sys_read_extends [OF rd] obtain x where
      tr: "extends [E_read (signal sv) 128 x] s s1" and nd: "(n, d) = filled x"
      by blast
    have stop: "stopped (signal sv) [E_read (signal sv) 128 x] \<longleftrightarrow> n = 128"
      using nd by (auto simp: stopped_def filled_def split: sum.splits)
    show ?case
    proof (cases "n = 128")
      case True
      with tr stop have one: "served p sv s (sv\<lparr>running := False\<rparr>) s1 p" for p
        unfolding served_def by (intro exI [of _ "[E_read (signal sv) 128 x]"]) simp
      from True "1"(2) rd have "f K (sv\<lparr>running := False\<rparr>) s1 = Some r" by simp
      from "1"(1) [OF this, unfolded r prod.case, rule_format] one r show ?thesis
        by (auto intro: served_trans)
    next
      case False
      with tr stop have "served p sv s sv s1 p" for p
        unfolding served_def by (intro exI [of _ "[E_read (signal sv) 128 x]"]) simp
      with False "1"(2) rd show ?thesis by auto
    qed
  qed
  then show ?thesis by simp
qed

lemma add_to_epoll_served:
  assumes "add_to_epoll K sv fd fl error s = ((ok, e), s')"
  shows "served p sv s (if ok then sv\<lparr>stats := accepted_update (bump 1) (stats sv)\<rparr> else sv) s' p"
proof -
  obtain n s1 where ad: "call K (Sys_epoll_add (epoll sv) fd fl) s = (n, s1)" by (metis surj_pair)
  from call_extends [OF this] obtain r where
    tr: "extends [E_call (Sys_epoll_add (epoll sv) fd fl) r] s s1" and n: "n = c_int r"
    by blast
  from assms ad have "s' = s1 \<and> (ok \<longleftrightarrow> r = Inr 0)"
    using n by (auto simp: add_to_epoll_def c_int_zero split: if_splits)
  with served_event [of _ s s1 sv p p, OF tr] show ?thesis by auto
qed

lemma accept_connections_served:
  assumes "accept_connections K sv s = Some (sv', s')"
  shows "served idle sv s sv' s' idle"
proof -
  let ?P = "\<lambda>K sv s (sv', s'). served idle sv s sv' s' idle"
  have "?P K sv s (sv', s')"
  proof (rule accept_connections.raw_induct [where P = ?P, OF _ assms], goal_cases)
    case (1 f K sv s r)
    obtain sv' s' where r: "r = (sv', s')" by (metis surj_pair)
    obtain fd s1 where ac: "call K (Sys_accept4 (listener sv) [SOCK_NONBLOCK, SOCK_CLOEXEC]) s = (fd, s1)"
      by (metis surj_pair)
    obtain b s2 where nd: "set_nodelay K fd s1 = (b, s2)" by (metis surj_pair)
    let ?flags = "if edge_triggered sv then [EPOLLIN, EPOLLET] else [EPOLLIN]"
    obtain ok e s3 where ad: "add_to_epoll K sv fd ?flags None s2 = ((ok, e), s3)"
      by (metis surj_pair)
    obtain m s4 where cl: "call K (Sys_close fd) s3 = (m, s4)" by (metis surj_pair)
    let ?sv = "if ok then sv\<lparr>stats := accepted_update (bump 1) (stats sv)\<rparr> else sv"
    have first: "served idle sv s sv s1 idle" using ac by (rule served_call) simp_all
    have "served idle sv s1 sv s2 idle"
      using nd served_call [of K "Sys_setsockopt fd TCP_NODELAY" s1 _ _ sv idle]
      by (auto simp: set_nodelay_def split: prod.splits)
    with first add_to_epoll_served [OF ad] have three: "served idle sv s ?sv s3 idle"
      by (blast intro: served_trans)
    have four: "served idle sv s ?sv s4 idle"
      using served_trans [OF three close_served [OF cl, of idle ?sv]]
      by (simp add: idle_close)
    have rec: "served idle sv s sv' s' idle"
      if "f K svx sx = Some r" "served idle sv s svx sx idle" for svx sx
      using "1"(1) [OF that(1)] that(2) r by (auto intro: served_trans)
    show ?case
    proof (cases "fd < 0")
      case True
      with "1"(2) ac r rec [of sv s1] first show ?thesis by (auto split: if_splits)
    next
      case False
      with "1"(2) ac nd ad cl r rec [of ?sv s3] rec [of ?sv s4] three four show ?thesis
        by (auto simp: Let_def split: if_splits)
    qed
  qed
  then show ?thesis by simp
qed

lemma handle_connection_served:
  assumes "handle_connection K sv fd events s = Some (sv', s')" and "fd \<noteq> signal sv"
  shows "served idle sv s sv' s' idle"
  using assms handle_loop_served [of K sv fd s sv' s' idle]
    close_connection_served [of K sv fd s sv' s' idle]
  by (auto simp: handle_connection_def idle_close split: if_splits)

lemma dispatch_served:
  "dispatch K sv events s = Some (sv', s') \<Longrightarrow> served idle sv s sv' s' idle"
proof (induction K sv events s rule: dispatch.induct)
  case (1 K sv s)
  then show ?case by simp
next
  case (2 K sv fd events rest s)
  from "2.prems" obtain sv1 s1 where
    first: "(if fd = signal sv then drain_signal K sv s
      else if fd = listener sv then accept_connections K sv s
      else handle_connection K sv fd events s) = Some (sv1, s1)"
    and rest: "dispatch K sv1 rest s1 = Some (sv', s')"
    by (auto simp: bind_eq_Some_conv)
  then have "served idle sv s sv1 s1 idle"
    by (auto intro: drain_signal_served accept_connections_served handle_connection_served
        split: if_splits)
  moreover from "2.IH" [OF first refl rest] have "served idle sv1 s1 sv' s' idle" .
  ultimately show ?case by (rule served_trans)
qed

text \<open>The event loop, and how it ends: a signal was read, or \<open>epoll_wait\<close> failed.\<close>

lemma event_loop_run:
  assumes "event_loop K sv s = Some (sv', s')"
  shows "\<exists>evs. extends evs s s' \<and> echo_run (signal sv) evs idle = Some idle \<and>
    sv' = sv\<lparr>stats := tally (signal sv) evs (stats sv),
      running := running sv \<and> \<not> stopped (signal sv) evs\<rparr> \<and>
    (running sv' \<longrightarrow> (\<exists>pre e n. e \<noteq> EINTR \<and> evs = pre @ [E_wait (epoll sv) n (Inl e)]))"
proof -
  let ?R = "\<lambda>sv s evs sv' s'. extends evs s s' \<and> echo_run (signal sv) evs idle = Some idle \<and>
    sv' = sv\<lparr>stats := tally (signal sv) evs (stats sv),
      running := running sv \<and> \<not> stopped (signal sv) evs\<rparr>"
  let ?last = "\<lambda>sv evs. \<exists>pre e n. e \<noteq> EINTR \<and> evs = pre @ [E_wait (epoll sv) n (Inl e)]"
  let ?P = "\<lambda>K sv s (sv', s'). \<exists>evs. ?R sv s evs sv' s' \<and> (running sv' \<longrightarrow> ?last sv evs)"
  have "?P K sv s (sv', s')"
  proof (rule event_loop.raw_induct [where P = ?P, OF _ assms], goal_cases)
    case (1 f K sv s r)
    obtain sv' s' where r: "r = (sv', s')" by (metis surj_pair)
    let ?n = "nat (max_events (cfg sv))"
    obtain n events s1 where wt: "sys_wait K (epoll sv) ?n s = ((n, events), s1)"
      by (metis surj_pair)
    from sys_wait_extends [OF wt] obtain x where
      tr: "extends [E_wait (epoll sv) ?n x] s s1" and x: "(n, events) = filled x"
      and err: "\<forall>e. x = Inl e \<longrightarrow> errno s1 = e" by blast
    let ?sv = "sv\<lparr>stats := syscalls_update (bump 1) (wait_calls_update (bump 1) (stats sv))\<rparr>"
    from served_event [of _ s s1 sv idle idle, OF tr]
    have first: "served idle sv s ?sv s1 idle" by simp
    have rec: "?P K sv s r" if "f K svx sx = Some r" "served idle sv s svx sx idle" for svx sx
    proof -
      from "1"(1) [OF that(1)] obtain evs' where
        rest: "?R svx sx evs' sv' s'" "running sv' \<longrightarrow> ?last svx evs'"
        unfolding r prod.case by blast
      from that(2) obtain evs where
        fst: "?R sv s evs svx sx" by (auto simp: served_def)
      then have "?R sv s (evs @ evs') sv' s'"
        using rest(1) extends_trans [of evs s sx evs' s'] by (simp add: echo_run_append)
      moreover have "?last svx evs' \<Longrightarrow> ?last sv (evs @ evs')"
        using fst by fastforce
      ultimately show ?thesis using r rest(2) by auto
    qed
    show ?case
    proof (cases "running sv")
      case False
      with "1"(2) r have "?R sv s [] sv' s' \<and> (running sv' \<longrightarrow> ?last sv [])" by simp
      then show ?thesis using r by blast
    next
      case run: True
      consider "n < 0" "errno s1 = EINTR" | "n < 0" "errno s1 \<noteq> EINTR" | "0 \<le> n" by linarith
      then show ?thesis
      proof cases
        case interrupted: 1
        with run "1"(2) wt have "f K ?sv s1 = Some r" by (simp add: Let_def)
        then show ?thesis using first by (rule rec)
      next
        case 2
        with x err have "x = Inl (errno s1)" by (auto simp: filled_def split: sum.splits)
        with 2 run "1"(2) wt tr r have "?R sv s [E_wait (epoll sv) ?n x] sv' s' \<and>
            ?last sv [E_wait (epoll sv) ?n x]"
          by (auto simp: Let_def stopped_def)
        then show ?thesis using r by blast
      next
        case 3
        with run "1"(2) wt obtain sv2 s2 where d: "dispatch K ?sv events s1 = Some (sv2, s2)"
          "f K sv2 s2 = Some r" by (auto simp: Let_def bind_eq_Some_conv)
        with first have "served idle sv s sv2 s2 idle" by (blast intro: served_trans dispatch_served)
        with d(2) show ?thesis by (rule rec)
      qed
    qed
  qed
  then show ?thesis by simp
qed

lemma event_loop_served:
  "event_loop K sv s = Some (sv', s') \<Longrightarrow> served idle sv s sv' s' idle"
  unfolding served_def by (drule event_loop_run) blast

subsection \<open>What the event loop as a whole does\<close>

text \<open>A run for the examples: one client sends five bytes, the reply is cut in two, then Ctrl-C.\<close>

definition sample_server :: "Backend \<Rightarrow> epoll_server" where
  "sample_server b = \<lparr>cfg = Config_init\<lparr>backend := b\<rparr>, listener = 3, signal = 4,
     stats = Stats_init, running = True, epoll = 5\<rparr>"

definition sample_run :: "answer list" where
  "sample_run = [A_events [(7, [EPOLLIN])], A_bytes ''hello'', A_int 3, A_int 2,
     A_events [(4, [EPOLLIN])], A_bytes (replicate 128 (CHR ''s'')), A_fail EAGAIN]"

lemma sample_run_ends:
  "\<exists>sv' s'. event_loop scripted (sample_server EpollLevel) (fresh_os sample_run) = Some (sv', s') \<and>
    \<not> running sv' \<and> bytes (stats sv') = 5"
  unfolding sample_run_def sample_server_def Config_init_def Stats_init_def
  apply (subst event_loop.simps)
  apply (simp add: run_simps handle_connection_def handle_loop.simps write_all.simps edge_triggered_def)
  apply (subst event_loop.simps)
  apply (simp add: run_simps drain_signal.simps)
  apply (subst event_loop.simps)
  apply simp
  done

text \<open>C8: The epoll server is an echo server, on every kernel: over a whole run the trace is
  accepted by the echo monitor and nothing is pending at the end. So while a connection stays
  open, at any moment of the run, the bytes sent to it are a prefix of the bytes received from
  it, each write offers exactly the bytes not yet echoed (short writes, EAGAIN and EINTR
  included), and no new read happens before the echo is complete.\<close>

theorem event_loop_echoes:
  assumes "event_loop K sv s = Some (sv', s')"
  shows "\<exists>evs. trace s' = trace s @ evs \<and> echo_run (signal sv) evs idle = Some idle \<and>
    (\<forall>pre mid post fd. evs = pre @ mid @ post \<longrightarrow> fd \<noteq> signal sv \<longrightarrow> fd \<notin> set (closes mid) \<longrightarrow>
      echo_run (signal sv) pre idle = Some idle \<longrightarrow>
      prefix (bytes_out fd mid) (bytes_in fd mid))"
proof -
  from event_loop_served [OF assms] obtain evs where
    tr: "trace s' = trace s @ evs" and ok: "echo_run (signal sv) evs idle = Some idle"
    by (auto simp: served_def extends_def)
  have "prefix (bytes_out fd mid) (bytes_in fd mid)"
    if "evs = pre @ mid @ post" "fd \<noteq> signal sv" "fd \<notin> set (closes mid)"
      "echo_run (signal sv) pre idle = Some idle" for pre mid post fd
  proof -
    from ok that(1,4) have "echo_run (signal sv) (mid @ post) idle = Some idle"
      by (simp add: echo_run_append)
    from echo_run_prefix [OF this] obtain q where "echo_run (signal sv) mid idle = Some q" by blast
    from echo_run_balance [OF this that(2,3)] show ?thesis by (simp add: prefix_def)
  qed
  with tr ok show ?thesis by blast
qed

lemma event_loop_echoes_witness:
  "\<exists>sv' s'. event_loop scripted (sample_server EpollLevel) (fresh_os sample_run) = Some (sv', s') \<and>
    (\<exists>evs. trace s' = trace (fresh_os sample_run) @ evs \<and> echo_run 4 evs idle = Some idle)"
proof -
  from sample_run_ends obtain sv' s' where
    run: "event_loop scripted (sample_server EpollLevel) (fresh_os sample_run) = Some (sv', s')"
    by blast
  from event_loop_echoes [OF this] have
    "\<exists>evs. trace s' = trace (fresh_os sample_run) @ evs \<and>
      echo_run (signal (sample_server EpollLevel)) evs idle = Some idle"
    by blast
  with run show ?thesis by (auto simp: sample_server_def)
qed

text \<open>C25: The counters the epoll server prints are exactly the tally of the calls it made:
  for every kernel, after the loop each of the ten counters equals its old value advanced by
  the events of the trace (modulo 2 to the 64), and the count of kernel entries is the number
  of reads, writes and waits - accepts, epoll_ctl, setsockopt and close calls are not in it.\<close>

theorem event_loop_counts:
  assumes "event_loop K sv s = Some (sv', s')"
  shows "stats sv' = tally (signal sv) (drop (length (trace s)) (trace s')) (stats sv) \<and>
    (stats sv = Stats_init \<longrightarrow> syscalls (stats sv') =
      read_calls (stats sv') + write_calls (stats sv') + wait_calls (stats sv'))"
proof -
  from event_loop_served [OF assms] obtain evs where
    tr: "trace s' = trace s @ evs" and st: "stats sv' = tally (signal sv) evs (stats sv)"
    by (auto simp: served_def extends_def)
  have "uncounted (stats sv') = uncounted (stats sv)"
    by (simp add: st uncounted_tally)
  then have "syscalls (stats sv') =
      read_calls (stats sv') + write_calls (stats sv') + wait_calls (stats sv')"
    if "stats sv = Stats_init"
    using that by (simp add: uncounted_zero flip: uncounted_zero(1))
  with tr st show ?thesis by simp
qed

lemma event_loop_counts_witness:
  "\<exists>sv' s'. event_loop scripted (sample_server EpollLevel) (fresh_os sample_run) = Some (sv', s') \<and>
    stats sv' = tally 4 (trace s') Stats_init"
proof -
  from sample_run_ends obtain sv' s' where
    run: "event_loop scripted (sample_server EpollLevel) (fresh_os sample_run) = Some (sv', s')"
    by blast
  with event_loop_counts [OF run] show ?thesis by (auto simp: sample_server_def)
qed

subsection \<open>Writing everything\<close>

text \<open>
  A kernel that cannot put the writer off for ever: an answer EAGAIN or EINTR uses up some of
  a finite patience of the world.
\<close>

definition patient :: "'w kernel \<Rightarrow> int \<Rightarrow> ('w \<Rightarrow> nat) \<Rightarrow> bool" where
  "patient K fd stall \<longleftrightarrow> (\<forall>w d. d \<noteq> [] \<longrightarrow>
     (case k_write K fd d w of
        (Inl e, w') \<Rightarrow> e \<in> {EAGAIN, EINTR} \<longrightarrow> stall w' < stall w
      | (Inr k, w') \<Rightarrow> True))"

lemma patientD:
  "patient K fd stall \<Longrightarrow> k_write K fd d w = (Inl e, w') \<Longrightarrow> d \<noteq> [] \<Longrightarrow> e \<in> {EAGAIN, EINTR} \<Longrightarrow>
    stall w' < stall w"
  unfolding patient_def by (drule spec [of _ w], drule spec [of _ d]) auto

lemma write_all_more:
  assumes "written < length data" and "sys_write K fd (drop written data) s = (m, s1)"
    and "sv1 = sv\<lparr>stats := syscalls_update (bump 1) (write_calls_update (bump 1) (stats sv))\<rparr>"
  shows "write_all K sv fd data written s =
    (if 0 < m \<or> m < 0 \<and> errno s1 \<in> {EAGAIN, EINTR}
     then write_all K sv1 fd data (written + nat (max 0 m)) s1 else Some (False, sv1, s1))"
  using assms by (subst write_all.simps) (auto simp: max_def)

lemma sys_write_progress:
  assumes "sys_write K fd d s = (m, s1)" and "patient K fd stall" and "d \<noteq> []"
  shows "\<exists>x. trace s1 = trace s @ [E_write fd d x] \<and>
    bytes_out fd [E_write fd d x] = take (nat (max 0 m)) d \<and>
    (m < 0 \<and> errno s1 \<in> {EAGAIN, EINTR} \<longrightarrow> stall (world s1) < stall (world s))"
proof -
  obtain x w1 where k: "k_write K fd d (world s) = (x, w1)" by (metis surj_pair)
  then have "trace s1 = trace s @ [E_write fd d (map_sum id (min (length d)) x)]"
      "bytes_out fd [E_write fd d (map_sum id (min (length d)) x)] = take (nat (max 0 m)) d"
    using assms(1) by (cases x; auto simp: sys_write_def Let_def)+
  moreover have "stall (world s1) < stall (world s)" if "m < 0" "errno s1 \<in> {EAGAIN, EINTR}"
    using k that assms(1) patientD [OF assms(2) _ assms(3), of "world s"]
    by (cases x) (auto simp: sys_write_def Let_def)
  ultimately show ?thesis by blast
qed

lemma drop_split: "drop a xs = take k (drop a xs) @ drop (a + k) xs"
  by (metis append_take_drop_id drop_drop add.commute)

lemma drop_extend:
  assumes "bytes_out fd [E_write fd (drop written data) x] = take k (drop written data)"
    and "prefix (bytes_out fd evs) (drop (written + k) data)"
    and "ok \<longleftrightarrow> bytes_out fd evs = drop (written + k) data"
  shows "prefix (bytes_out fd (E_write fd (drop written data) x # evs)) (drop written data) \<and>
    (ok \<longleftrightarrow> bytes_out fd (E_write fd (drop written data) x # evs) = drop written data)"
proof -
  have "bytes_out fd (E_write fd (drop written data) x # evs) =
      take k (drop written data) @ bytes_out fd evs"
    using assms(1) by simp
  with assms(2,3) show ?thesis
    using drop_split [of written data k] by (metis same_prefix_prefix same_append_eq)
qed

text \<open>C23: write_all terminates on every kernel that does not answer EAGAIN or EINTR for ever,
  and what it wrote is a prefix of the data from the given offset on; it returns true exactly
  when that prefix is everything. Each byte is written once and in order although the kernel
  may take any positive number of bytes at a time.\<close>

theorem write_all_correct:
  assumes "patient K fd stall"
  shows "\<exists>ok sv' s' evs. write_all K sv fd data written s = Some (ok, sv', s') \<and>
    trace s' = trace s @ evs \<and> prefix (bytes_out fd evs) (drop written data) \<and>
    (ok \<longleftrightarrow> bytes_out fd evs = drop written data)"
proof (induction "(written, sv, s)" arbitrary: written sv s
    rule: wf_induct_rule [OF wf_measures
      [of "[\<lambda>(written, sv, s). length data - written, \<lambda>(written, sv, s). stall (world s)]"]])
  case (1 written sv s)
  show ?case
  proof (cases "written < length data")
    case False
    then show ?thesis by (subst write_all.simps) (auto intro: exI [of _ "[]"])
  next
    case more: True
    let ?d = "drop written data"
    obtain m s1 where wr: "sys_write K fd ?d s = (m, s1)" by (metis surj_pair)
    from sys_write_progress [OF wr assms] more obtain x where
      tr: "trace s1 = trace s @ [E_write fd ?d x]" and
      chunk: "bytes_out fd [E_write fd ?d x] = take (nat (max 0 m)) ?d" and
      less: "m < 0 \<and> errno s1 \<in> {EAGAIN, EINTR} \<longrightarrow> stall (world s1) < stall (world s)"
      by auto
    define sv1 where "sv1 = sv\<lparr>stats := syscalls_update (bump 1) (write_calls_update (bump 1) (stats sv))\<rparr>"
    note loop = write_all_more [OF more wr sv1_def]
    show ?thesis
    proof (cases "0 < m \<or> m < 0 \<and> errno s1 \<in> {EAGAIN, EINTR}")
      case False
      then have "m \<le> 0" by auto
      with False loop tr chunk more show ?thesis
        by (intro exI [of _ False] exI [of _ sv1] exI [of _ s1] exI [of _ "[E_write fd ?d x]"])
          (auto simp: bytes_out_def)
    next
      case True
      have "((written + nat (max 0 m), sv1, s1), (written, sv, s)) \<in>
        measures [\<lambda>(written, sv, s). length data - written, \<lambda>(written, sv, s). stall (world s)]"
        using True less more by (cases "0 < m") auto
      from "1" [OF this] obtain ok sv' s' evs where
        rec: "write_all K sv1 fd data (written + nat (max 0 m)) s1 = Some (ok, sv', s')"
        "trace s' = trace s1 @ evs" "prefix (bytes_out fd evs) (drop (written + nat (max 0 m)) data)"
        "ok \<longleftrightarrow> bytes_out fd evs = drop (written + nat (max 0 m)) data"
        by blast
      note drop_extend [OF chunk rec(3,4)]
      moreover have "write_all K sv fd data written s = Some (ok, sv', s')"
        using loop rec(1) True by (simp only: if_True)
      moreover have "trace s' = trace s @ E_write fd ?d x # evs"
        using rec(2) tr by simp
      ultimately show ?thesis by blast
    qed
  qed
qed

lemma write_all_correct_witness:
  "\<exists>ok sv' s' evs. write_all (scripted\<lparr>k_write := \<lambda>_ _ w. (Inr 2, w)\<rparr>) (sample_server EpollEdge) 7
      ''hello'' 0 (fresh_os []) = Some (ok, sv', s') \<and>
    trace s' = [] @ evs \<and> prefix (bytes_out 7 evs) ''hello''"
proof -
  have "patient (scripted\<lparr>k_write := \<lambda>_ _ w. (Inr 2, w)\<rparr>) 7 length"
    by (simp add: patient_def)
  from write_all_correct [OF this, of "sample_server EpollEdge" "''hello''" 0 "fresh_os []"]
  show ?thesis by auto
qed

subsection \<open>Edge-triggered and level-triggered handling\<close>

definition closed_last :: "int \<Rightarrow> 'w os \<Rightarrow> bool" where
  "closed_last fd s \<longleftrightarrow> (\<exists>r. last (trace s) = E_call (Sys_close fd) r)"

lemma close_connection_last: "close_connection K sv fd s = (sv', s') \<Longrightarrow> closed_last fd s'"
  by (auto simp: close_connection_def closed_last_def dest!: call_trace split: prod.splits)

lemma write_all_same:
  assumes "write_all K sv fd data written s = Some (ok, sv', s')"
  shows "cfg sv' = cfg sv \<and> signal sv' = signal sv \<and> epoll sv' = epoll sv"
  using write_all_served [OF assms, of "idle(fd := drop written data)"] by (auto dest: served_same)

lemma handle_loop_ends:
  assumes "handle_loop K sv fd s = Some (sv', s')" and "edge_triggered sv"
  shows "closed_last fd s' \<or>
    (\<exists>n w. last (trace s') = E_read fd n (Inl EAGAIN) \<and> k_read K fd n w = (Inl EAGAIN, world s'))"
proof -
  let ?Q = "\<lambda>K fd s'. closed_last fd s' \<or>
    (\<exists>n w. last (trace s') = E_read fd n (Inl EAGAIN) \<and> k_read K fd n w = (Inl EAGAIN, world s'))"
  let ?P = "\<lambda>K sv fd s (sv', s'). edge_triggered sv \<longrightarrow> ?Q K fd s'"
  have "?P K sv fd s (sv', s')"
  proof (rule handle_loop.raw_induct [where P = ?P, OF _ assms(1)], goal_cases)
    case (1 f K sv fd s r)
    note IH = "1"(1) and eq = "1"(2)
    obtain sv' s' where r: "r = (sv', s')" by (metis surj_pair)
    let ?n = "buffer_size (cfg sv)"
    obtain n d s1 where rd: "sys_read K fd ?n s = ((n, d), s1)" by (metis surj_pair)
    let ?sv1 = "sv\<lparr>stats := syscalls_update (bump 1) (read_calls_update (bump 1) (stats sv))\<rparr>"
    let ?sv2 = "?sv1\<lparr>stats := bytes_update (bump (of_int n)) (requests_update (bump 1) (stats ?sv1))\<rparr>"
    have same: "edge_triggered ?sv2 = edge_triggered sv" "edge_triggered ?sv1 = edge_triggered sv"
      by (simp_all add: edge_triggered_def)
    have "?Q K fd s'" if et: "edge_triggered sv"
    proof (cases "n > 0")
      case True
      with eq rd r obtain ok sv3 s3 where wa: "write_all K ?sv2 fd d 0 s1 = Some (ok, sv3, s3)"
        and rest: "(if \<not> ok then Some (close_connection K sv3 fd s3)
          else if \<not> edge_triggered sv3 then Some (sv3, s3) else f K sv3 fd s3) = Some (sv', s')"
        by (auto simp: bind_eq_Some_conv Let_def)
      have et3: "edge_triggered sv3"
        using write_all_same [OF wa] et by (simp add: edge_triggered_def)
      show ?thesis
        using rest et3 IH [of K sv3 fd s3 "(sv', s')"] close_connection_last [of K sv3 fd s3 sv' s']
        by (auto split: if_splits)
    next
      case False
      show ?thesis
      proof (cases "n < 0 \<and> errno s1 \<in> {EAGAIN, EINTR}")
        case True
        then obtain e where "k_read K fd ?n (world s) = (Inl e, world s1)" "errno s1 = e"
          "trace s1 = trace s @ [E_read fd ?n (Inl e)]"
          using rd by (cases "k_read K fd ?n (world s)"; cases "fst (k_read K fd ?n (world s))")
            (auto simp: sys_read_def filled_def at_most_def Let_def)
        with True eq rd r IH [of K ?sv1 fd s1 r] same et show ?thesis
          by (auto simp: Let_def split: if_splits)
      next
        case err: False
        with False eq rd r close_connection_last [of K ?sv1 fd s1 sv' s'] show ?thesis
          by (auto simp: Let_def split: if_splits)
      qed
    qed
    with r show ?case by simp
  qed
  with assms(2) show ?thesis by simp
qed

text \<open>C21: No wakeup is lost in edge-triggered mode. The kernel is assumed to answer EAGAIN to a
  read only when nothing is left in the socket's receive queue. Then, whatever the interleaving
  of short reads, short writes and interruptions, when handle_connection returns in
  edge-triggered mode the connection has been closed, or its queue has been drained - the last
  call was a read that failed with EAGAIN - so the next arrival is a new edge.\<close>

theorem edge_drains:
  assumes "handle_connection K sv fd events s = Some (sv', s')" and "edge_triggered sv"
    and "\<forall>n w w'. k_read K fd n w = (Inl EAGAIN, w') \<longrightarrow> queue w' fd = []"
  shows "closed_last fd s' \<or>
    ((\<exists>n. last (trace s') = E_read fd n (Inl EAGAIN)) \<and> queue (world s') fd = [])"
proof (cases "EPOLLHUP \<in> set events \<or> EPOLLERR \<in> set events")
  case True
  with assms(1) show ?thesis
    using close_connection_last [of K sv fd s sv' s'] by (simp add: handle_connection_def)
next
  case False
  with assms(1) have "handle_loop K sv fd s = Some (sv', s')" by (simp add: handle_connection_def)
  from handle_loop_ends [OF this assms(2)] assms(3) show ?thesis by blast
qed

text \<open>A kernel whose world is the receive queue of the one connection.\<close>

definition queue_kernel :: "string kernel" where
  "queue_kernel = \<lparr>k_call = \<lambda>_ w. (Inr 0, w),
     k_read = \<lambda>_ n w. if w = [] then (Inl EAGAIN, []) else (Inr (take n w), drop n w),
     k_write = \<lambda>_ d w. (Inr (length d), w), k_readlink = \<lambda>_ _ w. (Inl EAGAIN, w),
     k_wait = \<lambda>_ _ w. (Inl EAGAIN, w), k_pipe = \<lambda>w. (Inl EAGAIN, w),
     k_waitpid = \<lambda>_ w. (Inl EAGAIN, w), k_listdir = \<lambda>_ w. ([], w), k_mincore = \<lambda>_ _ w. (Inl EAGAIN, w), strerror = \<lambda>_. []\<rparr>"

lemma edge_drains_witness:
  "\<exists>sv' s'. handle_connection queue_kernel ((sample_server EpollEdge)\<lparr>cfg := Config_init\<lparr>backend :=
      EpollEdge, buffer_size := 2\<rparr>\<rparr>) 7 [EPOLLIN] (fresh_os ''abc'') = Some (sv', s') \<and>
    (closed_last 7 s' \<or> ((\<exists>n. last (trace s') = E_read 7 n (Inl EAGAIN)) \<and> world s' = []))"
proof -
  let ?sv = "(sample_server EpollEdge)\<lparr>cfg := Config_init\<lparr>backend := EpollEdge, buffer_size := 2\<rparr>\<rparr>"
  have "\<exists>sv' s'. handle_connection queue_kernel ?sv 7 [EPOLLIN] (fresh_os ''abc'') = Some (sv', s')"
    by (simp add: handle_connection_def handle_loop.simps write_all.simps run_simps queue_kernel_def
        sample_server_def Config_init_def edge_triggered_def)
  then obtain sv' s' where
    run: "handle_connection queue_kernel ?sv 7 [EPOLLIN] (fresh_os ''abc'') = Some (sv', s')"
    by blast
  have "edge_triggered ?sv" by (simp add: edge_triggered_def Config_init_def)
  moreover have "\<forall>n w w'. k_read queue_kernel 7 n w = (Inl EAGAIN, w') \<longrightarrow> w' = []"
    by (auto simp: queue_kernel_def split: if_splits)
  ultimately show ?thesis
    using run edge_drains [OF run, where queue = "\<lambda>w _. w"] by auto
qed

text \<open>Level-triggered: the reads that returned something, end of file included.\<close>

fun got_input :: "event \<Rightarrow> bool" where
  "got_input (E_read fd n (Inr d)) \<longleftrightarrow> True"
| "got_input _ \<longleftrightarrow> False"

lemma write_all_no_input:
  assumes "write_all K sv fd data written s = Some (ok, sv', s')"
  shows "\<exists>evs. trace s' = trace s @ evs \<and> filter got_input evs = []"
proof -
  let ?P = "\<lambda>K sv fd data written s (ok, sv', s').
    \<exists>evs. trace s' = trace s @ evs \<and> filter got_input evs = []"
  have "?P K sv fd data written s (ok, sv', s')"
  proof (rule write_all.raw_induct [where P = ?P, OF _ assms], goal_cases)
    case (1 f K sv fd data written s r)
    obtain ok sv' s' where r: "r = (ok, sv', s')" by (metis surj_pair)
    obtain m s1 where wr: "sys_write K fd (drop written data) s = (m, s1)" by (metis surj_pair)
    from sys_write_trace [OF this] obtain x where
      tr: "trace s1 = trace s @ [E_write fd (drop written data) x]" by blast
    have rec: "\<exists>evs. trace s' = trace s @ evs \<and> filter got_input evs = []"
      if "f K svx fd data k s1 = Some (ok, sv', s')" for svx k
    proof -
      from "1"(1) [OF that] obtain evs where "trace s' = trace s1 @ evs" "filter got_input evs = []"
        by auto
      with tr show ?thesis by (intro exI [of _ "E_write fd (drop written data) x # evs"]) simp
    qed
    from "1"(2) wr r tr show ?case by (auto simp: Let_def split: if_splits dest: rec)
  qed
  then show ?thesis by simp
qed

lemma close_connection_no_input:
  "close_connection K sv fd s = (sv', s') \<Longrightarrow>
    \<exists>evs. trace s' = trace s @ evs \<and> filter got_input evs = []"
  by (auto simp: close_connection_def dest!: call_trace split: prod.splits)

lemma handle_loop_level:
  assumes "handle_loop K sv fd s = Some (sv', s')" and "\<not> edge_triggered sv"
  shows "\<exists>evs. trace s' = trace s @ evs \<and> length (filter got_input evs) \<le> 1"
proof -
  let ?P = "\<lambda>K sv fd s (sv', s'). \<not> edge_triggered sv \<longrightarrow>
    (\<exists>evs. trace s' = trace s @ evs \<and> length (filter got_input evs) \<le> 1)"
  have "?P K sv fd s (sv', s')"
  proof (rule handle_loop.raw_induct [where P = ?P, OF _ assms(1)], goal_cases)
    case (1 f K sv fd s r)
    note IH = "1"(1) and eq = "1"(2)
    obtain sv' s' where r: "r = (sv', s')" by (metis surj_pair)
    let ?n = "buffer_size (cfg sv)"
    obtain n d s1 where rd: "sys_read K fd ?n s = ((n, d), s1)" by (metis surj_pair)
    from sys_read_trace [OF rd] obtain x where
      tr: "trace s1 = trace s @ [E_read fd ?n x]" and nd: "(n, d) = filled x" by blast
    let ?sv1 = "sv\<lparr>stats := syscalls_update (bump 1) (read_calls_update (bump 1) (stats sv))\<rparr>"
    let ?sv2 = "?sv1\<lparr>stats := bytes_update (bump (of_int n)) (requests_update (bump 1) (stats ?sv1))\<rparr>"
    have one: "length (filter got_input (E_read fd ?n x # evs)) \<le> 1" if "filter got_input evs = []" for evs
      using that by (cases x) auto
    have quiet: "\<exists>evs. trace s' = trace s @ evs \<and> length (filter got_input evs) \<le> 1"
      if "\<exists>evs. trace s' = trace s1 @ evs \<and> filter got_input evs = []"
    proof -
      from that obtain evs where "trace s' = trace s1 @ evs" "filter got_input evs = []" by blast
      with one tr show ?thesis by (intro exI [of _ "E_read fd ?n x # evs"]) simp
    qed
    have "\<exists>evs. trace s' = trace s @ evs \<and> length (filter got_input evs) \<le> 1"
      if lt: "\<not> edge_triggered sv"
    proof (cases "n > 0")
      case True
      with eq rd r obtain ok sv3 s3 where wa: "write_all K ?sv2 fd d 0 s1 = Some (ok, sv3, s3)"
        and rest: "(if \<not> ok then Some (close_connection K sv3 fd s3)
          else if \<not> edge_triggered sv3 then Some (sv3, s3) else f K sv3 fd s3) = Some (sv', s')"
        by (auto simp: bind_eq_Some_conv Let_def)
      have "\<not> edge_triggered sv3"
        using write_all_same [OF wa] lt by (simp add: edge_triggered_def)
      with rest have "s' = s3 \<or> close_connection K sv3 fd s3 = (sv', s')" by (auto split: if_splits)
      with write_all_no_input [OF wa] close_connection_no_input [of K sv3 fd s3 sv' s']
      have "\<exists>evs. trace s' = trace s1 @ evs \<and> filter got_input evs = []" by fastforce
      then show ?thesis by (rule quiet)
    next
      case False
      show ?thesis
      proof (cases "n < 0 \<and> errno s1 = EINTR")
        case True
        with eq rd r have "f K ?sv1 fd s1 = Some (sv', s')" by (simp add: Let_def)
        with IH [of K ?sv1 fd s1 "(sv', s')"] lt obtain evs where
          "trace s' = trace s1 @ evs" "length (filter got_input evs) \<le> 1"
          by (auto simp: edge_triggered_def)
        moreover have "\<not> got_input (E_read fd ?n x)"
          using True nd by (auto simp: filled_def split: sum.splits)
        ultimately show ?thesis using tr by (intro exI [of _ "E_read fd ?n x # evs"]) simp
      next
        case other: False
        with False eq rd r have "s' = s1 \<or> close_connection K ?sv1 fd s1 = (sv', s')"
          by (auto simp: Let_def split: if_splits)
        then show ?thesis
          using close_connection_no_input [of K ?sv1 fd s1 sv' s'] by (intro quiet) auto
      qed
    qed
    with r show ?case by simp
  qed
  with assms(2) show ?thesis by simp
qed

text \<open>C29: In level-triggered mode one wakeup costs at most one read that returns something
  (interrupted reads are repeated), and unless the connection was closed, what was read has been
  written back completely when handle_connection returns.\<close>

theorem level_one_read:
  assumes "handle_connection K sv fd events s = Some (sv', s')" and "\<not> edge_triggered sv"
    and "fd \<noteq> signal sv"
  shows "\<exists>evs. trace s' = trace s @ evs \<and> length (filter got_input evs) \<le> 1 \<and>
    (fd \<notin> set (closes evs) \<longrightarrow> bytes_out fd evs = bytes_in fd evs)"
proof -
  from handle_connection_served [OF assms(1,3)] obtain evs where
    tr: "trace s' = trace s @ evs" and ok: "echo_run (signal sv) evs idle = Some idle"
    by (auto simp: served_def extends_def)
  have "length (filter got_input evs) \<le> 1"
    using assms(1,2) handle_loop_level [of K sv fd s sv' s'] tr
      close_connection_no_input [of K sv fd s sv' s']
    by (auto simp: handle_connection_def split: if_splits)
  with tr echo_run_balance [OF ok assms(3)] show ?thesis by auto
qed

lemma level_one_read_witness:
  "\<exists>sv' s' evs. handle_connection scripted (sample_server EpollLevel) 7 [EPOLLIN]
      (fresh_os [A_fail EINTR, A_bytes ''abc'', A_int 1, A_int 2]) = Some (sv', s') \<and>
    trace s' = [] @ evs \<and> length (filter got_input evs) \<le> 1"
proof -
  let ?s = "fresh_os [A_fail EINTR, A_bytes ''abc'', A_int 1, A_int 2]"
  have "\<exists>sv' s'. handle_connection scripted (sample_server EpollLevel) 7 [EPOLLIN] ?s = Some (sv', s')"
    by (simp add: handle_connection_def handle_loop.simps write_all.simps run_simps
        sample_server_def Config_init_def edge_triggered_def)
  then obtain sv' s' where
    run: "handle_connection scripted (sample_server EpollLevel) 7 [EPOLLIN] ?s = Some (sv', s')"
    by blast
  have "\<not> edge_triggered (sample_server EpollLevel)" "7 \<noteq> signal (sample_server EpollLevel)"
    by (simp_all add: sample_server_def edge_triggered_def Config_init_def)
  from level_one_read [OF run this] run show ?thesis by auto
qed

subsection \<open>Accepting\<close>

fun registered_fd :: "event \<Rightarrow> int list" where
  "registered_fd (E_call (Sys_epoll_add ep fd fl) r) = (if r = Inr 0 then [fd] else [])"
| "registered_fd _ = []"

definition registered :: "event list \<Rightarrow> int list" where
  "registered evs = concat (map registered_fd evs)"

lemma registered_simps [simp]:
  "registered [] = []" "registered (evs @ evs') = registered evs @ registered evs'"
  "registered (ev # evs) = registered_fd ev @ registered evs"
  by (simp_all add: registered_def)

text \<open>Every descriptor that the events opened is registered or closed again.\<close>

definition kept :: "event list \<Rightarrow> bool" where
  "kept evs \<longleftrightarrow> mset (opens evs) = mset (registered evs) + mset (closes evs)"

lemma kept_append: "kept evs \<Longrightarrow> kept evs' \<Longrightarrow> kept (evs @ evs')"
  by (simp add: kept_def ac_simps)

text \<open>One round of the accept loop that got a connection.\<close>

lemma accept_round:
  assumes ac: "call K (Sys_accept4 l fl) s = (fd, s1)" and fd: "0 \<le> fd"
    and nd: "set_nodelay K fd s1 = (b, s2)"
    and ad: "add_to_epoll K sv fd flags None s2 = ((ok, e), s3)"
    and cl: "call K (Sys_close fd) s3 = (m, s4)"
  shows "\<exists>evs. trace (if ok then s3 else s4) = trace s @ evs \<and> kept evs"
proof -
  from call_trace [OF ac] obtain r1 where
    1: "trace s1 = trace s @ [E_call (Sys_accept4 l fl) r1]" "fd = c_int r1" by blast
  from nd obtain r2 where 2: "trace s2 = trace s1 @ [E_call (Sys_setsockopt fd TCP_NODELAY) r2]"
    by (auto simp: set_nodelay_def dest!: call_trace split: prod.splits)
  from ad obtain r3 where 3: "trace s3 = trace s2 @ [E_call (Sys_epoll_add (epoll sv) fd flags) r3]"
    "ok \<longleftrightarrow> r3 = Inr 0"
    by (auto simp: add_to_epoll_def c_int_zero dest!: call_trace split: prod.splits if_splits)
  from call_trace [OF cl] obtain r4 where 4: "trace s4 = trace s3 @ [E_call (Sys_close fd) r4]"
    by blast
  show ?thesis
    using 1 2 3 4 fd by (cases ok) (auto simp: kept_def only_valid_def)
qed

lemma accept_connections_kept:
  assumes "accept_connections K sv s = Some (sv', s')"
  shows "\<exists>evs. trace s' = trace s @ evs \<and> kept evs \<and>
    (\<exists>r fl. last evs = E_call (Sys_accept4 (listener sv) fl) r \<and> c_int r < 0 \<and> r \<noteq> Inl EINTR)"
proof -
  let ?stop = "\<lambda>sv evs. \<exists>r fl. last evs = E_call (Sys_accept4 (listener sv) fl) r \<and> c_int r < 0 \<and>
    r \<noteq> Inl EINTR"
  let ?P = "\<lambda>K sv s (sv', s'). \<exists>evs. trace s' = trace s @ evs \<and> evs \<noteq> [] \<and> kept evs \<and> ?stop sv evs"
  have "?P K sv s (sv', s')"
  proof (rule accept_connections.raw_induct [where P = ?P, OF _ assms], goal_cases)
    case (1 f K sv s r)
    note IH = "1"(1) and eq = "1"(2)
    obtain sv' s' where r: "r = (sv', s')" by (metis surj_pair)
    let ?acc = "Sys_accept4 (listener sv) [SOCK_NONBLOCK, SOCK_CLOEXEC]"
    obtain fd s1 where ac: "call K ?acc s = (fd, s1)" by (metis surj_pair)
    from call_trace [OF ac] obtain x where tr: "trace s1 = trace s @ [E_call ?acc x]" "fd = c_int x"
      and err: "\<forall>e. x = Inl e \<longrightarrow> errno s1 = e" by blast
    obtain b s2 where nd: "set_nodelay K fd s1 = (b, s2)" by (metis surj_pair)
    let ?flags = "if edge_triggered sv then [EPOLLIN, EPOLLET] else [EPOLLIN]"
    obtain ok e s3 where ad: "add_to_epoll K sv fd ?flags None s2 = ((ok, e), s3)"
      by (metis surj_pair)
    obtain m s4 where cl: "call K (Sys_close fd) s3 = (m, s4)" by (metis surj_pair)
    have rec: "?P K sv s r" if "f K svx sx = Some r" "listener svx = listener sv"
      "\<exists>evs. trace sx = trace s @ evs \<and> kept evs" for svx sx
    proof -
      from that(3) obtain evs where "trace sx = trace s @ evs" "kept evs" by blast
      moreover from IH [OF that(1)] r that(2) obtain evs' where
        "trace s' = trace sx @ evs'" "evs' \<noteq> []" "kept evs'" "?stop sv evs'" by auto
      ultimately show ?thesis
        using r by (auto intro!: exI [of _ "evs @ evs'"] kept_append)
    qed
    show ?case
    proof (cases "fd < 0")
      case True
      then have quiet: "kept [E_call ?acc x]" using tr(2) by (simp add: kept_def only_valid_def)
      show ?thesis
      proof (cases "errno s1 = EINTR")
        case True
        with \<open>fd < 0\<close> eq ac have "f K sv s1 = Some r" by simp
        then show ?thesis by (rule rec) (use tr quiet in auto)
      next
        case False
        with \<open>fd < 0\<close> eq ac r have "s' = s1" by (auto split: if_splits)
        with tr False err quiet \<open>fd < 0\<close> r show ?thesis by auto
      qed
    next
      case False
      then have "0 \<le> fd" by simp
      from accept_round [OF ac this nd ad cl] have round: "\<exists>evs. trace (if ok then s3 else s4) = trace s @ evs \<and> kept evs" .
      from False eq ac nd ad cl have "f K (if ok then sv\<lparr>stats := accepted_update (bump 1) (stats sv)\<rparr> else sv)
          (if ok then s3 else s4) = Some r"
        by (auto simp: Let_def)
      from rec [OF this _ round] show ?thesis by simp
    qed
  qed
  then show ?thesis by auto
qed

lemma accepted_tally:
  "accepted (tally sig evs st) = accepted st + of_nat (length (registered evs))"
proof (induction evs arbitrary: st)
  case Nil
  then show ?case by simp
next
  case (Cons ev evs)
  have "accepted (tally_event sig ev st) = accepted st + of_nat (length (registered_fd ev))"
  proof (cases ev)
    case (E_call c r)
    then show ?thesis by (cases c) auto
  qed (auto simp: Let_def split: sum.splits)
  with Cons.IH [of "tally_event sig ev st"] show ?case by (simp add: add.assoc)
qed

text \<open>C24: accept_connections accepts until the kernel says there is nothing more: it returns only
  after an accept4 that failed with something other than EINTR. Every descriptor it accepted is
  registered with epoll exactly once or, when the registration failed, closed exactly once - no
  accepted descriptor leaks - and the accepted counter grows by the number registered.\<close>

theorem accept_connections_result:
  assumes "accept_connections K sv s = Some (sv', s')"
  shows "\<exists>evs. trace s' = trace s @ evs \<and>
    mset (opens evs) = mset (registered evs) + mset (closes evs) \<and>
    (\<exists>r fl. last evs = E_call (Sys_accept4 (listener sv) fl) r \<and> c_int r < 0 \<and> r \<noteq> Inl EINTR) \<and>
    accepted (stats sv') = accepted (stats sv) + of_nat (length (registered evs))"
proof -
  from accept_connections_kept [OF assms] obtain evs where
    evs: "trace s' = trace s @ evs" "kept evs"
    "\<exists>r fl. last evs = E_call (Sys_accept4 (listener sv) fl) r \<and> c_int r < 0 \<and> r \<noteq> Inl EINTR"
    by blast
  from accept_connections_served [OF assms] obtain evs' where
    "trace s' = trace s @ evs'" "stats sv' = tally (signal sv) evs' (stats sv)"
    by (auto simp: served_def extends_def)
  with evs(1) have "stats sv' = tally (signal sv) evs (stats sv)" by simp
  with evs show ?thesis by (auto simp: kept_def accepted_tally)
qed

lemma accept_connections_result_witness:
  "\<exists>sv' s' evs. accept_connections scripted (sample_server EpollLevel) (fresh_os
      [A_int 7, A_int 0, A_int 0, A_fail EINTR, A_int 8, A_int 0, A_fail 28, A_int 0, A_fail EAGAIN])
      = Some (sv', s') \<and> trace s' = [] @ evs \<and>
    mset (opens evs) = mset (registered evs) + mset (closes evs)"
proof -
  let ?s = "fresh_os [A_int 7, A_int 0, A_int 0, A_fail EINTR, A_int 8, A_int 0, A_fail 28, A_int 0,
    A_fail EAGAIN]"
  have "\<exists>sv' s'. accept_connections scripted (sample_server EpollLevel) ?s = Some (sv', s')"
    by (simp add: accept_connections.simps run_simps set_nodelay_def add_to_epoll_def
        edge_triggered_def sample_server_def Config_init_def)
  then obtain sv' s' where
    run: "accept_connections scripted (sample_server EpollLevel) ?s = Some (sv', s')" by blast
  from accept_connections_result [OF run] run show ?thesis by auto
qed

subsection \<open>Starting and destroying\<close>

lemma add_to_epoll_opened:
  "add_to_epoll K sv fd fl error s = ((ok, e), s') \<Longrightarrow> opened_closed [] [] s s' \<and>
    (ok \<longrightarrow> trace s' = trace s @ [E_call (Sys_epoll_add (epoll sv) fd fl) (Inr 0)])"
  by (auto simp: add_to_epoll_def opened_closed_def extends_def c_int_zero dest!: call_trace
      split: prod.splits if_splits)

lemma Socket_reset_empty [simp]: "Socket_reset K (-1) fd s = (fd, s)"
  by (simp add: Socket_reset_def)

lemma start_opened:
  assumes "EpollServer_init c = Inr sv" and "start K sv error s = ((ok, error'), sv', s')"
  shows "\<exists>cl. opened_closed (cl @ only_valid (listener sv') @ only_valid (signal sv') @
      only_valid (epoll sv')) cl s s' \<and>
    (ok \<longrightarrow> 0 \<le> listener sv' \<and> 0 \<le> signal sv' \<and> 0 \<le> epoll sv' \<and>
      (\<exists>pre. trace s' = trace s @ pre @
        [E_call (Sys_epoll_add (epoll sv') (listener sv') [EPOLLIN]) (Inr 0),
         E_call (Sys_epoll_add (epoll sv') (signal sv') [EPOLLIN]) (Inr 0)]))"
proof -
  have sv: "listener sv = -1" "signal sv = -1" "epoll sv = -1" "cfg sv = c"
    using assms(1) by (auto simp: EpollServer_init_def split: if_splits)
  obtain l e1 s1 where l: "listen_tcp K (port c) 1024 error s = ((l, e1), s1)" by (metis surj_pair)
  obtain b s2 where b: "set_nonblocking K l s1 = (b, s2)" by (metis surj_pair)
  obtain g e2 s3 where g: "signal_fd K e1 s2 = ((g, e2), s3)" by (metis surj_pair)
  obtain e s4 where e: "call K (Sys_epoll_create1 EPOLL_CLOEXEC) s3 = (e, s4)" by (metis surj_pair)
  let ?sv = "sv\<lparr>listener := l, signal := g, epoll := e\<rparr>"
  obtain a1 e3 s5 where a1: "add_to_epoll K ?sv l [EPOLLIN] e2 s4 = ((a1, e3), s5)"
    by (metis surj_pair)
  obtain a2 e4 s6 where a2: "add_to_epoll K ?sv g [EPOLLIN] e3 s5 = ((a2, e4), s6)"
    by (metis surj_pair)
  note defs = start_def sv l b g e a1 a2 Socket_valid_def
  from listen_tcp_opened [OF l] obtain cl where
    o1: "opened_closed (cl @ only_valid l) cl s s1" "0 \<le> l \<longrightarrow> cl = []" by blast
  from call_extends [OF e] have oe: "opened_closed (only_valid e) [] s3 s4"
    by (auto simp: opened_closed_def)
  note o2 = opened_closed_trans [OF o1(1) set_nonblocking_opened [OF b]]
  note o3 = opened_closed_trans [OF o2 signal_fd_opened [OF g]]
  note o4 = opened_closed_trans [OF o3 oe]
  note o5 = opened_closed_trans [OF o4 add_to_epoll_opened [OF a1, THEN conjunct1]]
  note o6 = opened_closed_trans [OF o5 add_to_epoll_opened [OF a2, THEN conjunct1]]
  have none: "only_valid (-1) = []" by (simp add: only_valid_def)
  consider "l < 0" | "0 \<le> l" "\<not> b" | "0 \<le> l" "b" "g < 0" | "0 \<le> l" "b" "0 \<le> g" "e < 0"
    | "0 \<le> l" "b" "0 \<le> g" "0 \<le> e" "\<not> a1" | "0 \<le> l" "b" "0 \<le> g" "0 \<le> e" "a1"
    by linarith
  then show ?thesis
  proof cases
    case 1
    with assms(2) o1(1) show ?thesis by (auto simp: defs none only_valid_def)
  next
    case 2
    with assms(2) o1(2) o2 show ?thesis by (intro exI [of _ "[]"]) (auto simp: defs none)
  next
    case 3
    with assms(2) o1(2) o3 show ?thesis by (intro exI [of _ "[]"]) (auto simp: defs none)
  next
    case 4
    with assms(2) o1(2) o4 show ?thesis by (intro exI [of _ "[]"]) (auto simp: defs none only_valid_def)
  next
    case 5
    with assms(2) o1(2) o5 show ?thesis by (intro exI [of _ "[]"]) (auto simp: defs)
  next
    case 6
    with assms(2) have res: "ok = a2" "sv' = ?sv" "s' = s6" by (auto simp: defs)
    have "\<exists>pre. trace s6 = trace s @ pre @ [E_call (Sys_epoll_add e l [EPOLLIN]) (Inr 0),
        E_call (Sys_epoll_add e g [EPOLLIN]) (Inr 0)]" if a2
      using that \<open>a1\<close> add_to_epoll_opened [OF a1] add_to_epoll_opened [OF a2] o4
      by (auto simp: opened_closed_def extends_def)
    with res 6 o1(2) o6 show ?thesis by (intro exI [of _ "[]"]) auto
  qed
qed

end
