(* ===== verification/Ev_Uring.thy ===== *)
theory Ev_Uring
  imports Ev_Echo
begin

section \<open>evserver: the io_uring backend\<close>

text \<open>
  Models \<open>evserver/src/server_uring.cpp\<close>: the class \<open>UringServer\<close>. liburing is not part of
  the repository; it is the parameter \<open>U\<close>, which decides whether a submission entry is free,
  what a submission returns and which operation completes next with which outcome. The entries
  that were prepared and have not completed are kept in \<open>inflight\<close>, and what the interface
  documents is built in where a completion is taken (\<open>legal\<close>): only an operation in flight
  completes, once; a receive stores at most the length it was given; a send of a non-empty
  buffer takes at least one byte and at most all of it; an accept never returns a descriptor
  that is still open.

  The \<open>Conn\<close> objects live in a heap that is indexed by addresses that are never reused, so
  that any access to a freed object, by the program or by the kernel on its behalf, is visible:
  it is \<open>Undefined_Behaviour\<close>. \<open>history\<close> is the history of completed reads and writes and of
  closes, in the vocabulary of the echo monitor. The trace has, beside the system calls that the
  program makes itself, the calls of liburing that enter the kernel, each operation that is put
  into the ring, and each operation that completed, as the call it stands for (a receive as a
  read, a send as a write), at the moment when the program takes the completion.
\<close>

subsection \<open>State\<close>

text \<open>The \<open>Op\<close> objects, by where they live: two in the server, two in each \<open>Conn\<close>.\<close>

datatype Op = Accept_Op | Signal_Op | Recv_Op nat | Send_Op nat

datatype prep = Prep_accept int | Prep_poll int flag | Prep_recv int nat nat | Prep_send int nat nat

record sqe =
  prep :: prep
  user_data :: Op

record Conn =
  conn_fd :: int
  conn_buffer :: string
  conn_pending :: nat

record uring_server = server_state +
  ring_initialised :: bool
  heap :: "nat \<Rightarrow> Conn option"
  next_addr :: nat
  connections :: "int \<Rightarrow> nat option"
  inflight :: "sqe list"
  history :: "event list"

datatype outcome = Failed errno | Got string | Sent nat | Fd nat

fun result_of :: "outcome \<Rightarrow> int" where
  "result_of (Failed e) = - int e"
| "result_of (Got d) = int (length d)"
| "result_of (Sent k) = int k"
| "result_of (Fd n) = int n"

record 'w uring =
  ur_queue_init :: "nat \<Rightarrow> 'w \<Rightarrow> int \<times> 'w"
  ur_get_sqe :: "'w \<Rightarrow> bool \<times> 'w"              \<comment> \<open>false: a null pointer\<close>
  ur_prep :: "sqe \<Rightarrow> 'w \<Rightarrow> 'w"
  ur_submit :: "'w \<Rightarrow> int \<times> 'w"
  ur_submit_and_wait :: "'w \<Rightarrow> int \<times> 'w"
  ur_next_cqe :: "uring_server \<Rightarrow> 'w \<Rightarrow> (sqe \<times> outcome) option \<times> 'w"
  ur_queue_exit :: "'w \<Rightarrow> 'w"

definition UringServer_init :: "Config \<Rightarrow> uring_server" where
  "UringServer_init c = \<lparr>cfg = c, listener = -1, signal = -1, stats = Stats_init, running = True,
     ring_initialised = False, heap = Map.empty, next_addr = 0, connections = Map.empty,
     inflight = [], history = []\<rparr>"

definition kQueueDepth :: nat where
  "kQueueDepth = 256"

subsection \<open>Submitting\<close>

text \<open>What liburing does is noted in the trace; it reports an error as a negative result and
  leaves \<open>errno\<close> alone.\<close>

definition log_event :: "event \<Rightarrow> 'w os \<Rightarrow> 'w os" where
  "log_event ev s = s\<lparr>trace := trace s @ [ev]\<rparr>"

definition rc_result :: "int \<Rightarrow> errno + int" where
  "rc_result rc = (if rc < 0 then Inl (nat (- rc)) else Inr rc)"

fun queued_call :: "prep \<Rightarrow> syscall" where
  "queued_call (Prep_accept l) = Sys_uring_accept l"
| "queued_call (Prep_poll fd f) = Sys_uring_poll fd f"
| "queued_call (Prep_recv fd p len) = Sys_uring_recv fd len"
| "queued_call (Prep_send fd p len) = Sys_uring_send fd len"

definition next_sqe ::
  "'w uring \<Rightarrow> uring_server \<Rightarrow> 'w os \<Rightarrow> bool \<times> uring_server \<times> 'w os" where
  "next_sqe U sv s =
     (let (sqe, w) = ur_get_sqe U (world s); s = s\<lparr>world := w\<rparr> in
      if \<not> sqe then
        let (rc, w) = ur_submit U (world s);
            s = log_event (E_call Sys_uring_submit (rc_result rc)) (s\<lparr>world := w\<rparr>);
            sv = sv\<lparr>stats := syscalls_update (bump 1) (stats sv)\<rparr>;
            (sqe, w) = ur_get_sqe U (world s) in
        (sqe, sv, s\<lparr>world := w\<rparr>)
      else (sqe, sv, s))"

text \<open>\<open>io_uring_prep_*\<close> with \<open>io_uring_sqe_set_data\<close>: the entry is filled in.\<close>

definition prepare ::
  "'w uring \<Rightarrow> sqe \<Rightarrow> uring_server \<Rightarrow> 'w os \<Rightarrow> uring_server \<times> 'w os" where
  "prepare U e sv s = (sv\<lparr>inflight := inflight sv @ [e]\<rparr>,
     log_event (E_call (queued_call (prep e)) (Inr 0)) (s\<lparr>world := ur_prep U e (world s)\<rparr>))"

definition submit_accept :: "'w uring \<Rightarrow> uring_server \<Rightarrow> 'w os \<Rightarrow> uring_server \<times> 'w os" where
  "submit_accept U sv s =
     (let (sqe, sv, s) = next_sqe U sv s in
      if \<not> sqe then (sv, s)
      else prepare U \<lparr>prep = Prep_accept (listener sv), user_data = Accept_Op\<rparr> sv s)"

definition submit_signal_poll :: "'w uring \<Rightarrow> uring_server \<Rightarrow> 'w os \<Rightarrow> uring_server \<times> 'w os" where
  "submit_signal_poll U sv s =
     (let (sqe, sv, s) = next_sqe U sv s in
      if \<not> sqe then (sv, s)
      else prepare U \<lparr>prep = Prep_poll (signal sv) POLLIN, user_data = Signal_Op\<rparr> sv s)"

text \<open>
  \<open>conn\<close> is the address of the object; reading through an address that is not allocated is
  undefined. \<open>erase\<close> destroys the \<open>unique_ptr\<close> and with it the object.
\<close>

definition close_connection ::
  "'w kernel \<Rightarrow> uring_server \<Rightarrow> nat \<Rightarrow> 'w os \<Rightarrow> (uring_server \<times> 'w os) cpp" where
  "close_connection K sv conn s =
     (case heap sv conn of
        None \<Rightarrow> Inl Undefined_Behaviour
      | Some c \<Rightarrow>
          if conn_fd c < 0 then Inr (sv, s)
          else let fd = conn_fd c;
              sv = sv\<lparr>heap := (heap sv)(conn \<mapsto> c\<lparr>conn_fd := -1\<rparr>)\<rparr>;
              (r, s) = call K (Sys_close fd) s;
              sv = sv\<lparr>history := history sv @ [E_call (Sys_close fd) (Inr r)]\<rparr>;
              sv = sv\<lparr>stats := syscalls_update (bump 1) (stats sv)\<rparr>;
              sv = sv\<lparr>stats := closed_update (bump 1) (stats sv)\<rparr> in
            Inr (case connections sv fd of
                None \<Rightarrow> sv
              | Some p \<Rightarrow> sv\<lparr>connections := (connections sv)(fd := None),
                  heap := (heap sv)(p := None)\<rparr>, s))"

definition submit_recv ::
  "'w uring \<Rightarrow> 'w kernel \<Rightarrow> uring_server \<Rightarrow> nat \<Rightarrow> 'w os \<Rightarrow> (uring_server \<times> 'w os) cpp" where
  "submit_recv U K sv conn s =
     (let (sqe, sv, s) = next_sqe U sv s in
      if \<not> sqe then close_connection K sv conn s
      else case heap sv conn of
        None \<Rightarrow> Inl Undefined_Behaviour
      | Some c \<Rightarrow>
          let (sv, s) = prepare U \<lparr>prep = Prep_recv (conn_fd c) conn (length (conn_buffer c)),
                user_data = Recv_Op conn\<rparr> sv s in
          Inr (sv\<lparr>stats := read_calls_update (bump 1) (stats sv)\<rparr>, s))"

definition submit_send ::
  "'w uring \<Rightarrow> 'w kernel \<Rightarrow> uring_server \<Rightarrow> nat \<Rightarrow> nat \<Rightarrow> 'w os \<Rightarrow> (uring_server \<times> 'w os) cpp" where
  "submit_send U K sv conn len s =
     (let (sqe, sv, s) = next_sqe U sv s in
      if \<not> sqe then close_connection K sv conn s
      else case heap sv conn of
        None \<Rightarrow> Inl Undefined_Behaviour
      | Some c \<Rightarrow>
          let sv = sv\<lparr>heap := (heap sv)(conn \<mapsto> c\<lparr>conn_pending := len\<rparr>)\<rparr>;
              (sv, s) = prepare U \<lparr>prep = Prep_send (conn_fd c) conn len,
                user_data = Send_Op conn\<rparr> sv s in
          Inr (sv\<lparr>stats := write_calls_update (bump 1) (stats sv)\<rparr>, s))"

subsection \<open>Completions\<close>

text \<open>\<open>connections_[fd] = std::move(conn)\<close>: an object already there is destroyed.\<close>

definition put_connection :: "int \<Rightarrow> nat \<Rightarrow> uring_server \<Rightarrow> uring_server" where
  "put_connection fd p sv =
     (let sv = (case connections sv fd of
            None \<Rightarrow> sv
          | Some q \<Rightarrow> sv\<lparr>heap := (heap sv)(q := None)\<rparr>) in
      sv\<lparr>connections := (connections sv)(fd \<mapsto> p)\<rparr>)"

definition make_conn :: "int \<Rightarrow> uring_server \<Rightarrow> nat \<times> uring_server" where
  "make_conn fd sv =
     (let p = next_addr sv;
          c = \<lparr>conn_fd = fd, conn_buffer = replicate (buffer_size (cfg sv)) (CHR 0x00),
                conn_pending = 0\<rparr> in
      (p, sv\<lparr>heap := (heap sv)(p \<mapsto> c), next_addr := p + 1\<rparr>))"

definition memmove_front :: "nat \<Rightarrow> nat \<Rightarrow> string \<Rightarrow> string" where
  "memmove_front sent n buf = take n (drop sent buf) @ drop n buf"

definition handle_completion ::
  "'w uring \<Rightarrow> 'w kernel \<Rightarrow> uring_server \<Rightarrow> Op option \<Rightarrow> int \<Rightarrow> 'w os \<Rightarrow> (uring_server \<times> 'w os) cpp"
where
  "handle_completion U K sv data result s =
     (case data of
        None \<Rightarrow> Inr (sv, s)
      | Some Signal_Op \<Rightarrow> Inr (sv\<lparr>running := False\<rparr>, s)
      | Some Accept_Op \<Rightarrow>
          let (sv, s) = submit_accept U sv s in
          if 0 \<le> result then
            let (_, s) = set_nodelay K result s in
            if \<not> vector_length_ok 1 (buffer_size (cfg sv)) then Inl Length_Error
            else let (raw, sv) = make_conn result sv;
                sv = put_connection result raw sv;
                sv = sv\<lparr>stats := accepted_update (bump 1) (stats sv)\<rparr> in
              submit_recv U K sv raw s
          else Inr (sv, s)
      | Some (Recv_Op conn) \<Rightarrow>
          (case heap sv conn of
             None \<Rightarrow> Inl Undefined_Behaviour
           | Some c \<Rightarrow>
               if 0 < result then
                 let sv = sv\<lparr>stats := requests_update (bump 1) (stats sv)\<rparr>;
                     sv = sv\<lparr>stats := bytes_update (bump (of_int result)) (stats sv)\<rparr> in
                 submit_send U K sv conn (nat result) s
               else close_connection K sv conn s)
      | Some (Send_Op conn) \<Rightarrow>
          (case heap sv conn of
             None \<Rightarrow> Inl Undefined_Behaviour
           | Some c \<Rightarrow>
               if 0 < result \<and> nat result < conn_pending c then
                 let sent = nat result; n = conn_pending c - sent;
                     c = c\<lparr>conn_buffer := memmove_front sent n (conn_buffer c)\<rparr>;
                     sv = sv\<lparr>heap := (heap sv)(conn \<mapsto> c)\<rparr> in
                 submit_send U K sv conn n s
               else if 0 \<le> result then submit_recv U K sv conn s
               else close_connection K sv conn s))"

text \<open>What the kernel does on behalf of an entry by the time it completes.\<close>

definition perform :: "sqe \<Rightarrow> outcome \<Rightarrow> uring_server \<Rightarrow> uring_server cpp" where
  "perform e oc sv =
     (case prep e of
        Prep_recv fd p len \<Rightarrow>
          (case (oc, heap sv p) of
             (Got d, None) \<Rightarrow> Inl Undefined_Behaviour
           | (Got d, Some c) \<Rightarrow>
               Inr (sv\<lparr>heap := (heap sv)(p \<mapsto>
                   c\<lparr>conn_buffer := d @ drop (length d) (conn_buffer c)\<rparr>),
                 history := history sv @ [E_read fd len (Inr d)]\<rparr>)
           | (Failed x, _) \<Rightarrow> Inr (sv\<lparr>history := history sv @ [E_read fd len (Inl x)]\<rparr>)
           | _ \<Rightarrow> Inr sv)
      | Prep_send fd p len \<Rightarrow>
          (case heap sv p of
             None \<Rightarrow> Inl Undefined_Behaviour
           | Some c \<Rightarrow>
               Inr (sv\<lparr>history := history sv @ [E_write fd (take len (conn_buffer c))
                 (case oc of Sent k \<Rightarrow> Inr k | Failed x \<Rightarrow> Inl x | _ \<Rightarrow> Inl 0)]\<rparr>))
      | _ \<Rightarrow> Inr sv)"

fun legal :: "uring_server \<Rightarrow> prep \<Rightarrow> outcome \<Rightarrow> bool" where
  "legal sv _ (Failed e) \<longleftrightarrow> 0 < e"
| "legal sv (Prep_accept l) (Fd n) \<longleftrightarrow> connections sv (int n) = None"
| "legal sv (Prep_poll l f) (Fd n) \<longleftrightarrow> True"
| "legal sv (Prep_recv fd p len) (Got d) \<longleftrightarrow> length d \<le> len"
| "legal sv (Prep_send fd p len) (Sent k) \<longleftrightarrow> 0 < k \<and> k \<le> len"
| "legal _ _ _ \<longleftrightarrow> False"

text \<open>The call that a completed operation stands for, with its result; a send offers the front
  of the connection's buffer.\<close>

definition completed_event :: "(nat \<Rightarrow> Conn option) \<Rightarrow> sqe \<Rightarrow> outcome \<Rightarrow> event" where
  "completed_event h e oc =
     (case prep e of
        Prep_accept l \<Rightarrow> E_call (Sys_accept4 l []) (rc_result (result_of oc))
      | Prep_poll fd f \<Rightarrow> E_call (Sys_uring_polled fd f) (rc_result (result_of oc))
      | Prep_recv fd p len \<Rightarrow>
          E_read fd len (case oc of Got d \<Rightarrow> Inr d | Failed x \<Rightarrow> Inl x | _ \<Rightarrow> Inl 0)
      | Prep_send fd p len \<Rightarrow>
          E_write fd (case h p of None \<Rightarrow> [] | Some c \<Rightarrow> take len (conn_buffer c))
            (case oc of Sent k \<Rightarrow> Inr k | Failed x \<Rightarrow> Inl x | _ \<Rightarrow> Inl 0))"

text \<open>One completion: the entry leaves the ring, the kernel's effect is there, the handler runs.\<close>

definition complete ::
  "'w uring \<Rightarrow> 'w kernel \<Rightarrow> uring_server \<Rightarrow> sqe \<Rightarrow> outcome \<Rightarrow> 'w os \<Rightarrow> (uring_server \<times> 'w os) cpp"
where
  "complete U K sv e oc s =
     cbind (perform e oc (sv\<lparr>inflight := remove1 e (inflight sv)\<rparr>))
       (\<lambda>sv'. handle_completion U K sv' (Some (user_data e)) (result_of oc)
         (log_event (completed_event (heap sv) e oc) s))"

definition next_cqe ::
  "'w uring \<Rightarrow> uring_server \<Rightarrow> 'w os \<Rightarrow> (sqe \<times> outcome) option \<times> 'w os" where
  "next_cqe U sv s =
     (let (c, w) = ur_next_cqe U sv (world s) in
      (case c of
         None \<Rightarrow> None
       | Some (e, oc) \<Rightarrow>
           if e \<in> set (inflight sv) \<and> legal sv (prep e) oc then Some (e, oc) else None,
       s\<lparr>world := w\<rparr>))"

subsection \<open>Starting, running, destroying\<close>

definition start ::
  "'w uring \<Rightarrow> 'w kernel \<Rightarrow> uring_server \<Rightarrow> string option \<Rightarrow> 'w os
    \<Rightarrow> (bool \<times> string option) \<times> uring_server \<times> 'w os" where
  "start U K sv error s =
     (let ((fd, error), s) = listen_tcp K (port (cfg sv)) 1024 error s;
          (fd, s) = Socket_reset K (listener sv) fd s; sv = sv\<lparr>listener := fd\<rparr> in
      if \<not> Socket_valid (listener sv) then ((False, error), sv, s)
      else let ((fd, error), s) = signal_fd K error s;
          (fd, s) = Socket_reset K (signal sv) fd s; sv = sv\<lparr>signal := fd\<rparr> in
      if \<not> Socket_valid (signal sv) then ((False, error), sv, s)
      else let (rc, w) = ur_queue_init U kQueueDepth (world s);
          s = log_event (E_call (Sys_uring_setup kQueueDepth) (rc_result rc)) (s\<lparr>world := w\<rparr>) in
      if rc < 0 then
        ((False, set_error (''io_uring_queue_init: '' @ strerror K (nat (- rc))) error), sv, s)
      else let sv = sv\<lparr>ring_initialised := True\<rparr>;
          (sv, s) = submit_accept U sv s;
          (sv, s) = submit_signal_poll U sv s in
      ((True, error), sv, s))"

partial_function (option) for_each_cqe ::
  "'w uring \<Rightarrow> 'w kernel \<Rightarrow> uring_server \<Rightarrow> 'w os \<Rightarrow> (uring_server \<times> 'w os) cpp option" where
  "for_each_cqe U K sv s =
     (case next_cqe U sv s of
        (None, s) \<Rightarrow> Some (Inr (sv, s))
      | (Some (e, oc), s) \<Rightarrow>
          (case complete U K sv e oc s of
             Inl x \<Rightarrow> Some (Inl x)
           | Inr (sv, s) \<Rightarrow> for_each_cqe U K sv s))"

partial_function (option) run ::
  "'w uring \<Rightarrow> 'w kernel \<Rightarrow> uring_server \<Rightarrow> 'w os \<Rightarrow> (uring_server \<times> 'w os) cpp option" where
  "run U K sv s =
     (if running sv then
        let (rc, w) = ur_submit_and_wait U (world s);
            s = log_event (E_call Sys_uring_wait (rc_result rc)) (s\<lparr>world := w\<rparr>);
            sv = sv\<lparr>stats := wait_calls_update (bump 1) (stats sv)\<rparr>;
            sv = sv\<lparr>stats := syscalls_update (bump 1) (stats sv)\<rparr> in
        if rc < 0 \<and> rc \<noteq> - int EINTR then Some (Inr (sv, s))
        else do {
          r \<leftarrow> for_each_cqe U K sv s;
          (case r of Inl x \<Rightarrow> Some (Inl x) | Inr (sv, s) \<Rightarrow> run U K sv s)
        }
      else Some (Inr (sv, s)))"

text \<open>
  The destructor gives the ring back, then the members go in the reverse order of their
  declaration (the \<open>Conn\<close> objects do not own their descriptors, so destroying the map closes
  nothing).
\<close>

definition UringServer_destroy :: "'w uring \<Rightarrow> 'w kernel \<Rightarrow> uring_server \<Rightarrow> 'w os \<Rightarrow> 'w os" where
  "UringServer_destroy U K sv s =
     (let s = (if ring_initialised sv then
         log_event (E_call Sys_uring_exit (Inr 0)) (s\<lparr>world := ur_queue_exit U (world s)\<rparr>) else s) in
      Socket_destroy K (listener sv) (Socket_destroy K (signal sv) s))"

subsection \<open>The invariant\<close>

text \<open>
  Between two completions every allocated connection has exactly one operation in flight. While
  a completion is being handled one connection has none and may owe its peer bytes: \<open>hold\<close> is
  its address with those bytes.
\<close>

definition about :: "nat \<Rightarrow> sqe \<Rightarrow> bool" where
  "about p e \<longleftrightarrow> user_data e = Recv_Op p \<or> user_data e = Send_Op p"

text \<open>An entry describes the connection it belongs to.\<close>

fun entry_ok :: "(nat \<Rightarrow> Conn option) \<Rightarrow> sqe \<Rightarrow> bool" where
  "entry_ok h e = (case user_data e of
     Accept_Op \<Rightarrow> (case prep e of Prep_accept l \<Rightarrow> True | _ \<Rightarrow> False)
   | Signal_Op \<Rightarrow> (case prep e of Prep_poll l f \<Rightarrow> True | _ \<Rightarrow> False)
   | Recv_Op p \<Rightarrow> (case h p of None \<Rightarrow> False
       | Some c \<Rightarrow> prep e = Prep_recv (conn_fd c) p (length (conn_buffer c)))
   | Send_Op p \<Rightarrow> (case h p of None \<Rightarrow> False
       | Some c \<Rightarrow> prep e = Prep_send (conn_fd c) p (conn_pending c) \<and>
           0 < conn_pending c \<and> conn_pending c \<le> length (conn_buffer c)))"

definition linked :: "uring_server \<Rightarrow> bool" where
  "linked sv \<longleftrightarrow>
     (\<forall>p c. heap sv p = Some c \<longrightarrow>
        p < next_addr sv \<and> 0 \<le> conn_fd c \<and> connections sv (conn_fd c) = Some p) \<and>
     (\<forall>fd p. connections sv fd = Some p \<longrightarrow> (\<exists>c. heap sv p = Some c \<and> conn_fd c = fd)) \<and>
     finite (dom (connections sv))"

fun held :: "nat \<Rightarrow> (nat \<times> string) option \<Rightarrow> bool" where
  "held p (Some (q, x)) \<longleftrightarrow> p = q"
| "held p None \<longleftrightarrow> False"

definition one_each :: "uring_server \<Rightarrow> (nat \<times> string) option \<Rightarrow> bool" where
  "one_each sv hold \<longleftrightarrow>
     (\<forall>e \<in> set (inflight sv). entry_ok (heap sv) e) \<and>
     (\<forall>p. length (filter (about p) (inflight sv)) =
        (if heap sv p = None \<or> held p hold then 0 else 1))"

text \<open>The bytes a connection still has to send, from the state.\<close>

definition sending :: "uring_server \<Rightarrow> nat \<Rightarrow> string" where
  "sending sv p =
     (if \<exists>e \<in> set (inflight sv). user_data e = Send_Op p then
        (case heap sv p of None \<Rightarrow> [] | Some c \<Rightarrow> take (conn_pending c) (conn_buffer c))
      else [])"

fun owed :: "uring_server \<Rightarrow> (nat \<times> string) option \<Rightarrow> int \<Rightarrow> string" where
  "owed sv None fd = (case connections sv fd of None \<Rightarrow> [] | Some p \<Rightarrow> sending sv p)"
| "owed sv (Some (q, x)) fd =
     (case connections sv fd of None \<Rightarrow> [] | Some p \<Rightarrow> if p = q then x else sending sv p)"

definition echoing :: "uring_server \<Rightarrow> (nat \<times> string) option \<Rightarrow> bool" where
  "echoing sv hold \<longleftrightarrow> echo_run (-1) (history sv) idle = Some (owed sv hold)"

definition counted :: "uring_server \<Rightarrow> bool" where
  "counted sv \<longleftrightarrow>
     accepted (stats sv) = closed (stats sv) + of_nat (card (dom (connections sv)))"

definition uinv :: "uring_server \<Rightarrow> (nat \<times> string) option \<Rightarrow> bool" where
  "uinv sv hold \<longleftrightarrow> linked sv \<and> one_each sv hold \<and> echoing sv hold \<and> counted sv"

lemmas uinv_defs = uinv_def linked_def one_each_def echoing_def counted_def

subsection \<open>What was done\<close>

text \<open>
  The events of a piece of the run account for what it changed: they extend the history by the
  reads, writes and closes among them; the counters are their tally; the connections that are
  open are those that were accepted and not closed, where nothing is closed that is not open and
  nothing accepted that is; and the server runs on unless the poll of the signal descriptor
  completed.
\<close>

fun past :: "event \<Rightarrow> event list" where
  "past (E_read fd n r) = [E_read fd n r]"
| "past (E_write fd d r) = [E_write fd d r]"
| "past (E_call (Sys_close fd) r) = [E_call (Sys_close fd) (Inr (c_int r))]"
| "past _ = []"

fun ring_tally_event :: "event \<Rightarrow> Stats \<Rightarrow> Stats" where
  "ring_tally_event (E_call Sys_uring_wait r) st =
     st\<lparr>wait_calls := wait_calls st + 1, syscalls := syscalls st + 1\<rparr>"
| "ring_tally_event (E_call Sys_uring_submit r) st = st\<lparr>syscalls := syscalls st + 1\<rparr>"
| "ring_tally_event (E_call (Sys_close fd) r) st =
     st\<lparr>closed := closed st + 1, syscalls := syscalls st + 1\<rparr>"
| "ring_tally_event (E_call (Sys_accept4 l fl) r) st =
     (case r of Inl e \<Rightarrow> st | Inr n \<Rightarrow> st\<lparr>accepted := accepted st + 1\<rparr>)"
| "ring_tally_event (E_call (Sys_uring_recv fd n) r) st = st\<lparr>read_calls := read_calls st + 1\<rparr>"
| "ring_tally_event (E_call (Sys_uring_send fd n) r) st = st\<lparr>write_calls := write_calls st + 1\<rparr>"
| "ring_tally_event (E_read fd n r) st =
     (case r of Inl e \<Rightarrow> st | Inr d \<Rightarrow> if d = [] then st
        else st\<lparr>requests := requests st + 1, bytes := bytes st + of_nat (length d)\<rparr>)"
| "ring_tally_event _ st = st"

definition ring_tally :: "event list \<Rightarrow> Stats \<Rightarrow> Stats" where
  "ring_tally evs st = fold ring_tally_event evs st"

lemma ring_tally_simps [simp]:
  "ring_tally [] st = st"
  "ring_tally (ev # evs) st = ring_tally evs (ring_tally_event ev st)"
  "ring_tally (evs @ evs') st = ring_tally evs' (ring_tally evs st)"
  by (simp_all add: ring_tally_def)

definition open_event :: "event \<Rightarrow> int set \<Rightarrow> int set option" where
  "open_event ev live =
     (if set (opened_fd ev) \<inter> live = {} \<and> set (closes [ev]) \<subseteq> live
      then Some (live \<union> set (opened_fd ev) - set (closes [ev])) else None)"

fun open_run :: "event list \<Rightarrow> int set \<Rightarrow> int set option" where
  "open_run [] live = Some live"
| "open_run (ev # evs) live = Option.bind (open_event ev live) (open_run evs)"

lemma open_run_append:
  "open_run (evs @ evs') live = Option.bind (open_run evs live) (open_run evs')"
  by (induction evs arbitrary: live) (auto split: bind_split)

text \<open>An event opens or closes at most one descriptor, so the books balance.\<close>

lemma one_descriptor: "opened_fd ev = [] \<or> (\<exists>fd. opened_fd ev = [fd]) \<and> closes [ev] = []"
proof (cases ev)
  case (E_call c r)
  then show ?thesis by (cases c) (auto simp: only_valid_def)
qed auto

lemma closes_one: "closes [ev] = [] \<or> (\<exists>fd. closes [ev] = [fd])"
  by (auto split: option.splits)

lemma open_run_balance:
  "open_run evs live = Some live' \<Longrightarrow> finite live \<Longrightarrow>
    mset (opens evs) + mset_set live = mset (closes evs) + mset_set live' \<and> finite live'"
proof (induction evs arbitrary: live)
  case Nil
  then show ?case by simp
next
  case (Cons ev evs)
  then obtain l1 where l1: "open_event ev live = Some l1" "open_run evs l1 = Some live'"
    by (auto simp: bind_eq_Some_conv)
  have step: "finite l1 \<and> mset (opened_fd ev) + mset_set live = mset (closes [ev]) + mset_set l1"
    using one_descriptor [of ev] closes_one [of ev]
  proof (elim disjE conjE exE)
    fix fd assume "opened_fd ev = []" "closes [ev] = [fd]"
    moreover from this l1(1) have "fd \<in> live" "l1 = live - {fd}"
      unfolding open_event_def by (auto simp del: closes_Cons split: if_splits)
    ultimately show ?thesis using Cons.prems(2) by (simp add: mset_set.remove del: closes_Cons)
  next
    fix fd assume "opened_fd ev = [fd]" "closes [ev] = []"
    moreover from this l1(1) have "fd \<notin> live" "l1 = insert fd live"
      unfolding open_event_def by (auto simp del: closes_Cons split: if_splits)
    ultimately show ?thesis using Cons.prems(2) by (simp del: closes_Cons)
  qed (use l1(1) Cons.prems(2) in \<open>auto simp: open_event_def simp del: closes_Cons\<close>)
  have split: "closes (ev # evs) = closes [ev] @ closes evs" by (simp split: option.splits)
  from Cons.IH [OF l1(2)] step have
    "mset (opens evs) + mset_set l1 = mset (closes evs) + mset_set live'" "finite live'" by simp_all
  then show ?case unfolding split using step
    by (simp del: closes_Cons) (metis union_assoc union_commute)
qed

lemma echo_run_past: "echo_run sig (concat (map past evs)) p = echo_run sig evs p"
proof (induction evs arbitrary: p)
  case Nil
  then show ?case by simp
next
  case (Cons ev evs)
  have one: "echo_run sig [e] q = echo_event sig e q" for e q
    by (cases "echo_event sig e q") simp_all
  have "echo_run sig (past ev) p = echo_event sig ev p"
  proof (cases ev)
    case (E_call c r)
    then show ?thesis by (cases c) (simp_all add: one del: echo_run.simps(2))
  qed (simp_all add: one del: echo_run.simps(2))
  with Cons show ?case by (cases "echo_event sig ev p") (simp_all add: echo_run_append)
qed

definition polled :: "int \<Rightarrow> event list \<Rightarrow> bool" where
  "polled sig evs \<longleftrightarrow> (\<exists>r. E_call (Sys_uring_polled sig POLLIN) r \<in> set evs)"

lemma polled_simps [simp]:
  "\<not> polled sig []" "polled sig (evs @ evs') \<longleftrightarrow> polled sig evs \<or> polled sig evs'"
  "polled sig (ev # evs) \<longleftrightarrow> (\<exists>r. ev = E_call (Sys_uring_polled sig POLLIN) r) \<or> polled sig evs"
  by (auto simp: polled_def)

definition accounts :: "event list \<Rightarrow> uring_server \<Rightarrow> uring_server \<Rightarrow> bool" where
  "accounts evs sv sv' \<longleftrightarrow> listener sv' = listener sv \<and> signal sv' = signal sv \<and>
     ring_initialised sv' = ring_initialised sv \<and>
     history sv' = history sv @ concat (map past evs) \<and>
     stats sv' = ring_tally evs (stats sv) \<and>
     open_run evs (dom (connections sv)) = Some (dom (connections sv')) \<and>
     (running sv' \<longleftrightarrow> running sv \<and> \<not> polled (signal sv) evs)"

lemma accounts_append:
  "accounts evs sv sv1 \<Longrightarrow> accounts evs' sv1 sv' \<Longrightarrow> accounts (evs @ evs') sv sv'"
  by (auto simp: accounts_def open_run_append)

definition moved :: "uring_server \<Rightarrow> 'w os \<Rightarrow> uring_server \<Rightarrow> 'w os \<Rightarrow> bool" where
  "moved sv s sv' s' \<longleftrightarrow> (\<exists>evs. extends evs s s' \<and> accounts evs sv sv')"

lemma movedI: "extends evs s s' \<Longrightarrow> accounts evs sv sv' \<Longrightarrow> moved sv s sv' s'"
  by (auto simp: moved_def)

lemma moved_trans [trans]: "moved sv s sv1 s1 \<Longrightarrow> moved sv1 s1 sv2 s2 \<Longrightarrow> moved sv s sv2 s2"
  unfolding moved_def by (meson extends_trans accounts_append)

lemma extends_world [simp]:
  "extends evs s (s'\<lparr>world := w\<rparr>) = extends evs s s'" "extends evs (s\<lparr>world := w\<rparr>) s' = extends evs s s'"
  by (simp_all add: extends_def)

lemma log_event_extends [simp]: "extends [ev] s (log_event ev s)" "extends [ev] s (log_event ev (s\<lparr>world := w\<rparr>))"
  by (simp_all add: log_event_def extends_def)

lemma log_event_simps [simp]:
  "world (log_event ev s) = world s" "trace (log_event ev s) = trace s @ [ev]"
  "errno (log_event ev s) = errno s" "out (log_event ev s) = out s" "err (log_event ev s) = err s"
  by (simp_all add: log_event_def)

text \<open>What happened in the ring and concerns no connection.\<close>

lemma moved_one:
  "opened_fd ev = [] \<Longrightarrow> closes [ev] = [] \<Longrightarrow> past ev = [] \<Longrightarrow> \<not> polled (signal sv) [ev] \<Longrightarrow>
    extends [ev] s s' \<Longrightarrow> listener sv' = listener sv \<Longrightarrow> signal sv' = signal sv \<Longrightarrow>
    ring_initialised sv' = ring_initialised sv \<Longrightarrow>
    history sv' = history sv \<Longrightarrow> connections sv' = connections sv \<Longrightarrow> running sv' = running sv \<Longrightarrow>
    stats sv' = ring_tally_event ev (stats sv) \<Longrightarrow> moved sv s sv' s'"
  by (rule movedI) (auto simp: accounts_def open_event_def simp del: closes_Cons)

lemma moved_io:
  "opened_fd ev = [] \<Longrightarrow> closes [ev] = [] \<Longrightarrow> \<not> polled (signal sv) [ev] \<Longrightarrow>
    listener sv' = listener sv \<Longrightarrow> signal sv' = signal sv \<Longrightarrow>
    ring_initialised sv' = ring_initialised sv \<Longrightarrow>
    history sv' = history sv @ past ev \<Longrightarrow> connections sv' = connections sv \<Longrightarrow>
    running sv' = running sv \<Longrightarrow> stats sv' = ring_tally_event ev (stats sv) \<Longrightarrow>
    moved sv s sv' (log_event ev s)"
  by (rule movedI [of "[ev]"]) (auto simp: accounts_def open_event_def simp del: closes_Cons)

lemma moved_none:
  "extends [] s s' \<Longrightarrow> listener sv' = listener sv \<Longrightarrow> signal sv' = signal sv \<Longrightarrow>
    ring_initialised sv' = ring_initialised sv \<Longrightarrow>
    history sv' = history sv \<Longrightarrow> connections sv' = connections sv \<Longrightarrow> running sv' = running sv \<Longrightarrow>
    stats sv' = stats sv \<Longrightarrow> moved sv s sv' s'"
  by (rule movedI) (auto simp: accounts_def)

text \<open>What the invariant does not look at.\<close>

lemma owed_cong:
  "connections sv' = connections sv \<Longrightarrow> inflight sv' = inflight sv \<Longrightarrow> heap sv' = heap sv \<Longrightarrow>
    owed sv' hold = owed sv hold"
  by (rule ext, cases hold) (auto simp: sending_def split: option.splits)

lemma inv_frame:
  assumes "uinv sv hold" and "connections sv' = connections sv" "inflight sv' = inflight sv"
    "heap sv' = heap sv" "next_addr sv' = next_addr sv" "history sv' = history sv"
    "accepted (stats sv') = accepted (stats sv)" "closed (stats sv') = closed (stats sv)"
  shows "uinv sv' hold"
  using assms owed_cong [of sv' sv hold] by (simp add: uinv_defs)

lemma next_sqe_frame:
  assumes "next_sqe U sv s = (b, sv', s')"
  shows "\<exists>n. sv' = sv\<lparr>stats := (stats sv)\<lparr>syscalls := n\<rparr>\<rparr>"
  using assms
  by (cases "stats sv", cases sv)
     (auto simp: next_sqe_def Let_def split: prod.splits if_splits)

lemma next_sqe_inv:
  assumes "next_sqe U sv s = (b, sv', s')" and "uinv sv hold"
  shows "uinv sv' hold \<and> heap sv' = heap sv \<and> connections sv' = connections sv \<and> cfg sv' = cfg sv"
proof -
  from next_sqe_frame [OF assms(1)] obtain n where
    sv': "sv' = sv\<lparr>stats := (stats sv)\<lparr>syscalls := n\<rparr>\<rparr>" by blast
  with inv_frame [OF assms(2), of sv'] show ?thesis by simp
qed

lemma length_filter_remove1:
  "e \<in> set xs \<Longrightarrow>
    length (filter P xs) = length (filter P (remove1 e xs)) + (if P e then 1 else 0)"
  by (induction xs) auto

lemma inv_heapD:
  "uinv sv hold \<Longrightarrow> heap sv p = Some c \<Longrightarrow>
    p < next_addr sv \<and> 0 \<le> conn_fd c \<and> connections sv (conn_fd c) = Some p"
  by (auto simp: uinv_def linked_def)

lemma inv_connD:
  "uinv sv hold \<Longrightarrow> connections sv fd = Some p \<Longrightarrow> \<exists>c. heap sv p = Some c \<and> conn_fd c = fd"
  by (auto simp: uinv_def linked_def)

text \<open>What an attempt to put an accept or the poll into the ring does.\<close>

definition queued :: "syscall \<Rightarrow> event list \<Rightarrow> bool" where
  "queued c evs \<longleftrightarrow> evs = [E_call c (Inr 0)] \<or>
     (\<exists>r. evs = [E_call Sys_uring_submit r, E_call c (Inr 0)]) \<or>
     (\<exists>r. evs = [E_call Sys_uring_submit r])"

lemma next_sqe_queued:
  assumes "next_sqe U sv s = (b, sv', s')"
  shows "\<exists>evs. extends evs s s' \<and> sv' = sv\<lparr>stats := ring_tally evs (stats sv)\<rparr> \<and>
    (evs = [] \<and> b \<or> (\<exists>r. evs = [E_call Sys_uring_submit r]))"
proof (cases "fst (ur_get_sqe U (world s))")
  case True
  with assms show ?thesis
    by (intro exI [of _ "[]"]) (auto simp: next_sqe_def extends_def split: prod.splits)
next
  case False
  let ?w = "snd (ur_get_sqe U (world s))"
  let ?ev = "E_call Sys_uring_submit (rc_result (fst (ur_submit U ?w)))"
  from False assms have "extends [?ev] s s'"
    "sv' = sv\<lparr>stats := ring_tally [?ev] (stats sv)\<rparr>"
    by (auto simp: next_sqe_def Let_def extends_def split: prod.splits)
  then show ?thesis by blast
qed

lemma submit_accept_queued:
  assumes "submit_accept U sv s = (sv', s')"
  shows "\<exists>evs es. extends evs s s' \<and> queued (Sys_uring_accept (listener sv)) evs \<and>
    sv' = sv\<lparr>stats := ring_tally evs (stats sv), inflight := inflight sv @ es\<rparr> \<and>
    (es = [] \<or> es = [\<lparr>prep = Prep_accept (listener sv), user_data = Accept_Op\<rparr>])"
proof -
  obtain b sv1 s1 where ns: "next_sqe U sv s = (b, sv1, s1)" by (metis surj_pair)
  from next_sqe_queued [OF ns] obtain evs where
    e: "extends evs s s1" "sv1 = sv\<lparr>stats := ring_tally evs (stats sv)\<rparr>"
      "evs = [] \<and> b \<or> (\<exists>r. evs = [E_call Sys_uring_submit r])" by blast
  show ?thesis
  proof (cases b)
    case True
    with assms ns e show ?thesis
      by (intro exI [of _ "evs @ [E_call (Sys_uring_accept (listener sv)) (Inr 0)]"]
          exI [of _ "[\<lparr>prep = Prep_accept (listener sv), user_data = Accept_Op\<rparr>]"])
         (auto simp: submit_accept_def prepare_def queued_def extends_def)
  next
    case False
    with assms ns e show ?thesis
      by (intro exI [of _ evs] exI [of _ "[]"]) (auto simp: submit_accept_def queued_def)
  qed
qed

lemma submit_signal_poll_queued:
  assumes "submit_signal_poll U sv s = (sv', s')"
  shows "\<exists>evs es. extends evs s s' \<and> queued (Sys_uring_poll (signal sv) POLLIN) evs \<and>
    sv' = sv\<lparr>stats := ring_tally evs (stats sv), inflight := inflight sv @ es\<rparr> \<and>
    (es = [] \<or> es = [\<lparr>prep = Prep_poll (signal sv) POLLIN, user_data = Signal_Op\<rparr>])"
proof -
  obtain b sv1 s1 where ns: "next_sqe U sv s = (b, sv1, s1)" by (metis surj_pair)
  from next_sqe_queued [OF ns] obtain evs where
    e: "extends evs s s1" "sv1 = sv\<lparr>stats := ring_tally evs (stats sv)\<rparr>"
      "evs = [] \<and> b \<or> (\<exists>r. evs = [E_call Sys_uring_submit r])" by blast
  show ?thesis
  proof (cases b)
    case True
    with assms ns e show ?thesis
      by (intro exI [of _ "evs @ [E_call (Sys_uring_poll (signal sv) POLLIN) (Inr 0)]"]
          exI [of _ "[\<lparr>prep = Prep_poll (signal sv) POLLIN, user_data = Signal_Op\<rparr>]"])
         (auto simp: submit_signal_poll_def prepare_def queued_def extends_def)
  next
    case False
    with assms ns e show ?thesis
      by (intro exI [of _ evs] exI [of _ "[]"]) (auto simp: submit_signal_poll_def queued_def)
  qed
qed

lemma next_sqe_moved: "next_sqe U sv s = (b, sv', s') \<Longrightarrow> moved sv s sv' s'"
  by (auto simp: next_sqe_def Let_def extends_def intro: moved_none
      moved_one [where ev = "E_call Sys_uring_submit r" for r] split: prod.splits if_splits)

text \<open>With no entry about a connection, changing that connection changes no other.\<close>

lemma none_about:
  "length (filter (about p) xs) = 0 \<Longrightarrow> e \<in> set xs \<Longrightarrow> user_data e \<noteq> Recv_Op p \<and> user_data e \<noteq> Send_Op p"
  by (auto simp: about_def filter_empty_conv)

lemma entry_ok_other:
  "user_data e \<noteq> Recv_Op p \<Longrightarrow> user_data e \<noteq> Send_Op p \<Longrightarrow>
    entry_ok (h(p := x)) e = entry_ok h e"
  by (auto split: Op.splits)

lemma held_none_about:
  "uinv sv (Some (p, x)) \<Longrightarrow> e \<in> set (inflight sv) \<Longrightarrow>
    user_data e \<noteq> Recv_Op p \<and> user_data e \<noteq> Send_Op p"
  by (rule none_about [of p "inflight sv"]) (auto simp: uinv_def one_each_def)

text \<open>The held connection may be changed, as long as it keeps its descriptor.\<close>

lemma inv_update_held:
  assumes "uinv sv (Some (p, x))" and "heap sv p = Some c" and "conn_fd c' = conn_fd c"
  shows "uinv (sv\<lparr>heap := (heap sv)(p \<mapsto> c')\<rparr>) (Some (p, x))"
proof -
  note other = held_none_about [OF assms(1)]
  let ?sv = "sv\<lparr>heap := (heap sv)(p \<mapsto> c')\<rparr>"
  have "linked ?sv"
    using assms unfolding uinv_def linked_def by (fastforce split: if_splits)
  moreover have "one_each ?sv (Some (p, x))"
    using assms other by (auto simp: uinv_def one_each_def entry_ok_other simp del: entry_ok.simps)
  moreover have "owed ?sv (Some (p, x)) = owed sv (Some (p, x))"
    by (auto simp: sending_def split: option.splits)
  ultimately show ?thesis
    using assms(1) by (simp add: uinv_def echoing_def counted_def)
qed

lemma close_connection_inv:
  assumes inv: "uinv sv (Some (p, x))" and c: "heap sv p = Some c"
  shows "\<exists>sv' s'. close_connection K sv p s = Inr (sv', s') \<and> uinv sv' None \<and> cfg sv' = cfg sv \<and>
    moved sv s sv' s'"
proof -
  let ?fd = "conn_fd c"
  obtain r s1 where cl: "call K (Sys_close ?fd) s = (r, s1)" by (metis surj_pair)
  from call_extends [OF cl] obtain q where
    q: "r = c_int q" "extends [E_call (Sys_close ?fd) q] s s1" by blast
  have link: "0 \<le> ?fd" "connections sv ?fd = Some p"
    using inv c by (auto simp: uinv_def linked_def)
  have only: "connections sv fd = Some p \<Longrightarrow> fd = ?fd" for fd
    using inv c unfolding uinv_def linked_def by fastforce
  have alone: "heap sv q = Some c' \<Longrightarrow> q \<noteq> p \<Longrightarrow> conn_fd c' \<noteq> ?fd" for q c'
    using inv_heapD [OF inv, of q c'] link(2) by auto
  let ?sv = "sv\<lparr>history := history sv @ [E_call (Sys_close ?fd) (Inr r)],
      stats := closed_update (bump 1) (syscalls_update (bump 1) (stats sv)),
      connections := (connections sv)(?fd := None), heap := (heap sv)(p := None)\<rparr>"
  have "close_connection K sv p s = Inr (?sv, s1)"
    using c cl link by (simp add: close_connection_def Let_def)
  moreover have "linked ?sv"
    using inv c only alone by (auto simp: uinv_def linked_def)
  moreover have "one_each ?sv None"
    using inv held_none_about [OF inv]
    by (auto simp: uinv_def one_each_def entry_ok_other simp del: entry_ok.simps)
  moreover have "owed ?sv None = (owed sv (Some (p, x)))(?fd := [])"
    using only by (auto simp: fun_eq_iff sending_def split: option.splits)
  then have "echoing ?sv None"
    using inv by (simp add: uinv_def echoing_def echo_run_append)
  moreover have "counted ?sv"
  proof -
    have "finite (dom (connections sv))" "?fd \<in> dom (connections sv)"
      using inv link(2) by (auto simp: uinv_def linked_def)
    from card_Suc_Diff1 [OF this, symmetric]
    have "card (dom (connections sv)) = Suc (card (dom (connections sv) - {?fd}))" .
    then show ?thesis using inv by (simp add: uinv_def counted_def)
  qed
  moreover have "moved sv s ?sv s1"
    using q(2) by (rule movedI) (use q(1) link(2) in \<open>auto simp: accounts_def open_event_def\<close>)
  ultimately show ?thesis by (auto simp: uinv_def)
qed

text \<open>Putting the held connection's next operation in flight.\<close>

lemma prepare_inv:
  assumes inv: "uinv sv (Some (p, x))" and c: "heap sv p = Some c"
    and entry: "entry_ok (heap sv) e" "about p e"
    and x: "x = (if user_data e = Send_Op p then take (conn_pending c) (conn_buffer c) else [])"
    and run: "prepare U e sv s = (sv', s')"
  shows "uinv sv' None \<and> cfg sv' = cfg sv"
proof -
  have sv': "sv' = sv\<lparr>inflight := inflight sv @ [e]\<rparr>"
    using run by (simp add: prepare_def)
  note other = held_none_about [OF inv]
  have "about q e \<longleftrightarrow> q = p" for q
    using entry(2) by (auto simp: about_def)
  then have "one_each sv' None"
    using inv c entry by (auto simp: uinv_def one_each_def sv' simp del: entry_ok.simps)
  moreover have "sending sv' q = (if q = p then x else sending sv q)" for q
    using entry(2) other c x by (auto simp: sending_def sv' about_def)
  then have "owed sv' None = owed sv (Some (p, x))"
    by (auto simp: sv' fun_eq_iff split: option.splits)
  ultimately show ?thesis
    using inv by (simp add: uinv_def sv' linked_def echoing_def counted_def)
qed

lemma submit_recv_inv:
  assumes inv: "uinv sv (Some (p, []))" and c: "heap sv p = Some c"
  shows "\<exists>sv' s'. submit_recv U K sv p s = Inr (sv', s') \<and> uinv sv' None \<and> cfg sv' = cfg sv \<and>
    moved sv s sv' s'"
proof -
  obtain b sv1 s1 where ns: "next_sqe U sv s = (b, sv1, s1)" by (metis surj_pair)
  note m = next_sqe_moved [OF ns]
  from next_sqe_inv [OF ns inv] c have inv1: "uinv sv1 (Some (p, []))" and c1: "heap sv1 p = Some c"
    and cfg: "cfg sv1 = cfg sv" by auto
  show ?thesis
  proof (cases b)
    case False
    with close_connection_inv [OF inv1 c1, of K s1] ns cfg show ?thesis
      by (auto simp: submit_recv_def intro: moved_trans [OF m])
  next
    case True
    let ?e = "\<lparr>prep = Prep_recv (conn_fd c) p (length (conn_buffer c)), user_data = Recv_Op p\<rparr>"
    obtain sv2 s2 where pr: "prepare U ?e sv1 s1 = (sv2, s2)" by (metis surj_pair)
    have "uinv sv2 None \<and> cfg sv2 = cfg sv1"
      using inv1 c1 _ _ _ pr by (rule prepare_inv) (simp_all add: c1 about_def)
    moreover from pr have "moved sv1 s1 (sv2\<lparr>stats := read_calls_update (bump 1) (stats sv2)\<rparr>) s2"
      by (intro moved_one [where ev = "E_call (Sys_uring_recv (conn_fd c) (length (conn_buffer c))) (Inr 0)"])
         (auto simp: prepare_def)
    ultimately show ?thesis
      using inv_frame [of sv2 None "sv2\<lparr>stats := read_calls_update (bump 1) (stats sv2)\<rparr>"] True ns pr c1 cfg
      by (simp add: submit_recv_def moved_trans [OF m])
  qed
qed

lemma submit_send_inv:
  assumes inv: "uinv sv (Some (p, x))" and c: "heap sv p = Some c"
    and n: "x = take n (conn_buffer c)" "0 < n" "n \<le> length (conn_buffer c)"
  shows "\<exists>sv' s'. submit_send U K sv p n s = Inr (sv', s') \<and> uinv sv' None \<and> cfg sv' = cfg sv \<and>
    moved sv s sv' s'"
proof -
  obtain b sv1 s1 where ns: "next_sqe U sv s = (b, sv1, s1)" by (metis surj_pair)
  note m = next_sqe_moved [OF ns]
  from next_sqe_inv [OF ns inv] c have inv1: "uinv sv1 (Some (p, x))" and c1: "heap sv1 p = Some c"
    and cfg: "cfg sv1 = cfg sv" by auto
  show ?thesis
  proof (cases b)
    case False
    with close_connection_inv [OF inv1 c1, of K s1] ns cfg show ?thesis
      by (auto simp: submit_send_def intro: moved_trans [OF m])
  next
    case True
    let ?c = "c\<lparr>conn_pending := n\<rparr>"
    let ?sv = "sv1\<lparr>heap := (heap sv1)(p \<mapsto> ?c)\<rparr>"
    let ?e = "\<lparr>prep = Prep_send (conn_fd c) p n, user_data = Send_Op p\<rparr>"
    have inv2: "uinv ?sv (Some (p, x))" using inv1 c1 by (rule inv_update_held) simp
    obtain sv2 s2 where pr: "prepare U ?e ?sv s1 = (sv2, s2)" by (metis surj_pair)
    have "uinv sv2 None \<and> cfg sv2 = cfg ?sv"
      using inv2 _ _ _ _ pr by (rule prepare_inv [where c = ?c]) (simp_all add: n about_def)
    moreover from pr have "moved sv1 s1 (sv2\<lparr>stats := write_calls_update (bump 1) (stats sv2)\<rparr>) s2"
      by (intro moved_one [where ev = "E_call (Sys_uring_send (conn_fd c) n) (Inr 0)"])
         (auto simp: prepare_def)
    ultimately show ?thesis
      using inv_frame [of sv2 None "sv2\<lparr>stats := write_calls_update (bump 1) (stats sv2)\<rparr>"] True ns pr c1 cfg
      by (simp add: submit_send_def moved_trans [OF m])
  qed
qed

text \<open>An accept or a poll put in flight concerns no connection.\<close>

lemma prepare_other_inv:
  assumes "uinv sv hold" and "\<And>p. \<not> about p e" and "entry_ok (heap sv) e"
    and "prepare U e sv s = (sv', s')"
  shows "uinv sv' hold \<and> heap sv' = heap sv \<and> connections sv' = connections sv \<and> cfg sv' = cfg sv"
proof -
  have sv': "sv' = sv\<lparr>inflight := inflight sv @ [e]\<rparr>" using assms(4) by (simp add: prepare_def)
  have "sending sv' p = sending sv p" for p
    using assms(2) [of p] by (auto simp: sending_def sv' about_def)
  then have "owed sv' hold = owed sv hold"
    by (cases hold) (auto simp: sv' fun_eq_iff split: option.splits)
  with assms(1-3) show ?thesis
    by (simp add: uinv_def linked_def one_each_def echoing_def counted_def sv' del: entry_ok.simps)
qed

lemma submit_accept_inv:
  assumes "submit_accept U sv s = (sv', s')" and "uinv sv hold"
  shows "uinv sv' hold \<and> heap sv' = heap sv \<and> connections sv' = connections sv \<and> cfg sv' = cfg sv \<and>
    moved sv s sv' s'"
proof -
  obtain b sv1 s1 where ns: "next_sqe U sv s = (b, sv1, s1)" by (metis surj_pair)
  note frame = next_sqe_inv [OF ns assms(2)]
  note m = next_sqe_moved [OF ns]
  let ?e = "\<lparr>prep = Prep_accept (listener sv1), user_data = Accept_Op\<rparr>"
  show ?thesis
  proof (cases b)
    case False
    with assms(1) ns frame m show ?thesis by (simp add: submit_accept_def)
  next
    case True
    with assms(1) ns have pr: "prepare U ?e sv1 s1 = (sv', s')" by (simp add: submit_accept_def)
    then have "moved sv1 s1 sv' s'"
      by (intro moved_one [where ev = "E_call (Sys_uring_accept (listener sv1)) (Inr 0)"])
         (auto simp: prepare_def)
    with prepare_other_inv [of sv1 hold ?e U s1 sv' s'] frame pr show ?thesis
      by (simp add: about_def moved_trans [OF m])
  qed
qed

text \<open>A new connection.\<close>

lemma new_connection_inv:
  assumes inv: "uinv sv None" and fd: "0 \<le> fd" "connections sv fd = None"
    and mk: "make_conn fd sv = (p, sv1)"
    and sv2: "sv2 = (put_connection fd p sv1)\<lparr>stats := accepted_update (bump 1) (stats sv1)\<rparr>"
  shows "uinv sv2 (Some (p, [])) \<and> heap sv2 p \<noteq> None \<and> cfg sv2 = cfg sv"
proof -
  let ?c = "\<lparr>conn_fd = fd, conn_buffer = replicate (buffer_size (cfg sv)) (CHR 0x00), conn_pending = 0\<rparr>"
  have p: "p = next_addr sv" and sv2: "sv2 = sv\<lparr>heap := (heap sv)(p \<mapsto> ?c), next_addr := p + 1,
      connections := (connections sv)(fd \<mapsto> p), stats := accepted_update (bump 1) (stats sv)\<rparr>"
    using mk fd(2) sv2 by (auto simp: make_conn_def put_connection_def Let_def)
  have fresh: "heap sv p = None"
    using inv p by (auto simp: uinv_def linked_def) (meson less_irrefl not_Some_eq)
  then have no: "e \<in> set (inflight sv) \<Longrightarrow> user_data e \<noteq> Recv_Op p \<and> user_data e \<noteq> Send_Op p" for e
    using inv by (intro none_about [of p "inflight sv"]) (auto simp: uinv_def one_each_def)
  have unused: "connections sv fd' \<noteq> Some p" for fd'
    using inv fresh by (fastforce simp: uinv_def linked_def)
  have "linked sv2"
    using inv fd fresh unused p by (auto simp: uinv_def linked_def sv2 less_Suc_eq)
  moreover have "one_each sv2 (Some (p, []))"
    using inv no fresh by (auto simp: uinv_def one_each_def sv2 entry_ok_other simp del: entry_ok.simps)
  moreover have "owed sv2 (Some (p, [])) = owed sv None"
    using fd(2) no fresh by (auto simp: sv2 fun_eq_iff sending_def split: option.splits)
  moreover have "card (dom (connections sv2)) = Suc (card (dom (connections sv)))"
    using inv fd(2) by (simp add: sv2 uinv_def linked_def domIff)
  ultimately show ?thesis
    using inv by (simp add: uinv_def echoing_def counted_def sv2)
qed

text \<open>Taking an entry out of the ring.\<close>

lemma filter_one_unique:
  assumes "length (filter P xs) = 1" and "a \<in> set xs" "P a" "b \<in> set xs" "P b"
  shows "a = b"
proof -
  from assms(1) obtain z where z: "filter P xs = [z]" by (auto simp: length_Suc_conv)
  have "a \<in> set (filter P xs)" "b \<in> set (filter P xs)" using assms by auto
  then show ?thesis by (simp add: z)
qed

lemma take_out_inv:
  assumes inv: "uinv sv None" and e: "e \<in> set (inflight sv)" and p: "about p e"
  shows "uinv (sv\<lparr>inflight := remove1 e (inflight sv)\<rparr>) (Some (p, sending sv p))"
proof -
  let ?sv = "sv\<lparr>inflight := remove1 e (inflight sv)\<rparr>"
  have only: "about q e \<longleftrightarrow> q = p" for q using p by (auto simp: about_def)
  have "\<And>q. length (filter (about q) (inflight sv)) = (if heap sv q = None then 0 else 1)"
    using inv by (simp add: uinv_def one_each_def)
  then have len: "length (filter (about q) (remove1 e (inflight sv))) =
      (if heap sv q = None \<or> q = p then 0 else 1)" for q
    using length_filter_remove1 [OF e, of "about q"] by (auto simp: only split: if_splits)
  then have "one_each ?sv (Some (p, sending sv p))"
    using inv by (auto simp: uinv_def one_each_def dest: notin_set_remove1 simp del: entry_ok.simps)
  moreover have "sending ?sv q = sending sv q" if "q \<noteq> p" for q
  proof -
    have "user_data e \<noteq> Send_Op q" using p that by (auto simp: about_def)
    then have "(\<exists>e' \<in> set (remove1 e (inflight sv)). user_data e' = Send_Op q) \<longleftrightarrow>
        (\<exists>e' \<in> set (inflight sv). user_data e' = Send_Op q)"
      using set_remove1_subset [of e "inflight sv"] by (metis in_set_remove1 subsetD)
    then show ?thesis by (simp add: sending_def)
  qed
  then have "owed ?sv (Some (p, sending sv p)) = owed sv None"
    by (auto simp: fun_eq_iff split: option.splits)
  ultimately show ?thesis
    using inv by (simp add: uinv_def linked_def echoing_def counted_def)
qed

lemma take_out_other_inv:
  assumes inv: "uinv sv None" and e: "e \<in> set (inflight sv)" and p: "\<And>p. \<not> about p e"
  shows "uinv (sv\<lparr>inflight := remove1 e (inflight sv)\<rparr>) None"
proof -
  let ?sv = "sv\<lparr>inflight := remove1 e (inflight sv)\<rparr>"
  have "one_each ?sv None"
    using inv length_filter_remove1 [OF e] p
    by (auto simp: uinv_def one_each_def dest: notin_set_remove1 simp del: entry_ok.simps)
  moreover have "sending ?sv q = sending sv q" for q
  proof -
    have "user_data e \<noteq> Send_Op q" using p [of q] by (auto simp: about_def)
    then have "(\<exists>e' \<in> set (remove1 e (inflight sv)). user_data e' = Send_Op q) \<longleftrightarrow>
        (\<exists>e' \<in> set (inflight sv). user_data e' = Send_Op q)"
      using set_remove1_subset [of e "inflight sv"] by (metis in_set_remove1 subsetD)
    then show ?thesis by (simp add: sending_def)
  qed
  then have "owed ?sv None = owed sv None"
    by (auto simp: fun_eq_iff split: option.splits)
  ultimately show ?thesis
    using inv by (simp add: uinv_def linked_def echoing_def counted_def)
qed

text \<open>A step of the monitor at the held connection.\<close>

lemma inv_event:
  assumes inv: "uinv sv (Some (p, x))" and c: "heap sv p = Some c"
    and ev: "\<And>q. q (conn_fd c) = x \<Longrightarrow> echo_event (-1) ev q = Some (q(conn_fd c := y))"
  shows "uinv (sv\<lparr>history := history sv @ [ev]\<rparr>) (Some (p, y))"
proof -
  let ?sv = "sv\<lparr>history := history sv @ [ev]\<rparr>"
  have at: "connections sv (conn_fd c) = Some p" using inv_heapD [OF inv c] by simp
  have off: "fd \<noteq> conn_fd c \<Longrightarrow> connections sv fd \<noteq> Some p" for fd
    using inv_connD [OF inv, of fd p] c by auto
  have "sending ?sv q = sending sv q" for q by (simp add: sending_def)
  with at off have "owed ?sv (Some (p, y)) fd = ((owed sv (Some (p, x)))(conn_fd c := y)) fd" for fd
    by (cases "fd = conn_fd c") (auto split: option.splits)
  then have "owed ?sv (Some (p, y)) = (owed sv (Some (p, x)))(conn_fd c := y)"
    by (rule ext)
  moreover have "owed sv (Some (p, x)) (conn_fd c) = x" using at by simp
  ultimately have "echo_run (-1) (history ?sv) idle = Some (owed ?sv (Some (p, y)))"
    using inv ev [of "owed sv (Some (p, x))"]
    by (simp add: uinv_def echoing_def echo_run_append del: owed.simps)
  with inv show ?thesis
    by (simp add: uinv_def linked_def one_each_def echoing_def counted_def del: entry_ok.simps owed.simps)
qed

subsection \<open>Every completion keeps the invariant\<close>

lemma recv_complete_inv:
  assumes inv: "uinv sv None" and e: "e \<in> set (inflight sv)" "user_data e = Recv_Op p"
    and legal: "legal sv (prep e) oc"
  shows "\<exists>sv' s'. complete U K sv e oc s = Inr (sv', s') \<and> uinv sv' None \<and> cfg sv' = cfg sv \<and>
    moved sv s sv' s'"
proof -
  from inv e have "entry_ok (heap sv) e" by (auto simp: uinv_def one_each_def)
  with e(2) obtain c where c: "heap sv p = Some c"
    and pr: "prep e = Prep_recv (conn_fd c) p (length (conn_buffer c))"
    by (auto split: option.splits)
  have fd: "conn_fd c \<noteq> -1" using inv_heapD [OF inv c] by auto
  have "length (filter (about p) (inflight sv)) = 1"
    using inv c by (simp add: uinv_def one_each_def)
  from filter_one_unique [OF this e(1)] e(2) have idle_p: "sending sv p = []"
    by (auto simp: sending_def about_def)
  let ?sv = "sv\<lparr>inflight := remove1 e (inflight sv)\<rparr>"
  from idle_p have inv0: "uinv ?sv (Some (p, []))"
    using take_out_inv [OF inv e(1), of p] e(2) by (simp add: about_def)
  show ?thesis
  proof (cases oc)
    case (Failed x)
    let ?sv1 = "?sv\<lparr>history := history sv @ [E_read (conn_fd c) (length (conn_buffer c)) (Inl x)]\<rparr>"
    have "uinv ?sv1 (Some (p, []))"
      using inv_event [OF inv0, of c "E_read (conn_fd c) (length (conn_buffer c)) (Inl x)" "[]"] c fd
      by (simp add: fun_upd_idem)
    moreover have "moved sv s ?sv1
        (log_event (E_read (conn_fd c) (length (conn_buffer c)) (Inl x)) s)"
      by (rule moved_io) simp_all
    ultimately show ?thesis
      using close_connection_inv [of ?sv1 p "[]" c K
        "log_event (E_read (conn_fd c) (length (conn_buffer c)) (Inl x)) s"] Failed c pr e(2) legal
      by (auto simp: complete_def perform_def handle_completion_def completed_event_def
          intro: moved_trans)
  next
    case (Got d)
    let ?ev = "E_read (conn_fd c) (length (conn_buffer c)) (Inr d)"
    let ?c = "c\<lparr>conn_buffer := d @ drop (length d) (conn_buffer c)\<rparr>"
    let ?sv1 = "?sv\<lparr>heap := (heap sv)(p \<mapsto> ?c)\<rparr>"
    let ?sv2 = "?sv1\<lparr>history := history sv @ [?ev]\<rparr>"
    have "uinv ?sv1 (Some (p, []))"
      using inv_update_held [OF inv0, of c ?c] c by simp
    from inv_event [OF this, of ?c ?ev d] fd have inv2: "uinv ?sv2 (Some (p, d))" by simp
    show ?thesis
    proof (cases "d = []")
      case True
      have "moved sv s ?sv2 (log_event ?ev s)" by (rule moved_io) (simp_all add: True)
      with inv2 close_connection_inv [of ?sv2 p "[]" ?c K "log_event ?ev s"] Got c pr e(2) True
      show ?thesis
        by (auto simp: complete_def perform_def handle_completion_def completed_event_def
            intro: moved_trans)
    next
      case False
      let ?sv3 = "?sv2\<lparr>stats := bytes_update (bump (of_nat (length d)))
        (requests_update (bump 1) (stats sv))\<rparr>"
      have "uinv ?sv3 (Some (p, d))" using inv2 by (rule inv_frame) simp_all
      moreover have "moved sv s ?sv3 (log_event ?ev s)" by (rule moved_io) (simp_all add: False)
      ultimately show ?thesis
        using submit_send_inv [of ?sv3 p d ?c "length d" U K "log_event ?ev s"] False Got c pr e(2) legal
        by (auto simp: complete_def perform_def handle_completion_def completed_event_def Let_def
            intro: moved_trans)
    qed
  qed (use legal pr in simp_all)
qed

lemma send_complete_inv:
  assumes inv: "uinv sv None" and e: "e \<in> set (inflight sv)" "user_data e = Send_Op p"
    and legal: "legal sv (prep e) oc"
  shows "\<exists>sv' s'. complete U K sv e oc s = Inr (sv', s') \<and> uinv sv' None \<and> cfg sv' = cfg sv \<and>
    moved sv s sv' s'"
proof -
  from inv e have "entry_ok (heap sv) e" by (auto simp: uinv_def one_each_def)
  with e(2) obtain c where c: "heap sv p = Some c"
    and pr: "prep e = Prep_send (conn_fd c) p (conn_pending c)"
    and len: "0 < conn_pending c" "conn_pending c \<le> length (conn_buffer c)"
    by (auto split: option.splits)
  let ?d = "take (conn_pending c) (conn_buffer c)"
  have d: "?d \<noteq> []" "length ?d = conn_pending c" using len by auto
  let ?sv = "sv\<lparr>inflight := remove1 e (inflight sv)\<rparr>"
  have "sending sv p = ?d" using e c by (auto simp: sending_def)
  then have inv0: "uinv ?sv (Some (p, ?d))"
    using take_out_inv [OF inv e(1), of p] e(2) by (simp add: about_def)
  show ?thesis
  proof (cases oc)
    case (Failed x)
    let ?ev = "E_write (conn_fd c) ?d (Inl x)"
    let ?sv1 = "?sv\<lparr>history := history sv @ [?ev]\<rparr>"
    have "uinv ?sv1 (Some (p, ?d))"
      using inv_event [OF inv0, of c ?ev ?d] c d by (simp add: fun_upd_idem)
    moreover have "moved sv s ?sv1 (log_event ?ev s)" by (rule moved_io) simp_all
    ultimately show ?thesis
      using close_connection_inv [of ?sv1 p ?d c K "log_event ?ev s"] Failed c pr e(2) legal
      by (auto simp: complete_def perform_def handle_completion_def completed_event_def
          intro: moved_trans)
  next
    case (Sent k)
    with legal pr have k: "0 < k" "k \<le> conn_pending c" by simp_all
    let ?ev = "E_write (conn_fd c) ?d (Inr k)"
    let ?sv1 = "?sv\<lparr>history := history sv @ [?ev]\<rparr>"
    have inv1: "uinv ?sv1 (Some (p, drop k ?d))"
      using inv_event [OF inv0, of c ?ev "drop k ?d"] c d by simp
    have m: "moved sv s ?sv1 (log_event ?ev s)" by (rule moved_io) simp_all
    show ?thesis
    proof (cases "k < conn_pending c")
      case False
      with k d have "drop k ?d = []" by simp
      with inv1 have "uinv ?sv1 (Some (p, []))" by simp
      from submit_recv_inv [OF this, of c U K "log_event ?ev s"] Sent False k c pr e(2) m show ?thesis
        by (auto simp: complete_def perform_def handle_completion_def completed_event_def
            intro: moved_trans)
    next
      case True
      let ?n = "conn_pending c - k"
      let ?c = "c\<lparr>conn_buffer := memmove_front k ?n (conn_buffer c)\<rparr>"
      let ?sv2 = "?sv1\<lparr>heap := (heap sv)(p \<mapsto> ?c)\<rparr>"
      have "uinv ?sv2 (Some (p, drop k ?d))"
        using inv_update_held [OF inv1, of c ?c] c by simp
      moreover have "drop k ?d = take ?n (conn_buffer ?c)" "?n \<le> length (conn_buffer ?c)"
        using len True by (simp_all add: memmove_front_def drop_take)
      moreover have "moved sv s ?sv2 (log_event ?ev s)" by (rule moved_io) simp_all
      ultimately show ?thesis
        using submit_send_inv [of ?sv2 p "drop k ?d" ?c ?n U K "log_event ?ev s"] Sent True k c pr e(2)
        by (auto simp: complete_def perform_def handle_completion_def completed_event_def Let_def
            intro: moved_trans)
    qed
  qed (use legal pr in simp_all)
qed

text \<open>The moves of an accept that got a connection, up to its first receive.\<close>

lemma accepted_moved:
  assumes acc: "submit_accept U (sv\<lparr>inflight := es\<rparr>)
      (log_event (E_call (Sys_accept4 l []) (Inr (int n))) s) = (sv1, s1)"
    and nd: "set_nodelay K (int n) s1 = (b, s2)" and mk: "make_conn (int n) sv1 = (p, sv2)"
    and free: "connections sv (int n) = None"
  shows "moved sv s ((put_connection (int n) p sv2)\<lparr>stats := accepted_update (bump 1)
      (stats (put_connection (int n) p sv2))\<rparr>) s2"
proof -
  let ?acc = "E_call (Sys_accept4 l []) (Inr (int n))"
  from submit_accept_queued [OF acc] obtain evs where
    evs: "extends evs (log_event ?acc s) s1" "queued (Sys_uring_accept (listener sv)) evs"
      "listener sv1 = listener sv" "signal sv1 = signal sv" "history sv1 = history sv"
      "stats sv1 = ring_tally evs (stats sv)" "connections sv1 = connections sv"
      "running sv1 = running sv" "ring_initialised sv1 = ring_initialised sv" by auto
  from nd obtain m where "call K (Sys_setsockopt (int n) TCP_NODELAY) s1 = (m, s2)"
    by (auto simp: set_nodelay_def split: prod.splits)
  from call_extends [OF this] obtain q where
    q: "extends [E_call (Sys_setsockopt (int n) TCP_NODELAY) q] s1 s2" by blast
  have put: "put_connection (int n) p sv2 = sv2\<lparr>connections := (connections sv2)(int n \<mapsto> p)\<rparr>"
    and sv2: "listener sv2 = listener sv1" "signal sv2 = signal sv1" "history sv2 = history sv1"
      "stats sv2 = stats sv1" "connections sv2 = connections sv1" "running sv2 = running sv1"
      "ring_initialised sv2 = ring_initialised sv1"
    using mk free evs(7) by (auto simp: put_connection_def make_conn_def Let_def)
  show ?thesis
  proof (rule movedI)
    show "extends (?acc # evs @ [E_call (Sys_setsockopt (int n) TCP_NODELAY) q]) s s2"
      using evs(1) q by (auto simp: extends_def)
    show "accounts (?acc # evs @ [E_call (Sys_setsockopt (int n) TCP_NODELAY) q]) sv
        ((put_connection (int n) p sv2)\<lparr>stats := accepted_update (bump 1)
          (stats (put_connection (int n) p sv2))\<rparr>)"
      using evs(2-) free by (auto simp: accounts_def put sv2 open_event_def queued_def only_valid_def)
  qed
qed

lemma accept_complete_inv:
  assumes inv: "uinv sv None" and e: "e \<in> set (inflight sv)" "user_data e = Accept_Op"
    and legal: "legal sv (prep e) oc"
  shows "case complete U K sv e oc s of
      Inl x \<Rightarrow> x = Length_Error \<and> \<not> vector_length_ok 1 (buffer_size (cfg sv))
    | Inr (sv', s') \<Rightarrow> uinv sv' None \<and> cfg sv' = cfg sv \<and> moved sv s sv' s'"
proof -
  from inv e have "entry_ok (heap sv) e" by (auto simp: uinv_def one_each_def)
  with e(2) obtain l where pr: "prep e = Prep_accept l" by (auto split: prep.splits)
  let ?sv = "sv\<lparr>inflight := remove1 e (inflight sv)\<rparr>"
  have inv0: "uinv ?sv None"
    using inv e(1) by (rule take_out_other_inv) (simp add: about_def e(2))
  let ?ev = "E_call (Sys_accept4 l []) (rc_result (result_of oc))"
  obtain sv1 s1 where acc: "submit_accept U ?sv (log_event ?ev s) = (sv1, s1)" by (metis surj_pair)
  note frame = submit_accept_inv [OF acc inv0]
  show ?thesis
  proof (cases oc)
    case (Failed x)
    with legal have "moved sv s ?sv (log_event ?ev s)"
      by (intro moved_io) (simp_all add: rc_result_def only_valid_def)
    with frame Failed legal acc pr e(2) show ?thesis
      by (auto simp: complete_def perform_def handle_completion_def completed_event_def
          intro: moved_trans)
  next
    case (Fd n)
    obtain b s2 where nd: "set_nodelay K (int n) s1 = (b, s2)" by (metis surj_pair)
    obtain raw sv2 where mk: "make_conn (int n) sv1 = (raw, sv2)" by (metis surj_pair)
    let ?sv3 = "(put_connection (int n) raw sv2)\<lparr>stats := accepted_update (bump 1)
      (stats (put_connection (int n) raw sv2))\<rparr>"
    have st: "stats (put_connection (int n) raw sv2) = stats sv2"
      by (simp add: put_connection_def Let_def split: option.splits)
    have free: "connections sv1 (int n) = None" using frame legal pr Fd by simp
    from new_connection_inv [OF _ _ free mk, of ?sv3] frame st
    have "uinv ?sv3 (Some (raw, []))" "heap ?sv3 raw \<noteq> None" "cfg ?sv3 = cfg sv1" by simp_all
    with submit_recv_inv [of ?sv3 raw] obtain sv4 s4 where
      last: "submit_recv U K ?sv3 raw s2 = Inr (sv4, s4)" "uinv sv4 None" "cfg sv4 = cfg sv1"
        "moved ?sv3 s2 sv4 s4"
      by fastforce
    have "moved sv s ?sv3 s2"
      using accepted_moved [where sv = sv and l = l and s = s and U = U and
        es = "remove1 e (inflight sv)", OF _ nd mk] acc Fd legal pr by (simp add: rc_result_def)
    with last show ?thesis
      using Fd pr e(2) acc nd mk frame
      by (auto simp: complete_def perform_def handle_completion_def completed_event_def
          intro: moved_trans)
  qed (use legal pr in simp_all)
qed

text \<open>The signal poll: the server stops, nothing else happens.\<close>

lemma signal_complete_inv:
  assumes inv: "uinv sv None" and e: "e \<in> set (inflight sv)" "user_data e = Signal_Op"
    and pr: "prep e = Prep_poll (signal sv) POLLIN"
  shows "\<exists>sv' s'. complete U K sv e oc s = Inr (sv', s') \<and> uinv sv' None \<and> cfg sv' = cfg sv \<and>
    moved sv s sv' s'"
proof -
  let ?sv = "sv\<lparr>inflight := remove1 e (inflight sv)\<rparr>"
  have "uinv ?sv None"
    using inv e(1) by (rule take_out_other_inv) (simp add: about_def e(2))
  then have "uinv (?sv\<lparr>running := False\<rparr>) None" by (rule inv_frame) simp_all
  moreover have "moved sv s (?sv\<lparr>running := False\<rparr>) (log_event (completed_event (heap sv) e oc) s)"
    by (rule movedI [OF log_event_extends(1)])
       (simp add: accounts_def open_event_def completed_event_def pr)
  ultimately show ?thesis using pr e(2)
    by (simp add: complete_def perform_def handle_completion_def)
qed

text \<open>
  Beside the operations of the connections there is at most one accept, of the listener, and at
  most one poll, of the signal descriptor.
\<close>

definition others :: "uring_server \<Rightarrow> sqe list" where
  "others sv = filter (\<lambda>e. user_data e = Accept_Op \<or> user_data e = Signal_Op) (inflight sv)"

definition posted :: "uring_server \<Rightarrow> bool" where
  "posted sv \<longleftrightarrow> distinct (others sv) \<and>
     set (others sv) \<subseteq> {\<lparr>prep = Prep_accept (listener sv), user_data = Accept_Op\<rparr>,
       \<lparr>prep = Prep_poll (signal sv) POLLIN, user_data = Signal_Op\<rparr>}"

lemma postedD:
  "posted sv \<Longrightarrow> e \<in> set (inflight sv) \<Longrightarrow> user_data e = Signal_Op \<Longrightarrow> prep e = Prep_poll (signal sv) POLLIN"
  "posted sv \<Longrightarrow> e \<in> set (inflight sv) \<Longrightarrow> user_data e = Accept_Op \<Longrightarrow>
    e = \<lparr>prep = Prep_accept (listener sv), user_data = Accept_Op\<rparr>"
  by (auto simp: posted_def others_def)

lemma complete_inv:
  assumes "uinv sv None" and "e \<in> set (inflight sv)" and "legal sv (prep e) oc" and "posted sv"
  shows "case complete U K sv e oc s of
      Inl x \<Rightarrow> x = Length_Error \<and> \<not> vector_length_ok 1 (buffer_size (cfg sv))
    | Inr (sv', s') \<Rightarrow> uinv sv' None \<and> cfg sv' = cfg sv \<and> moved sv s sv' s'"
proof (cases "user_data e")
  case Accept_Op
  from accept_complete_inv [OF assms(1,2) this assms(3)] show ?thesis .
next
  case Signal_Op
  from signal_complete_inv [OF assms(1,2) this postedD(1) [OF assms(4,2) this], of U K oc s]
  show ?thesis by auto
next
  case (Recv_Op p)
  from recv_complete_inv [OF assms(1,2) this assms(3), of U K s] show ?thesis by auto
next
  case (Send_Op p)
  from send_complete_inv [OF assms(1,2) this assms(3), of U K s] show ?thesis by auto
qed

text \<open>A completion takes its entry away; only that of an accept can put one back.\<close>

lemma next_sqe_others: "next_sqe U sv s = (b, sv', s') \<Longrightarrow> inflight sv' = inflight sv"
  by (auto dest!: next_sqe_frame)

lemma close_connection_others:
  "close_connection K sv p s = Inr (sv', s') \<Longrightarrow> inflight sv' = inflight sv"
  by (auto simp: close_connection_def Let_def split: option.splits prod.splits if_splits)

lemma submit_others:
  "submit_recv U K sv p s = Inr (sv', s') \<Longrightarrow> others sv' = others sv"
  "submit_send U K sv p n s = Inr (sv', s') \<Longrightarrow> others sv' = others sv"
  by (auto simp: submit_recv_def submit_send_def prepare_def others_def
      dest!: next_sqe_others close_connection_others
      split: prod.splits if_splits option.splits)

lemma perform_inflight: "perform e oc sv = Inr sv' \<Longrightarrow> inflight sv' = inflight sv \<and>
    listener sv' = listener sv \<and> stats sv' = stats sv"
  by (auto simp: perform_def split: prep.splits outcome.splits option.splits)

lemma new_connection_others:
  "make_conn fd sv = (p, sv1) \<Longrightarrow> others (put_connection fd p sv1) = others sv"
  by (auto simp: make_conn_def put_connection_def Let_def others_def split: option.splits)

lemma others_frame: "inflight sv' = inflight sv \<Longrightarrow> others sv' = others sv"
  by (simp add: others_def)

lemma accept_others:
  assumes run: "handle_completion U K sv (Some Accept_Op) n s = Inr (sv', s')"
    and acc: "submit_accept U sv s = (sv1, s1)"
  shows "others sv' = others sv1"
proof (cases "0 \<le> n")
  case False
  with run acc show ?thesis by (simp add: handle_completion_def)
next
  case True
  obtain b s2 where nd: "set_nodelay K n s1 = (b, s2)" by (metis surj_pair)
  obtain p sv2 where mk: "make_conn n sv1 = (p, sv2)" by (metis surj_pair)
  let ?sv = "put_connection n p sv2"
  let ?sv3 = "?sv\<lparr>stats := accepted_update (bump 1) (stats ?sv)\<rparr>"
  from run acc True nd mk have "submit_recv U K ?sv3 p s2 = Inr (sv', s')"
    by (auto simp: handle_completion_def Let_def split: if_splits)
  from submit_others(1) [OF this] new_connection_others [OF mk] others_frame [of ?sv3 ?sv]
  show ?thesis by simp
qed

lemma handle_others:
  assumes "handle_completion U K sv (Some d) n s = Inr (sv', s')" and "d \<noteq> Accept_Op"
  shows "others sv' = others sv"
proof (cases d)
  case Accept_Op
  with assms(2) show ?thesis by simp
next
  case Signal_Op
  with assms(1) show ?thesis by (auto simp: handle_completion_def others_def)
next
  case (Recv_Op p)
  with assms(1) show ?thesis
    by (auto simp: handle_completion_def Let_def others_frame [OF close_connection_others]
        dest!: submit_others(2) split: option.splits if_splits)
       (simp add: others_def)
next
  case (Send_Op p)
  with assms(1) show ?thesis
    by (auto simp: handle_completion_def Let_def others_frame [OF close_connection_others]
        dest!: submit_others split: option.splits if_splits)
       (simp add: others_def)
qed

lemma completeE:
  assumes "complete U K sv e oc s = Inr (sv', s')"
  obtains sv1 where "inflight sv1 = remove1 e (inflight sv)" "listener sv1 = listener sv"
    "stats sv1 = stats sv" "others sv1 = remove1 e (others sv)"
    "handle_completion U K sv1 (Some (user_data e)) (result_of oc)
      (log_event (completed_event (heap sv) e oc) s) = Inr (sv', s')"
proof -
  from assms obtain sv1 where p: "perform e oc (sv\<lparr>inflight := remove1 e (inflight sv)\<rparr>) = Inr sv1"
    "handle_completion U K sv1 (Some (user_data e)) (result_of oc)
      (log_event (completed_event (heap sv) e oc) s) = Inr (sv', s')"
    by (auto simp: complete_def cbind_Inr_iff)
  with perform_inflight [OF p(1)] show ?thesis
    by (intro that [of sv1]) (simp_all add: others_def filter_remove1)
qed

lemma complete_posted:
  assumes "complete U K sv e oc s = Inr (sv', s')" and "e \<in> set (inflight sv)" and "posted sv"
    and same: "listener sv' = listener sv" "signal sv' = signal sv"
  shows "posted sv'"
proof -
  from assms(1) obtain sv1 where sv1: "listener sv1 = listener sv"
    "others sv1 = remove1 e (others sv)" and
    run: "handle_completion U K sv1 (Some (user_data e)) (result_of oc)
      (log_event (completed_event (heap sv) e oc) s) = Inr (sv', s')"
    by (rule completeE)
  have less: "distinct (others sv1)" "set (others sv1) \<subseteq> set (others sv)" "e \<notin> set (others sv1)"
    using assms(3) sv1(2) by (simp_all add: posted_def set_remove1_subset)
  show ?thesis
  proof (cases "user_data e = Accept_Op")
    case True
    let ?a = "\<lparr>prep = Prep_accept (listener sv), user_data = Accept_Op\<rparr>"
    have e: "e = ?a" using postedD(2) [OF assms(3,2) True] .
    obtain sv2 s2 where acc: "submit_accept U sv1 (log_event (completed_event (heap sv) e oc) s) =
        (sv2, s2)" by (metis surj_pair)
    from submit_accept_queued [OF acc] sv1(1) have
      "others sv2 = others sv1 \<or> others sv2 = others sv1 @ [?a]" by (auto simp: others_def)
    with accept_others [OF run [unfolded True] acc] less e assms(3) same show ?thesis
      by (auto simp: posted_def)
  next
    case False
    with handle_others [OF run] less assms(3) same show ?thesis by (auto simp: posted_def)
  qed
qed

subsection \<open>Reachable states\<close>

text \<open>
  The server as a state machine: any operation in flight may complete with any legal outcome,
  in any order; \<open>submit_and_wait\<close> is counted; everything outside the server (the world, what
  the rest of the program prints and calls) moves on its own.
\<close>

inductive uring_step ::
  "'w uring \<Rightarrow> 'w kernel \<Rightarrow> uring_server \<times> 'w os \<Rightarrow> uring_server \<times> 'w os \<Rightarrow> bool"
  for U :: "'w uring" and K :: "'w kernel" where
  waited: "uring_step U K (sv, s)
    (sv\<lparr>stats := syscalls_update (bump 1) (wait_calls_update (bump 1) (stats sv))\<rparr>, s)"
| outside: "uring_step U K (sv, s) (sv, s')"
| completed: "e \<in> set (inflight sv) \<Longrightarrow> legal sv (prep e) oc \<Longrightarrow>
    complete U K sv e oc s = Inr (sv', s') \<Longrightarrow> uring_step U K (sv, s) (sv', s')"

inductive_cases uring_stepE: "uring_step U K (sv, s) (sv', s')"

inductive uring_reach :: "'w uring \<Rightarrow> 'w kernel \<Rightarrow> uring_server \<Rightarrow> 'w os \<Rightarrow> bool"
  for U :: "'w uring" and K :: "'w kernel" where
  started: "start U K (UringServer_init c) error s = ((True, error'), sv, s') \<Longrightarrow>
    uring_reach U K sv s'"
| stepped: "uring_reach U K sv s \<Longrightarrow> uring_step U K (sv, s) (sv', s') \<Longrightarrow> uring_reach U K sv' s'"

lemma init_inv: "uinv (UringServer_init c) None"
  by (simp add: UringServer_init_def uinv_defs Stats_init_def fun_eq_iff)

lemma submit_signal_poll_inv:
  assumes "submit_signal_poll U sv s = (sv', s')" and "uinv sv hold"
  shows "uinv sv' hold"
proof -
  obtain b sv1 s1 where ns: "next_sqe U sv s = (b, sv1, s1)" by (metis surj_pair)
  note frame = next_sqe_inv [OF ns assms(2)]
  let ?e = "\<lparr>prep = Prep_poll (signal sv1) POLLIN, user_data = Signal_Op\<rparr>"
  show ?thesis
  proof (cases b)
    case False
    with assms(1) ns frame show ?thesis by (simp add: submit_signal_poll_def)
  next
    case True
    with assms(1) ns have "prepare U ?e sv1 s1 = (sv', s')" by (simp add: submit_signal_poll_def)
    with prepare_other_inv [of sv1 hold ?e U s1 sv' s'] frame show ?thesis by (simp add: about_def)
  qed
qed

text \<open>A start that succeeds, in full.\<close>

definition uring_started :: "Config \<Rightarrow> event list \<Rightarrow> uring_server \<Rightarrow> bool" where
  "uring_started c pre sv \<longleftrightarrow> 0 \<le> listener sv \<and> 0 \<le> signal sv \<and>
     (\<exists>n acc poll. 0 \<le> n \<and> queued (Sys_uring_accept (listener sv)) acc \<and>
       queued (Sys_uring_poll (signal sv) POLLIN) poll \<and>
       pre = startup (port c) 1024 (listener sv) (signal sv) @
         E_call (Sys_uring_setup 256) (Inr n) # acc @ poll \<and>
       stats sv = ring_tally (acc @ poll) Stats_init) \<and>
     history sv = [] \<and> connections sv = Map.empty \<and> running sv \<and> ring_initialised sv \<and> posted sv"

lemma start_started:
  assumes "start U K (UringServer_init c) error s = ((True, error'), sv, s')"
  shows "\<exists>pre. extends pre s s' \<and> uring_started c pre sv"
proof -
  let ?sv = "UringServer_init c"
  have empty: "listener ?sv = -1" "signal ?sv = -1" "cfg ?sv = c" by (simp_all add: UringServer_init_def)
  have reset: "Socket_reset K (-1) fd s = (fd, s)" for fd s by (simp add: Socket_reset_def)
  obtain l e1 s1 where l: "listen_tcp K (port c) 1024 error s = ((l, e1), s1)" by (metis surj_pair)
  with assms empty have l0: "0 \<le> l"
    by (cases "0 \<le> l") (auto simp: start_def reset Socket_valid_def Let_def)
  obtain g e2 s2 where g: "signal_fd K e1 s1 = ((g, e2), s2)" by (metis surj_pair)
  with assms empty l l0 have g0: "0 \<le> g"
    by (cases "0 \<le> g") (auto simp: start_def reset Socket_valid_def Let_def)
  obtain rc w where q: "ur_queue_init U kQueueDepth (world s2) = (rc, w)" by fastforce
  let ?s3 = "log_event (E_call (Sys_uring_setup kQueueDepth) (rc_result rc)) (s2\<lparr>world := w\<rparr>)"
  from assms empty l l0 g g0 q have rc: "\<not> rc < 0"
    by (cases "rc < 0") (auto simp: start_def reset Socket_valid_def Let_def)
  let ?sv1 = "?sv\<lparr>listener := l, signal := g, ring_initialised := True\<rparr>"
  obtain sv2 s4 where a: "submit_accept U ?sv1 ?s3 = (sv2, s4)" by (metis surj_pair)
  obtain sv3 s5 where b: "submit_signal_poll U sv2 s4 = (sv3, s5)" by (metis surj_pair)
  have res: "sv = sv3" "s' = s5"
    using assms l g empty l0 g0 q rc a b by (auto simp: start_def reset Socket_valid_def)
  from submit_accept_queued [OF a] obtain ea xa where
    ea: "extends ea ?s3 s4" "queued (Sys_uring_accept l) ea"
      "sv2 = ?sv1\<lparr>stats := ring_tally ea (stats ?sv1), inflight := inflight ?sv1 @ xa\<rparr>"
      "xa = [] \<or> xa = [\<lparr>prep = Prep_accept l, user_data = Accept_Op\<rparr>]" by auto
  from submit_signal_poll_queued [OF b] obtain eb xb where
    eb: "extends eb s4 s5" "queued (Sys_uring_poll g POLLIN) eb"
      "sv3 = sv2\<lparr>stats := ring_tally eb (stats sv2), inflight := inflight sv2 @ xb\<rparr>"
      "xb = [] \<or> xb = [\<lparr>prep = Prep_poll g POLLIN, user_data = Signal_Op\<rparr>]"
    using ea(3) by auto
  have "extends (startup (port c) 1024 l g) s s2" by (rule startup_extends [OF l l0 g g0])
  then have "extends (startup (port c) 1024 l g @ E_call (Sys_uring_setup 256) (Inr rc) # ea @ eb) s s5"
    using ea(1) eb(1) rc by (simp add: extends_def rc_result_def kQueueDepth_def)
  moreover have "posted sv3"
    using ea(3,4) eb(3,4) by (auto simp: posted_def others_def UringServer_init_def)
  then have "uring_started c (startup (port c) 1024 l g @ E_call (Sys_uring_setup 256) (Inr rc) # ea @ eb) sv3"
    unfolding uring_started_def using ea(2,3) eb(2,3) l0 g0 rc
    apply (intro conjI)
            apply (simp_all add: UringServer_init_def)
    apply (rule exI [of _ rc], intro conjI, simp)
    apply (rule exI [of _ ea], intro conjI, simp)
    apply (rule exI [of _ eb], simp)
    done
  ultimately show ?thesis using res by blast
qed

lemma start_inv:
  assumes "start U K (UringServer_init c) error s = ((True, error'), sv, s')"
  shows "uinv sv None"
proof -
  let ?sv = "\<lambda>l g. (UringServer_init c)\<lparr>listener := l, signal := g, ring_initialised := True\<rparr>"
  have "uinv (?sv l g) None" for l g
    using init_inv [of c] by (rule inv_frame) simp_all
  with assms show ?thesis
    by (auto simp: start_def Let_def split: prod.splits if_splits
        dest: submit_accept_inv [where hold = None]
        intro: submit_signal_poll_inv)
qed

lemma step_inv:
  assumes "uring_step U K (sv, s) (sv', s')" and "uinv sv None" and "posted sv"
  shows "uinv sv' None \<and> posted sv'"
  using assms(1)
proof (rule uring_stepE)
  fix e oc
  assume e: "e \<in> set (inflight sv)" "legal sv (prep e) oc" and run: "complete U K sv e oc s = Inr (sv', s')"
  from complete_inv [OF assms(2) e assms(3), of s U K] run
  have "uinv sv' None" "moved sv s sv' s'" by simp_all
  with complete_posted [OF run e(1) assms(3)] show ?thesis
    by (auto simp: moved_def accounts_def)
qed (use assms(2,3) inv_frame [OF assms(2), of sv'] in \<open>auto simp: posted_def others_def\<close>)

lemma reach_inv': "uring_reach U K sv s \<Longrightarrow> uinv sv None \<and> posted sv"
  by (induction rule: uring_reach.induct)
     (auto intro: start_inv dest: start_started step_inv simp: uring_started_def)

lemmas reach_inv = reach_inv' [THEN conjunct1]
  and reach_posted = reach_inv' [THEN conjunct2]

text \<open>A ring with free entries, for the examples, and the state after a start on it.\<close>

definition free_ring :: "(answer list) uring" where
  "free_ring = \<lparr>ur_queue_init = \<lambda>n w. (0, w), ur_get_sqe = \<lambda>w. (True, w), ur_prep = \<lambda>e w. w,
     ur_submit = \<lambda>w. (0, w), ur_submit_and_wait = \<lambda>w. (1, w), ur_next_cqe = \<lambda>sv w.
       (case inflight sv of [] \<Rightarrow> None | e # es \<Rightarrow> (case prep e of
          Prep_accept l \<Rightarrow> Some (e, Fd 7) | Prep_poll l f \<Rightarrow> Some (e, Fd 1)
        | Prep_recv fd p n \<Rightarrow> Some (e, Got ''ab'') | Prep_send fd p n \<Rightarrow> Some (e, Sent 1)), w),
     ur_queue_exit = \<lambda>w. w\<rparr>"

definition start_script :: "answer list" where
  "start_script = [A_int 3, A_int 0, A_int 0, A_int 0, A_int 0, A_int 4, A_int 0]"

lemma sample_start:
  "\<exists>error sv s. start free_ring scripted (UringServer_init Config_init) None (fresh_os start_script)
      = ((True, error), sv, s) \<and>
    inflight sv = [\<lparr>prep = Prep_accept 3, user_data = Accept_Op\<rparr>,
      \<lparr>prep = Prep_poll 4 POLLIN, user_data = Signal_Op\<rparr>] \<and> connections sv = Map.empty \<and>
    heap sv = Map.empty"
  by (simp add: start_def listen_tcp_def Socket_valid_def signal_fd_def run_simps start_script_def
      UringServer_init_def Config_init_def Socket_reset_def submit_accept_def submit_signal_poll_def
      next_sqe_def prepare_def free_ring_def)

lemma sample_reach:
  "\<exists>sv s. uring_reach free_ring scripted sv s \<and>
    \<lparr>prep = Prep_accept 3, user_data = Accept_Op\<rparr> \<in> set (inflight sv) \<and>
    connections sv = Map.empty \<and> heap sv = Map.empty"
proof -
  from sample_start obtain error sv s where
    run: "start free_ring scripted (UringServer_init Config_init) None (fresh_os start_script)
      = ((True, error), sv, s)"
    and sv: "\<lparr>prep = Prep_accept 3, user_data = Accept_Op\<rparr> \<in> set (inflight sv)"
      "connections sv = Map.empty" "heap sv = Map.empty" by auto
  from uring_reach.started [OF run] sv show ?thesis by blast
qed

text \<open>C6: Memory safety of the io_uring server. In every reachable state, whichever operation in
  flight completes next with whichever outcome the interface allows, neither the kernel (writing
  a receive into a buffer, reading a send out of one) nor the handler touches a freed \<open>Conn\<close>;
  each live connection has exactly one operation in flight, and each operation in flight for a
  connection finds it alive.\<close>

theorem uring_memory_safe:
  assumes "uring_reach U K sv s" and "e \<in> set (inflight sv)" and "legal sv (prep e) oc"
  shows "complete U K sv e oc s \<noteq> Inl Undefined_Behaviour \<and>
    (\<forall>p. length (filter (about p) (inflight sv)) = (if heap sv p = None then 0 else 1))"
  using complete_inv [OF reach_inv [OF assms(1)] assms(2,3) reach_posted [OF assms(1)], of s U K] reach_inv [OF assms(1)]
  by (auto simp: uinv_def one_each_def split: sum.splits)

lemma uring_memory_safe_witness:
  "\<exists>sv s e. uring_reach free_ring scripted sv s \<and> e \<in> set (inflight sv) \<and>
    complete free_ring scripted sv e (Fd 7) s \<noteq> Inl Undefined_Behaviour"
proof -
  from sample_reach obtain sv s where r: "uring_reach free_ring scripted sv s"
    and e: "\<lparr>prep = Prep_accept 3, user_data = Accept_Op\<rparr> \<in> set (inflight sv)"
    and free: "connections sv = Map.empty" by blast
  have "legal sv (prep \<lparr>prep = Prep_accept 3, user_data = Accept_Op\<rparr>) (Fd 7)"
    using free by simp
  from uring_memory_safe [OF r e this] r e show ?thesis by blast
qed

text \<open>C9: The io_uring server is an echo server: in every reachable state the completed receives
  and sends of the whole history are accepted by the echo monitor - no receive is issued while a
  reply is pending, each send offers exactly the bytes still owed, short sends included - and
  what a connection still owes is what its state says: on a connection that was not closed, the
  bytes received are the bytes sent followed by the pending part of its buffer.\<close>

theorem uring_echoes:
  assumes "uring_reach U K sv s"
  shows "echo_run (-1) (history sv) idle = Some (owed sv None) \<and>
    (\<forall>fd. fd \<noteq> -1 \<longrightarrow> fd \<notin> set (closes (history sv)) \<longrightarrow>
      bytes_in fd (history sv) = bytes_out fd (history sv) @ owed sv None fd)"
proof -
  have run: "echo_run (-1) (history sv) idle = Some (owed sv None)"
    using reach_inv [OF assms] by (simp add: uinv_def echoing_def)
  from echo_run_balance [OF this] run show ?thesis by simp
qed

lemma uring_echoes_witness:
  "\<exists>sv s. uring_reach free_ring scripted sv s \<and>
    echo_run (-1) (history sv) idle = Some (owed sv None)"
proof -
  from sample_reach obtain sv s where r: "uring_reach free_ring scripted sv s" by blast
  from uring_echoes [OF r] r show ?thesis by blast
qed

text \<open>C22: Connection accounting: in every reachable state the connections accepted are those
  closed plus those in the connection table (modulo 2 to the 64), the table and the heap
  describe the same set of connections, and every table entry leads to the connection with that
  descriptor.\<close>

theorem uring_accounts:
  assumes "uring_reach U K sv s"
  shows "accepted (stats sv) = closed (stats sv) + of_nat (card (dom (connections sv))) \<and>
    (\<forall>fd p. connections sv fd = Some p \<longleftrightarrow> (\<exists>c. heap sv p = Some c \<and> conn_fd c = fd))"
  using reach_inv [OF assms] by (auto simp: uinv_def counted_def linked_def)

lemma uring_accounts_witness:
  "\<exists>sv s. uring_reach free_ring scripted sv s \<and>
    accepted (stats sv) = closed (stats sv) + of_nat (card (dom (connections sv)))"
proof -
  from sample_reach obtain sv s where r: "uring_reach free_ring scripted sv s" by blast
  from uring_accounts [OF r] r show ?thesis by blast
qed

text \<open>The loops stay within the reachable states.\<close>

lemma next_cqe_legal:
  assumes "next_cqe U sv s = (Some (e, oc), s')"
  shows "e \<in> set (inflight sv) \<and> legal sv (prep e) oc"
  using assms by (auto simp: next_cqe_def Let_def split: prod.splits option.splits if_splits)

lemma reach_steps:
  assumes "uring_reach U K sv s" and "(uring_step U K)\<^sup>*\<^sup>* (sv, s) (sv', s')"
  shows "uring_reach U K sv' s'"
  using assms(2)
proof (induction "(sv', s')" arbitrary: sv' s' rule: rtranclp_induct)
  case base
  from assms(1) show ?case .
next
  case (step y)
  then show ?case by (cases y) (auto intro: uring_reach.stepped)
qed

lemma outside_steps: "(uring_step U K)\<^sup>*\<^sup>* (sv, s) (sv, s')"
  by (rule r_into_rtranclp) (rule uring_step.outside)

lemma for_each_cqe_reach:
  assumes "for_each_cqe U K sv s = Some r" and "uring_reach U K sv s"
  shows "case r of
      Inl x \<Rightarrow> x = Length_Error \<and> \<not> vector_length_ok 1 (buffer_size (cfg sv))
    | Inr (sv', s') \<Rightarrow> (uring_step U K)\<^sup>*\<^sup>* (sv, s) (sv', s') \<and> cfg sv' = cfg sv \<and> moved sv s sv' s'"
proof -
  let ?Q = "\<lambda>U K sv s r. case r of
      Inl x \<Rightarrow> x = Length_Error \<and> \<not> vector_length_ok 1 (buffer_size (cfg sv))
    | Inr (sv', s') \<Rightarrow> (uring_step U K)\<^sup>*\<^sup>* (sv, s) (sv', s') \<and> cfg sv' = cfg sv \<and> moved sv s sv' s'"
  let ?P = "\<lambda>U K sv s r. uring_reach U K sv s \<longrightarrow> ?Q U K sv s r"
  have "?P U K sv s r"
  proof (rule for_each_cqe.raw_induct [where P = ?P, OF _ assms(1)], goal_cases)
    case (1 f U K sv s r)
    note IH = "1"(1) and eq = "1"(2)
    obtain x s1 where nx: "next_cqe U sv s = (x, s1)" by (metis surj_pair)
    have m1: "moved sv s sv s1"
      using nx by (intro moved_none) (auto simp: next_cqe_def extends_def Let_def split: prod.splits)
    have "?Q U K sv s r" if reach: "uring_reach U K sv s"
    proof (cases x)
      case None
      with eq nx have "r = Inr (sv, s1)" by simp
      with outside_steps [of U K sv s s1] m1 show ?thesis by simp
    next
      case (Some eo)
      then obtain e oc where x: "x = Some (e, oc)" by (cases eo) auto
      from uring_reach.stepped [OF reach uring_step.outside [of U K sv s s1]] have reach1: "uring_reach U K sv s1" .
      note legal = next_cqe_legal [of U sv s e oc s1, unfolded nx x, OF refl]
      note post = complete_inv [OF reach_inv [OF reach] _ _ reach_posted [OF reach], of e oc s1 U K]
      show ?thesis
      proof (cases "complete U K sv e oc s1")
        case (Inl err)
        with eq nx x legal post show ?thesis by auto
      next
        case (Inr p)
        then obtain sv2 s2 where run: "complete U K sv e oc s1 = Inr (sv2, s2)" by (cases p) auto
        from uring_reach.stepped [OF reach1 uring_step.completed [OF _ _ run]] legal
        have "uring_reach U K sv2 s2" by blast
        moreover have "(uring_step U K)\<^sup>*\<^sup>* (sv, s) (sv2, s2)"
          using outside_steps [of U K sv s s1]
            uring_step.completed [OF _ _ run] legal by (blast intro: rtranclp.rtrancl_into_rtrancl)
        moreover from run legal post have "cfg sv2 = cfg sv" "moved sv s1 sv2 s2" by simp_all
        moreover from eq nx x run have "f U K sv2 s2 = Some r" by simp
        ultimately show ?thesis using IH [of U K sv2 s2 r] moved_trans [OF m1]
          by (auto split: sum.splits intro: moved_trans rtranclp_trans)
      qed
    qed
    then show ?case by blast
  qed
  with assms(2) show ?thesis by blast
qed

text \<open>A run of the loop: it ends when the server was told to stop, or with a wait that failed.\<close>

definition moved_until :: "uring_server \<Rightarrow> 'w os \<Rightarrow> uring_server \<Rightarrow> 'w os \<Rightarrow> bool" where
  "moved_until sv s sv' s' \<longleftrightarrow> (\<exists>evs. extends evs s s' \<and> accounts evs sv sv' \<and>
     (\<not> running sv' \<or> (\<exists>before e. e \<noteq> EINTR \<and> evs = before @ [E_call Sys_uring_wait (Inl e)])))"

lemma moved_until_trans:
  assumes "moved sv s sv1 s1" and "moved_until sv1 s1 sv' s'"
  shows "moved_until sv s sv' s'"
proof -
  from assms obtain evs evs' where e: "extends evs s s1" "accounts evs sv sv1"
    "extends evs' s1 s'" "accounts evs' sv1 sv'"
    "\<not> running sv' \<or> (\<exists>before e. e \<noteq> EINTR \<and> evs' = before @ [E_call Sys_uring_wait (Inl e)])"
    by (auto simp: moved_def moved_until_def)
  have "extends (evs @ evs') s s'" "accounts (evs @ evs') sv sv'"
    using extends_trans [OF e(1,3)] accounts_append [OF e(2,4)] .
  with e(5) show ?thesis unfolding moved_until_def by (metis append.assoc)
qed

lemma run_reach:
  assumes "run U K sv s = Some r" and "uring_reach U K sv s"
  shows "case r of
      Inl x \<Rightarrow> x = Length_Error \<and> \<not> vector_length_ok 1 (buffer_size (cfg sv))
    | Inr (sv', s') \<Rightarrow> (uring_step U K)\<^sup>*\<^sup>* (sv, s) (sv', s') \<and> cfg sv' = cfg sv \<and> moved_until sv s sv' s'"
proof -
  let ?Q = "\<lambda>U K sv s r. case r of
      Inl x \<Rightarrow> x = Length_Error \<and> \<not> vector_length_ok 1 (buffer_size (cfg sv))
    | Inr (sv', s') \<Rightarrow> (uring_step U K)\<^sup>*\<^sup>* (sv, s) (sv', s') \<and> cfg sv' = cfg sv \<and> moved_until sv s sv' s'"
  let ?P = "\<lambda>U K sv s r. uring_reach U K sv s \<longrightarrow> ?Q U K sv s r"
  have "?P U K sv s r"
  proof (rule run.raw_induct [where P = ?P, OF _ assms(1)], goal_cases)
    case (1 f U K sv s r)
    note IH = "1"(1) and eq = "1"(2)
    obtain rc w where sw: "ur_submit_and_wait U (world s) = (rc, w)" by (metis surj_pair)
    let ?ev = "E_call Sys_uring_wait (rc_result rc)"
    let ?s = "log_event ?ev (s\<lparr>world := w\<rparr>)"
    let ?sv = "sv\<lparr>stats := syscalls_update (bump 1) (wait_calls_update (bump 1) (stats sv))\<rparr>"
    have m1: "moved sv s ?sv ?s" by (rule moved_one [where ev = ?ev]) simp_all
    have waited: "(uring_step U K)\<^sup>*\<^sup>* (sv, s) (?sv, ?s)"
      using uring_step.outside [of U K sv s ?s] uring_step.waited [of U K sv ?s]
      by (blast intro: rtranclp.rtrancl_into_rtrancl)
    have "?Q U K sv s r" if reach: "uring_reach U K sv s"
    proof (cases "running sv \<and> \<not> (rc < 0 \<and> rc \<noteq> - 4)")
      case False
      from False eq sw have "\<not> running sv \<and> r = Inr (sv, s) \<or>
          rc < 0 \<and> rc \<noteq> - 4 \<and> r = Inr (?sv, ?s)"
        by (auto simp: Let_def split: if_splits)
      moreover have "moved_until sv s ?sv ?s" if "rc < 0" "rc \<noteq> - 4"
      proof -
        have "?ev = E_call Sys_uring_wait (Inl (nat (- rc)))" "nat (- rc) \<noteq> EINTR"
          using that by (auto simp: rc_result_def)
        moreover have "accounts [?ev] sv ?sv" by (simp add: accounts_def open_event_def)
        ultimately show ?thesis
          unfolding moved_until_def by (intro exI [of _ "[?ev]"]) auto
      qed
      moreover have "moved_until sv s sv s" if "\<not> running sv"
        using that unfolding moved_until_def by (intro exI [of _ "[]"]) (simp add: accounts_def)
      ultimately show ?thesis using waited by auto
    next
      case True
      note reach1 = reach_steps [OF reach waited]
      from True eq sw obtain r1 where fe: "for_each_cqe U K ?sv ?s = Some r1"
        and rest: "(case r1 of Inl x \<Rightarrow> Some (Inl x) | Inr (sv, s) \<Rightarrow> f U K sv s) = Some r"
        by (auto simp: Let_def bind_eq_Some_conv split: if_splits)
      note post = for_each_cqe_reach [OF fe reach1]
      show ?thesis
      proof (cases r1)
        case (Inl x)
        with rest post show ?thesis by auto
      next
        case (Inr p)
        then obtain sv2 s2 where r1: "r1 = Inr (sv2, s2)" by (cases p) auto
        with post have st: "(uring_step U K)\<^sup>*\<^sup>* (sv, s) (sv2, s2)" "moved ?sv ?s sv2 s2" "cfg sv2 = cfg sv"
          using waited by (auto intro: rtranclp_trans)
        from rest r1 IH [of U K sv2 s2 r] reach_steps [OF reach st(1)]
        have "?Q U K sv2 s2 r" by simp
        with st moved_trans [OF m1 st(2)] show ?thesis
          by (auto split: sum.splits intro: moved_until_trans rtranclp_trans)
      qed
    qed
    then show ?case by blast
  qed
  with assms(2) show ?thesis by blast
qed

text \<open>What \<open>start\<close> opens is in the two members or was closed again.\<close>

lemma queued_fds:
  "queued (Sys_uring_accept l) evs \<Longrightarrow> opens evs = [] \<and> closes evs = []"
  "queued (Sys_uring_poll g f) evs \<Longrightarrow> opens evs = [] \<and> closes evs = []"
  by (auto simp: queued_def)

lemma uring_started_fds:
  "uring_started c pre sv \<Longrightarrow>
    opens pre = only_valid (listener sv) @ only_valid (signal sv) \<and> closes pre = []"
  by (auto simp: uring_started_def startup_fds dest!: queued_fds)

lemma uring_start_opened:
  assumes "start U K (UringServer_init c) error s = ((ok, error'), sv, s')"
  shows "\<exists>cl. opened_closed (cl @ only_valid (listener sv) @ only_valid (signal sv)) cl s s'"
proof (cases ok)
  case True
  with assms have "start U K (UringServer_init c) error s = ((True, error'), sv, s')" by simp
  from start_started [OF this] obtain pre where "extends pre s s'" "uring_started c pre sv" by blast
  with uring_started_fds [of c pre sv] show ?thesis
    by (intro exI [of _ "[]"]) (auto simp: opened_closed_def)
next
  case failed: False
  let ?sv = "UringServer_init c"
  have empty: "listener ?sv = -1" "signal ?sv = -1" "cfg ?sv = c" by (simp_all add: UringServer_init_def)
  have none: "only_valid (-1) = []" by (simp add: only_valid_def)
  have reset: "Socket_reset K (-1) fd s = (fd, s)" for fd s by (simp add: Socket_reset_def)
  obtain l e1 s1 where l: "listen_tcp K (port c) 1024 error s = ((l, e1), s1)" by (metis surj_pair)
  from listen_tcp_opened [OF l] obtain cl where
    o1: "opened_closed (cl @ only_valid l) cl s s1" by blast
  show ?thesis
  proof (cases "0 \<le> l")
    case False
    with assms l o1 empty none show ?thesis by (auto simp: start_def reset Socket_valid_def)
  next
    case l0: True
    obtain g e2 s2 where g: "signal_fd K e1 s1 = ((g, e2), s2)" by (metis surj_pair)
    note o2 = opened_closed_trans [OF o1 signal_fd_opened [OF g]]
    show ?thesis
    proof (cases "0 \<le> g")
      case False
      with assms l g o2 empty l0 show ?thesis by (auto simp: start_def reset Socket_valid_def)
    next
      case g0: True
      obtain rc w where q: "ur_queue_init U kQueueDepth (world s2) = (rc, w)" by fastforce
      let ?ev = "E_call (Sys_uring_setup kQueueDepth) (rc_result rc)"
      let ?s3 = "log_event ?ev (s2\<lparr>world := w\<rparr>)"
      have "opened_closed [] [] s2 ?s3"
        unfolding opened_closed_def by (intro exI [of _ "[?ev]"]) simp
      from opened_closed_trans [OF o2 this] assms l g empty l0 g0 q failed show ?thesis
        by (auto simp: start_def reset Socket_valid_def Let_def split: if_splits prod.splits)
    qed
  qed
qed

subsection \<open>A lost accept\<close>

text \<open>
  The ring has no entry to give, not even after handing over what is queued: the submission
  failed, as it does when the completion queue is full; \<open>next_sqe\<close> does not look at its result.
\<close>

definition ring_full :: "'w uring \<Rightarrow> 'w \<Rightarrow> bool" where
  "ring_full U w \<longleftrightarrow> \<not> fst (ur_get_sqe U w) \<and>
     \<not> fst (ur_get_sqe U (snd (ur_submit U (snd (ur_get_sqe U w)))))"

definition no_accept :: "uring_server \<Rightarrow> bool" where
  "no_accept sv \<longleftrightarrow> (\<forall>e \<in> set (inflight sv). user_data e \<noteq> Accept_Op)"

lemma no_accept_others: "no_accept sv \<longleftrightarrow> (\<forall>e \<in> set (others sv). user_data e \<noteq> Accept_Op)"
  by (auto simp: no_accept_def others_def)

lemma submit_accept_full:
  assumes "ring_full U (world s)" and "submit_accept U sv s = (sv', s')"
  shows "inflight sv' = inflight sv"
  using assms by (auto simp: ring_full_def submit_accept_def next_sqe_def Let_def case_prod_beta
      split: if_splits)

text \<open>The only place that counts an accept is the completion of one.\<close>

lemma next_sqe_accepted:
  "next_sqe U sv s = (b, sv', s') \<Longrightarrow> accepted (stats sv') = accepted (stats sv)"
  by (auto dest!: next_sqe_frame)

lemma close_connection_accepted:
  "close_connection K sv p s = Inr (sv', s') \<Longrightarrow> accepted (stats sv') = accepted (stats sv)"
  by (auto simp: close_connection_def Let_def split: option.splits prod.splits if_splits)

lemma submit_accepted:
  "submit_recv U K sv p s = Inr (sv', s') \<Longrightarrow> accepted (stats sv') = accepted (stats sv)"
  "submit_send U K sv p n s = Inr (sv', s') \<Longrightarrow> accepted (stats sv') = accepted (stats sv)"
  by (auto simp: submit_recv_def submit_send_def prepare_def
      dest!: next_sqe_accepted close_connection_accepted
      split: prod.splits if_splits option.splits)

lemma handle_accepted:
  assumes "handle_completion U K sv (Some d) n s = Inr (sv', s')" and "d \<noteq> Accept_Op"
  shows "accepted (stats sv') = accepted (stats sv)"
  using assms
  by (cases d) (auto simp: handle_completion_def Let_def
      dest!: submit_accepted close_connection_accepted split: option.splits if_splits)

lemma step_no_accept:
  assumes "uring_step U K (sv, s) (sv', s')" and "no_accept sv"
  shows "no_accept sv' \<and> accepted (stats sv') = accepted (stats sv)"
  using assms(1)
proof (rule uring_stepE)
  fix e oc
  assume e: "e \<in> set (inflight sv)" and run: "complete U K sv e oc s = Inr (sv', s')"
  from run obtain sv1 where sv1: "stats sv1 = stats sv" "others sv1 = remove1 e (others sv)" and
    h: "handle_completion U K sv1 (Some (user_data e)) (result_of oc)
      (log_event (completed_event (heap sv) e oc) s) = Inr (sv', s')"
    by (rule completeE)
  have d: "user_data e \<noteq> Accept_Op" using assms(2) e by (simp add: no_accept_def)
  from handle_others [OF h d] handle_accepted [OF h d] sv1 assms(2) show ?thesis
    by (auto simp: no_accept_others dest: notin_set_remove1)
qed (use assms(2) in \<open>simp_all add: no_accept_def\<close>)

lemma steps_no_accept:
  assumes "(uring_step U K)\<^sup>*\<^sup>* (sv, s) (sv', s')" and "no_accept sv"
  shows "no_accept sv' \<and> accepted (stats sv') = accepted (stats sv)"
  using assms(1)
proof (induction "(sv', s')" arbitrary: sv' s' rule: rtranclp_induct)
  case base
  with assms(2) show ?case by simp
next
  case (step y)
  obtain sv2 s2 where "y = (sv2, s2)" by (metis surj_pair)
  with step step_no_accept [of U K sv2 s2 sv' s'] show ?case by auto
qed

lemma accept_lost:
  assumes reach: "uring_reach U K sv s"
    and e: "e \<in> set (inflight sv)" "user_data e = Accept_Op"
    and full: "ring_full U (world s)"
    and run: "complete U K sv e oc s = Inr (sv1, s1)"
  shows "no_accept sv1"
proof -
  from run obtain sv2 where sv2: "others sv2 = remove1 e (others sv)" and
    h: "handle_completion U K sv2 (Some Accept_Op) (result_of oc)
      (log_event (completed_event (heap sv) e oc) s) = Inr (sv1, s1)"
    by (rule completeE) (simp add: e(2))
  obtain sv3 s3 where acc: "submit_accept U sv2 (log_event (completed_event (heap sv) e oc) s) =
      (sv3, s3)" by (metis surj_pair)
  have "ring_full U (world (log_event (completed_event (heap sv) e oc) s))" using full by simp
  from submit_accept_full [OF this acc] have "others sv3 = others sv2" by (rule others_frame)
  with accept_others [OF h acc] sv2 have "others sv1 = remove1 e (others sv)" by simp
  with reach_posted [OF reach] postedD(2) [OF reach_posted [OF reach] e] show ?thesis
    by (auto simp: no_accept_others posted_def)
qed

text \<open>C28: "Keep one accept outstanding at all times" can fail for good in one moment. In a
  reachable state an accept completes (with a connection or an error) while the ring has no entry
  to give, before and after handing over what is queued; then the handler returns without a trace
  of having failed. Whatever happens afterwards - entries becoming free again, any sequence of
  completions with any outcome, and also the whole rest of the event loop, if it returns - no
  accept is ever put into the ring again: the server goes on serving the connections it has and
  never accepts another one.\<close>

theorem lost_accept_is_lost:
  assumes reach: "uring_reach U K sv s"
    and e: "e \<in> set (inflight sv)" "user_data e = Accept_Op" "legal sv (prep e) oc"
    and full: "ring_full U (world s)"
    and run: "complete U K sv e oc s = Inr (sv1, s1)"
    and later: "(uring_step U K)\<^sup>*\<^sup>* (sv1, s1) (sv', s')"
  shows "no_accept sv' \<and> accepted (stats sv') = accepted (stats sv1) \<and>
    (\<forall>sv'' s''. Ev_Uring.run U K sv' s' = Some (Inr (sv'', s'')) \<longrightarrow>
      no_accept sv'' \<and> accepted (stats sv'') = accepted (stats sv1))"
proof -
  from steps_no_accept [OF later accept_lost [OF reach e(1,2) full run]]
  have now: "no_accept sv'" "accepted (stats sv') = accepted (stats sv1)" by simp_all
  have "uring_reach U K sv1 s1" using reach uring_step.completed [OF e(1,3) run] by (rule uring_reach.stepped)
  note reach' = reach_steps [OF this later]
  have "no_accept sv'' \<and> accepted (stats sv'') = accepted (stats sv')"
    if "Ev_Uring.run U K sv' s' = Some (Inr (sv'', s''))" for sv'' s''
    using run_reach [OF that reach'] now(1) steps_no_accept [of U K sv' s' sv'' s''] by simp
  with now show ?thesis by simp
qed

text \<open>
  A ring that has entries as long as the world has something in it. The server starts, the ring
  fills up, an accept completes with connection 7 (which is closed, since its receive finds no
  entry either); then the ring is empty again, and still there is no accept in it.
\<close>

definition moody_ring :: "(answer list) uring" where
  "moody_ring = free_ring\<lparr>ur_get_sqe := \<lambda>w. (w \<noteq> [], w)\<rparr>"

lemma moody_start:
  "\<exists>error sv s. start moody_ring scripted (UringServer_init Config_init) None (fresh_os start_script)
      = ((True, error), sv, s) \<and>
    inflight sv = [\<lparr>prep = Prep_accept 3, user_data = Accept_Op\<rparr>,
      \<lparr>prep = Prep_poll 4 POLLIN, user_data = Signal_Op\<rparr>] \<and> connections sv = Map.empty \<and>
    cfg sv = Config_init"
  by (simp add: start_def listen_tcp_def Socket_valid_def signal_fd_def run_simps start_script_def
      UringServer_init_def Config_init_def Socket_reset_def submit_accept_def submit_signal_poll_def
      next_sqe_def prepare_def free_ring_def moody_ring_def)

lemma lost_accept_is_lost_witness:
  "\<exists>sv s sv' s'. uring_reach moody_ring scripted sv s \<and> \<not> no_accept sv \<and>
    uring_reach moody_ring scripted sv' s' \<and> \<not> ring_full moody_ring (world s') \<and>
    no_accept sv'"
proof -
  let ?U = moody_ring and ?e = "\<lparr>prep = Prep_accept 3, user_data = Accept_Op\<rparr>"
  from moody_start obtain error sv s where
    st: "start ?U scripted (UringServer_init Config_init) None (fresh_os start_script)
      = ((True, error), sv, s)"
    and sv: "?e \<in> set (inflight sv)" "connections sv = Map.empty" "cfg sv = Config_init" by auto
  let ?s = "fresh_os [] :: answer list os" and ?s' = "fresh_os [A_int 0] :: answer list os"
  have r: "uring_reach ?U scripted sv ?s"
    using uring_reach.stepped [OF uring_reach.started [OF st] uring_step.outside] .
  have legal: "legal sv (prep ?e) (Fd 7)" using sv(2) by simp
  have full: "ring_full ?U (world ?s)"
    by (simp add: ring_full_def moody_ring_def free_ring_def)
  have "vector_length_ok 1 (buffer_size (cfg sv))"
    by (simp add: sv(3) Config_init_def vector_length_ok_def)
  with complete_inv [OF reach_inv [OF r] sv(1) legal reach_posted [OF r], of ?s ?U scripted]
  obtain sv1 s1 where run: "complete ?U scripted sv ?e (Fd 7) ?s = Inr (sv1, s1)"
    by (auto split: sum.splits)
  have "(uring_step ?U scripted)\<^sup>*\<^sup>* (sv1, s1) (sv1, ?s')"
    by (rule r_into_rtranclp) (rule uring_step.outside)
  from lost_accept_is_lost [OF r sv(1) _ legal full run this] have "no_accept sv1" by simp
  moreover have "uring_reach ?U scripted sv1 ?s'"
    using uring_reach.stepped [OF uring_reach.stepped [OF r uring_step.completed [OF sv(1) legal run]]
      uring_step.outside] .
  moreover have "\<not> ring_full ?U (world ?s')" by (simp add: ring_full_def moody_ring_def)
  moreover have "\<not> no_accept sv" using sv(1) by (auto simp: no_accept_def intro!: bexI [of _ ?e])
  ultimately show ?thesis using r by blast
qed

end
