(* ===== verification/Ev_Main.thy ===== *)
theory Ev_Main
  imports Ev_Epoll Ev_Uring Doubles
begin

section \<open>evserver: the program\<close>

text \<open>
  Models \<open>main\<close> of \<open>evserver/src/main.cpp\<close> after the options: the server is constructed,
  started and run, and its counters are printed. The virtual base class \<open>Server\<close> is a record
  of the operations that \<open>main\<close> calls, over any type of objects; the epoll and io_uring
  backends give theirs here. Those of the thread backend are a parameter of \<open>main\<close>, because they
  depend on the schedule of its threads; \<^theory_text>\<open>Ev_Main_Threads\<close> gives them. \<open>None\<close> is "does not return",
  which a destructor that joins threads may do too.
\<close>

record ('v, 'w) server_class =
  sc_construct :: "Config \<Rightarrow> 'v cpp"
  sc_start :: "'v \<Rightarrow> string option \<Rightarrow> 'w os \<Rightarrow> (bool \<times> string option) \<times> 'v \<times> 'w os"
  sc_run :: "'v \<Rightarrow> 'w os \<Rightarrow> ('v \<times> 'w os) cpp option"
  sc_stats :: "'v \<Rightarrow> StatsSnapshot"
  sc_destroy :: "'v \<Rightarrow> 'w os \<Rightarrow> 'w os cpp option"

definition epoll_class :: "'w kernel \<Rightarrow> (epoll_server, 'w) server_class" where
  "epoll_class K = \<lparr>sc_construct = EpollServer_init, sc_start = Ev_Epoll.start K,
     sc_run = Ev_Epoll.run K, sc_stats = (\<lambda>sv. snapshot (stats sv)),
     sc_destroy = (\<lambda>sv s. Some (Inr (EpollServer_destroy K sv s)))\<rparr>"

definition uring_class :: "'w uring \<Rightarrow> 'w kernel \<Rightarrow> (uring_server, 'w) server_class" where
  "uring_class U K = \<lparr>sc_construct = (\<lambda>c. Inr (UringServer_init c)), sc_start = Ev_Uring.start U K,
     sc_run = Ev_Uring.run U K, sc_stats = (\<lambda>sv. snapshot (stats sv)),
     sc_destroy = (\<lambda>sv s. Some (Inr (UringServer_destroy U K sv s)))\<rparr>"

definition count_text :: "64 word \<Rightarrow> string" where
  "count_text n = digits 10 (unat n)"

text \<open>The quotient of two counters as doubles.\<close>

definition per_request :: "64 word \<Rightarrow> 64 word \<Rightarrow> rat" where
  "per_request calls reqs =
     to_double (to_double (of_nat (unat calls)) / to_double (of_nat (unat reqs)))"

definition print_stats :: "Backend \<Rightarrow> StatsSnapshot \<Rightarrow> string" where
  "print_stats b sn =
     newline @ ''--- '' @ backend_name b @ '' ---'' @ newline @
     ''  connections accepted   '' @ count_text (sn_accepted sn) @ newline @
     ''  connections closed     '' @ count_text (sn_closed sn) @ newline @
     ''  requests echoed        '' @ count_text (sn_requests sn) @ newline @
     ''  bytes echoed           '' @ count_text (sn_bytes sn) @ newline @
     ''  read() calls           '' @ count_text (sn_read_calls sn) @ newline @
     ''  write() calls          '' @ count_text (sn_write_calls sn) @ newline @
     ''  wait calls             '' @ count_text (sn_wait_calls sn) @ ''   (epoll_wait / poll)'' @ newline @
     ''  reads returning EAGAIN '' @ count_text (sn_eagain sn) @ newline @
     (if 0 < sn_threads_spawned sn then
        ''  threads spawned        '' @ count_text (sn_threads_spawned sn) @ newline else []) @
     (if 0 < sn_requests sn then
        ''  kernel entries         '' @ count_text (sn_syscalls sn) @ newline @ newline @
        ''  syscalls per request   '' @
        format_fixed 2 (per_request (sn_syscalls sn) (sn_requests sn)) @ newline else [])"

definition banner :: "Config \<Rightarrow> int \<Rightarrow> int \<Rightarrow> string" where
  "banner c pid1 pid2 =
     ''evserver listening on port '' @ digits 10 (unat (port c)) @ newline @
     ''  backend: '' @ backend_name (backend c) @ newline @
     ''  pid:     '' @ to_string pid1 @ ''  (inspect with: procmon show '' @ to_string pid2 @
     '')'' @ newline @ newline @ ''Ctrl-C to stop.'' @ newline"

text \<open>The \<open>std::unique_ptr\<close> destroys the server when \<open>main\<close> returns a status.\<close>

definition leave_main ::
  "('v, 'w) server_class \<Rightarrow> 'v \<Rightarrow> int \<Rightarrow> 'w os \<Rightarrow> (int cpp \<times> 'w os) option" where
  "leave_main C server status s =
     (case sc_destroy C server s of
        None \<Rightarrow> None
      | Some (Inl e) \<Rightarrow> Some (Inl e, s)
      | Some (Inr s) \<Rightarrow> Some (Inr status, s))"

definition run_server ::
  "'w kernel \<Rightarrow> ('v, 'w) server_class \<Rightarrow> Config \<Rightarrow> 'w os \<Rightarrow> (int cpp \<times> 'w os) option" where
  "run_server K C c s =
     (case sc_construct C c of
        Inl e \<Rightarrow> Some (Inl e, s)
      | Inr server \<Rightarrow>
          let ((started, error), server, s) = sc_start C server (Some []) s in
          if \<not> started then
            leave_main C server 1 (put_err (''Failed to start: '' @ the error @ newline) s)
          else
            let (pid1, s) = call K Sys_getpid s; (pid2, s) = call K Sys_getpid s;
                s = put_out (banner c pid1 pid2) s in
            (case sc_run C server s of
               None \<Rightarrow> None
             | Some (Inl e) \<Rightarrow> Some (Inl e, s)
             | Some (Inr (server, s)) \<Rightarrow>
                 leave_main C server 0 (put_out (print_stats (backend c) (sc_stats C server)) s)))"

definition main ::
  "'w kernel \<Rightarrow> 'w uring \<Rightarrow> ('t, 'w) server_class \<Rightarrow> string list \<Rightarrow> 'w os \<Rightarrow>
    (int cpp \<times> 'w os) option" where
  "main K U threads args s =
     (case parse_args args Config_init s of
        (Inl e, s) \<Rightarrow> Some (Inl e, s)
      | (Inr (Inl status), s) \<Rightarrow> Some (Inr status, s)
      | (Inr (Inr c), s) \<Rightarrow>
          (case make_server c of
             ThreadServer c \<Rightarrow> run_server K threads c s
           | EpollServer c \<Rightarrow> run_server K (epoll_class K) c s
           | UringServer c \<Rightarrow> run_server K (uring_class U K) c s))"

text \<open>The exit status is 0 or 1 once the options are read; a server that fails to start never runs.\<close>

lemma run_server_status:
  assumes "run_server K C c s = Some (Inr n, s')"
  shows "n = 0 \<or> n = 1"
  using assms
  by (auto simp: run_server_def leave_main_def Let_def
      split: sum.splits prod.splits if_splits option.splits)

subsection \<open>What main relies on\<close>

lemma call_twice:
  assumes "call K c s = (m, s1)" and "call K c s1 = (n, s2)" and "\<And>r. opened_fd (E_call c r) = []"
    and "\<And>fd. c \<noteq> Sys_close fd"
  shows "opened_closed [] [] s s2"
proof -
  from call_extends [OF assms(1)] call_extends [OF assms(2)] obtain r r' where
    "extends [E_call c r] s s1" "extends [E_call c r'] s1 s2" by blast
  moreover have "closes [E_call c x] = []" for x
    using assms(4) by (cases c) auto
  ultimately have "opened_closed [] [] s s1" "opened_closed [] [] s1 s2"
    using assms(3) unfolding opened_closed_def by fastforce+
  from opened_closed_trans [OF this] show ?thesis by simp
qed

text \<open>
  The contract of the class \<open>Server\<close>: what a start opened is owned by the object or was closed
  again, also when it fails; one that succeeds makes the calls that \<open>ready\<close> describes; a run does
  not print, and does what the backend promises (\<open>ran\<close>, by the calls that it made); destroying the
  object ends what the run left behind and then closes what a start made the object own (\<open>ended\<close>,
  by the calls of both parts); the only exception is the one of a buffer that is too long.
\<close>

locale server =
  fixes C :: "('v, 'w) server_class"
    and ready :: "Config \<Rightarrow> event list \<Rightarrow> 'v \<Rightarrow> bool"
    and owns :: "'v \<Rightarrow> int list"
    and ran :: "'v \<Rightarrow> event list \<Rightarrow> 'v \<Rightarrow> bool"
    and ended :: "'v \<Rightarrow> event list \<Rightarrow> 'v \<Rightarrow> event list \<Rightarrow> event list \<Rightarrow> bool"
  assumes construct_throws: "sc_construct C c = Inl e \<Longrightarrow> e = Length_Error"
    and start_owns: "sc_construct C c = Inr v \<Longrightarrow>
      sc_start C v error s = ((ok, error'), v', s') \<Longrightarrow>
      \<exists>cl. opened_closed (cl @ owns v') cl s s'"
    and start_ready: "sc_construct C c = Inr v \<Longrightarrow>
      sc_start C v error s = ((True, error'), v', s') \<Longrightarrow>
      \<exists>pre. extends pre s s' \<and> ready c pre v'"
    and run_ran: "ready c pre v \<Longrightarrow> sc_run C v s = Some (Inr (v', s')) \<Longrightarrow>
      \<exists>evs. extends evs s s' \<and> ran v evs v'"
    and run_throws: "ready c pre v \<Longrightarrow> sc_run C v s = Some (Inl e) \<Longrightarrow> e = Length_Error"
    and destroy_ended: "ready c pre v \<Longrightarrow> ran v evs v' \<Longrightarrow> sc_destroy C v' s = Some (Inr s') \<Longrightarrow>
      \<exists>evs' post. extends (evs' @ post) s s' \<and> ended v evs v' evs' post \<and>
        opens post = [] \<and> mset (closes post) = mset (owns v)"
    and destroy_failed: "sc_construct C c = Inr v \<Longrightarrow>
      sc_start C v error s = ((False, error'), v', s') \<Longrightarrow> sc_destroy C v' t = Some (Inr t') \<Longrightarrow>
      \<exists>cl. mset cl = mset (owns v') \<and> opened_closed [] cl t t'"
    and destroy_throws: "sc_destroy C v s = Some (Inl e) \<Longrightarrow> e = Length_Error"
begin

lemma leave_main_Inr: "leave_main C v n s = Some (Inr k, s') \<longleftrightarrow> k = n \<and> sc_destroy C v s = Some (Inr s')"
  by (auto simp: leave_main_def split: option.splits sum.splits)

lemma run_server_ends:
  assumes "run_server K C c s = Some (Inr 0, s')"
  shows "\<exists>v v' q1 q2 pre evs evs' post. ready c pre v \<and> ran v evs v' \<and> ended v evs v' evs' post \<and>
    trace s' = trace s @ pre @ [E_call Sys_getpid q1, E_call Sys_getpid q2] @ evs @ evs' @ post \<and>
    out s' = out s @ banner c (c_int q1) (c_int q2) @ print_stats (backend c) (sc_stats C v') \<and>
    err s' = err s \<and> mset (opens pre) = mset (closes pre) + mset (owns v) \<and>
    opens post = [] \<and> mset (closes post) = mset (owns v)"
proof -
  from assms obtain v0 where init: "sc_construct C c = Inr v0"
    by (auto simp: run_server_def split: sum.splits)
  obtain ok e v s1 where st: "sc_start C v0 (Some []) s = ((ok, e), v, s1)" by (metis surj_pair)
  obtain pid1 s2 where p1: "call K Sys_getpid s1 = (pid1, s2)" by (metis surj_pair)
  obtain pid2 s3 where p2: "call K Sys_getpid s2 = (pid2, s3)" by (metis surj_pair)
  let ?s4 = "put_out (banner c pid1 pid2) s3"
  note unfold = run_server_def init st p1 p2
  from assms have ok: ok by (auto simp: unfold Let_def leave_main_Inr split: if_splits)
  with assms obtain v' s5 where run: "sc_run C v ?s4 = Some (Inr (v', s5))"
    and fin: "sc_destroy C v' (put_out (print_stats (backend c) (sc_stats C v')) s5) = Some (Inr s')"
    by (auto simp: unfold Let_def leave_main_Inr split: if_splits option.splits sum.splits)
  from st ok have "sc_start C v0 (Some []) s = ((True, e), v, s1)" by simp
  from start_ready [OF init this] obtain pre where
    pre: "extends pre s s1" and ready: "ready c pre v" by blast
  from call_extends [OF p1] call_extends [OF p2] obtain q1 q2 where
    q: "pid1 = c_int q1" "extends [E_call Sys_getpid q1] s1 s2"
      "pid2 = c_int q2" "extends [E_call Sys_getpid q2] s2 s3" by blast
  from run_ran [OF ready run] obtain evs where evs: "extends evs ?s4 s5" "ran v evs v'" by blast
  from start_owns [OF init st] obtain cl where "opened_closed (cl @ owns v) cl s s1" by blast
  with pre have fds: "opens pre = cl @ owns v" "closes pre = cl"
    by (auto simp: opened_closed_def extends_def)
  from destroy_ended [OF ready evs(2) fin] obtain evs' post where
    post: "extends (evs' @ post) (put_out (print_stats (backend c) (sc_stats C v')) s5) s'"
      "ended v evs v' evs' post" "opens post = []" "mset (closes post) = mset (owns v)" by blast
  have "trace s' = trace s @ pre @ [E_call Sys_getpid q1, E_call Sys_getpid q2] @ evs @ evs' @ post"
    "err s' = err s" "out s' = out s @ banner c (c_int q1) (c_int q2) @
      print_stats (backend c) (sc_stats C v')"
    using pre evs(1) post(1) q by (simp_all add: extends_def)
  moreover have "mset (opens pre) = mset (closes pre) + mset (owns v)" by (simp add: fds)
  ultimately show ?thesis using ready evs(2) post(2-4) by blast
qed

lemma run_server_fails:
  assumes "run_server K C c s = Some (r, s')" and "r \<noteq> Inr 0"
  shows "(case r of
      Inl e \<Rightarrow> e = Length_Error
    | Inr n \<Rightarrow> n = 1 \<and> (\<exists>evs msg. trace s' = trace s @ evs \<and> mset (opens evs) = mset (closes evs) \<and>
        out s' = out s \<and> err s' = err s @ ''Failed to start: '' @ msg @ newline))"
proof (cases "sc_construct C c")
  case (Inl e)
  with assms construct_throws [OF Inl] show ?thesis by (auto simp: run_server_def)
next
  case init: (Inr v0)
  obtain ok e v s1 where st: "sc_start C v0 (Some []) s = ((ok, e), v, s1)" by (metis surj_pair)
  show ?thesis
  proof (cases ok)
    case False
    let ?msg = "''Failed to start: '' @ the e @ newline"
    from assms False have left: "leave_main C v 1 (put_err ?msg s1) = Some (r, s')"
      by (simp add: run_server_def init st)
    show ?thesis
    proof (cases r)
      case (Inl x)
      with left destroy_throws show ?thesis by (auto simp: leave_main_def split: option.splits sum.splits)
    next
      case (Inr n)
      with left have res: "r = Inr 1" "sc_destroy C v (put_err ?msg s1) = Some (Inr s')"
        by (simp_all add: leave_main_Inr)
      from start_owns [OF init st] obtain cl where o1: "opened_closed (cl @ owns v) cl s s1" by blast
      have "sc_start C v0 (Some []) s = ((False, e), v, s1)" using st False by simp
      from destroy_failed [OF init this res(2)] obtain post where
        post: "extends post (put_err ?msg s1) s'" "opens post = []" "mset (closes post) = mset (owns v)"
        by (auto simp: opened_closed_def)
      from o1 obtain pre where "extends pre s s1" "opens pre = cl @ owns v" "closes pre = cl"
        by (auto simp: opened_closed_def)
      with post have "trace s' = trace s @ pre @ post \<and>
          mset (opens (pre @ post)) = mset (closes (pre @ post)) \<and>
          out s' = out s \<and> err s' = err s @ ?msg"
        by (simp add: extends_def)
      then have "\<exists>evs msg. trace s' = trace s @ evs \<and> mset (opens evs) = mset (closes evs) \<and>
          out s' = out s \<and> err s' = err s @ ''Failed to start: '' @ msg @ newline"
        by blast
      then show ?thesis using res(1) by simp
    qed
  next
    case True
    obtain pid1 s2 where p1: "call K Sys_getpid s1 = (pid1, s2)" by (metis surj_pair)
    obtain pid2 s3 where p2: "call K Sys_getpid s2 = (pid2, s3)" by (metis surj_pair)
    from st True have "sc_start C v0 (Some []) s = ((True, e), v, s1)" by simp
    from start_ready [OF init this] obtain pre where "ready c pre v" by blast
    note throws = run_throws [OF this]
    from assms True consider
        (run) x where "r = Inl x" "sc_run C v (put_out (banner c pid1 pid2) s3) = Some (Inl x)"
      | (left) v' t where "leave_main C v' 0 t = Some (r, s')"
      by (auto simp: run_server_def init st p1 p2 Let_def split: option.splits sum.splits)
    then show ?thesis
    proof cases
      case run
      with throws show ?thesis by auto
    next
      case left
      with assms(2) destroy_throws show ?thesis
        by (auto simp: leave_main_def split: option.splits sum.splits)
    qed
  qed
qed

end

text \<open>The epoll backend: the calls of its loop are those of an echo server, and it stops for a
  signal or a failed wait.\<close>

definition epoll_ready :: "Config \<Rightarrow> event list \<Rightarrow> epoll_server \<Rightarrow> bool" where
  "epoll_ready c pre sv \<longleftrightarrow> stats sv = Stats_init \<and> running sv"

definition epoll_owns :: "epoll_server \<Rightarrow> int list" where
  "epoll_owns sv = only_valid (listener sv) @ only_valid (signal sv) @ only_valid (epoll sv)"

text \<open>Nothing is left to end when \<open>run\<close> has returned.\<close>

definition nothing_left :: "'v \<Rightarrow> event list \<Rightarrow> 'v \<Rightarrow> event list \<Rightarrow> event list \<Rightarrow> bool" where
  "nothing_left v evs v' evs' post \<longleftrightarrow> evs' = []"

definition epoll_ran :: "epoll_server \<Rightarrow> event list \<Rightarrow> epoll_server \<Rightarrow> bool" where
  "epoll_ran sv evs sv' \<longleftrightarrow> epoll_owns sv' = epoll_owns sv \<and> echo_run (signal sv) evs idle = Some idle \<and>
     stats sv' = tally (signal sv) evs (stats sv) \<and>
     (stopped (signal sv) evs \<or>
       (\<exists>pre e n. e \<noteq> EINTR \<and> evs = pre @ [E_wait (epoll sv) n (Inl e)]))"

lemma start_keeps:
  "Ev_Epoll.start K sv error s = ((ok, error'), sv', s') \<Longrightarrow>
    stats sv' = stats sv \<and> running sv' = running sv \<and> cfg sv' = cfg sv"
  by (auto simp: Ev_Epoll.start_def Let_def split: prod.splits if_splits)

lemma epoll_run_ran:
  assumes "epoll_ready c pre sv" and "Ev_Epoll.run K sv s = Some (Inr (sv', s'))"
  shows "\<exists>evs. extends evs s s' \<and> epoll_ran sv evs sv'"
proof -
  from assms(2) have "event_loop K sv s = Some (sv', s')" by (auto simp: Ev_Epoll.run_def split: if_splits)
  from event_loop_run [OF this] obtain evs where
    "extends evs s s'" "echo_run (signal sv) evs idle = Some idle"
    "sv' = sv\<lparr>stats := tally (signal sv) evs (stats sv),
      running := running sv \<and> \<not> stopped (signal sv) evs\<rparr>"
    "running sv' \<longrightarrow> (\<exists>pre e n. e \<noteq> EINTR \<and> evs = pre @ [E_wait (epoll sv) n (Inl e)])"
    by blast
  moreover from this(3) have "epoll_owns sv' = epoll_owns sv" by (simp add: epoll_owns_def)
  ultimately show ?thesis using assms(1) unfolding epoll_ready_def epoll_ran_def by auto
qed

lemma epoll_destroy_closes:
  "\<exists>cl. mset cl = mset (epoll_owns sv) \<and> opened_closed [] cl s (EpollServer_destroy K sv s)"
proof -
  note d1 = Socket_destroy_closed [of "epoll sv" s K]
  note d2 = opened_closed_trans [OF d1 Socket_destroy_closed [of "signal sv" _ K]]
  note d3 = opened_closed_trans [OF d2 Socket_destroy_closed [of "listener sv" _ K]]
  then show ?thesis
    by (intro exI [of _ "only_valid (epoll sv) @ only_valid (signal sv) @ only_valid (listener sv)"])
       (simp add: EpollServer_destroy_def epoll_owns_def ac_simps)
qed

lemma destroy_ended_nothing:
  assumes "\<exists>cl. mset cl = mset (own v) \<and> opened_closed [] cl s s'"
  shows "\<exists>evs' post. extends (evs' @ post) s s' \<and> nothing_left v evs v' evs' post \<and>
    opens post = [] \<and> mset (closes post) = mset (own v)"
  using assms by (auto simp: opened_closed_def nothing_left_def)

lemma epoll_start_owns:
  assumes "EpollServer_init c = Inr sv" and "Ev_Epoll.start K sv error s = ((ok, error'), sv', s')"
  shows "\<exists>cl. opened_closed (cl @ epoll_owns sv') cl s s'"
  using start_opened [OF assms] by (auto simp: epoll_owns_def)

interpretation epoll: server "epoll_class K" epoll_ready epoll_owns epoll_ran nothing_left for K :: "'w kernel"
proof (unfold_locales, goal_cases)
  case (1 c e)
  then show ?case by (auto simp: epoll_class_def EpollServer_init_def split: if_splits)
next
  case (2 c v error s ok error' v' s')
  then show ?case using epoll_start_owns [of c v K error s ok error' v' s'] by (simp add: epoll_class_def)
next
  case (3 c v error s error' v' s')
  then show ?case
    using start_keeps [of K v error s True error' v' s'] epoll_start_owns [of c v K error s True error' v' s']
    by (auto simp: epoll_class_def EpollServer_init_def epoll_ready_def opened_closed_def split: if_splits)
next
  case (4 c pre v s v' s')
  then show ?case using epoll_run_ran [of c pre v K s v' s'] by (simp add: epoll_class_def)
next
  case (5 c pre v s e)
  then show ?case by (auto simp: epoll_class_def Ev_Epoll.run_def split: if_splits)
next
  case (6 c pre v evs v' s s')
  then have "s' = EpollServer_destroy K v' s" "epoll_owns v' = epoll_owns v" by (simp_all add: epoll_class_def epoll_ran_def)
  with epoll_destroy_closes [of v' s K] show ?case by (simp add: destroy_ended_nothing)
next
  case (7 c v error s error' v' s' t t')
  then show ?case using epoll_destroy_closes [of v' t K] by (simp add: epoll_class_def)
next
  case (8 v s e)
  then show ?case by (simp add: epoll_class_def)
qed

text \<open>The io_uring backend: its run is accounted for by its events and ends in a reachable state;
  the destructor gives the ring back and closes the two descriptors.\<close>

definition uring_ready ::
  "'w uring \<Rightarrow> 'w kernel \<Rightarrow> Config \<Rightarrow> event list \<Rightarrow> uring_server \<Rightarrow> bool" where
  "uring_ready U K c pre sv \<longleftrightarrow> uring_started c pre sv \<and> (\<exists>s. uring_reach U K sv s)"

definition uring_owns :: "uring_server \<Rightarrow> int list" where
  "uring_owns sv = only_valid (listener sv) @ only_valid (signal sv)"

definition uring_ran ::
  "'w uring \<Rightarrow> 'w kernel \<Rightarrow> uring_server \<Rightarrow> event list \<Rightarrow> uring_server \<Rightarrow> bool" where
  "uring_ran U K sv evs sv' \<longleftrightarrow> accounts evs sv sv' \<and> (\<exists>s. uring_reach U K sv' s) \<and>
     (\<not> running sv' \<or> (\<exists>before e. e \<noteq> EINTR \<and> evs = before @ [E_call Sys_uring_wait (Inl e)]))"

definition uring_ended ::
  "uring_server \<Rightarrow> event list \<Rightarrow> uring_server \<Rightarrow> event list \<Rightarrow> event list \<Rightarrow> bool" where
  "uring_ended sv evs sv' evs' post \<longleftrightarrow> evs' = [] \<and> (\<exists>r1 r2. post = [E_call Sys_uring_exit (Inr 0),
     E_call (Sys_close (signal sv)) r1, E_call (Sys_close (listener sv)) r2])"

lemma uring_ready_reach: "uring_ready U K c pre sv \<Longrightarrow> uring_reach U K sv s"
  by (auto simp: uring_ready_def intro: uring_reach.stepped uring_step.outside)

lemma uring_destroy_closes:
  "\<exists>cl. mset cl = mset (uring_owns sv) \<and> opened_closed [] cl s (UringServer_destroy U K sv s)"
proof -
  let ?ev = "E_call Sys_uring_exit (Inr 0)"
  let ?s = "if ring_initialised sv then log_event ?ev (s\<lparr>world := ur_queue_exit U (world s)\<rparr>) else s"
  have "opened_closed [] [] s ?s"
    using log_event_extends(2) [of ?ev s "ur_queue_exit U (world s)"]
    by (cases "ring_initialised sv")
       (auto simp: opened_closed_def intro: exI [of _ "[?ev]"] exI [of _ "[]"])
  note d1 = opened_closed_trans [OF this Socket_destroy_closed [of "signal sv" ?s K]]
  note d2 = opened_closed_trans [OF d1 Socket_destroy_closed [of "listener sv" _ K]]
  then have "opened_closed [] (only_valid (signal sv) @ only_valid (listener sv)) s
      (UringServer_destroy U K sv s)"
    by (simp add: UringServer_destroy_def Let_def)
  then show ?thesis
    by (intro exI [of _ "only_valid (signal sv) @ only_valid (listener sv)"])
       (simp add: uring_owns_def ac_simps)
qed

lemma uring_destroy_calls:
  assumes "ring_initialised sv" and "0 \<le> signal sv" and "0 \<le> listener sv"
  shows "\<exists>r1 r2. extends [E_call Sys_uring_exit (Inr 0), E_call (Sys_close (signal sv)) r1,
    E_call (Sys_close (listener sv)) r2] s (UringServer_destroy U K sv s)"
proof -
  let ?s = "log_event (E_call Sys_uring_exit (Inr 0)) (s\<lparr>world := ur_queue_exit U (world s)\<rparr>)"
  obtain r1 w1 where d1: "Socket_destroy K (signal sv) ?s =
      finish w1 r1 (E_call (Sys_close (signal sv)) r1) ?s"
    using Socket_destroy_eq [OF assms(2), of K ?s] by metis
  obtain r2 w2 where d2: "Socket_destroy K (listener sv) (Socket_destroy K (signal sv) ?s) =
      finish w2 r2 (E_call (Sys_close (listener sv)) r2) (Socket_destroy K (signal sv) ?s)"
    using Socket_destroy_eq [OF assms(3), of K "Socket_destroy K (signal sv) ?s"] by metis
  show ?thesis
    by (rule exI [of _ r1], rule exI [of _ r2])
       (simp add: UringServer_destroy_def assms(1) d2 [unfolded d1] d1 extends_def)
qed

interpretation uring: server "uring_class U K" "uring_ready U K" uring_owns "uring_ran U K"
    uring_ended for U :: "'w uring" and K :: "'w kernel"
proof (unfold_locales, goal_cases)
  case (1 c e)
  then show ?case by (simp add: uring_class_def)
next
  case (2 c v error s ok error' v' s')
  then show ?case using uring_start_opened [of U K c error s ok error' v' s']
    by (simp add: uring_class_def uring_owns_def)
next
  case (3 c v error s error' v' s')
  then have st: "Ev_Uring.start U K (UringServer_init c) error s = ((True, error'), v', s')"
    by (simp add: uring_class_def)
  from start_started [OF st] uring_reach.started [OF st] show ?case by (auto simp: uring_ready_def)
next
  case (4 c pre v s v' s')
  then have run: "Ev_Uring.run U K v s = Some (Inr (v', s'))" by (simp add: uring_class_def)
  note reach = uring_ready_reach [OF 4(1)]
  from run_reach [OF run reach] show ?case
    by (auto simp: uring_ran_def moved_until_def intro: reach_steps [OF reach])
next
  case (5 c pre v s e)
  then have run: "Ev_Uring.run U K v s = Some (Inl e)" by (simp add: uring_class_def)
  from run_reach [OF run uring_ready_reach [OF 5(1)]] show ?case by simp
next
  case (6 c pre v evs v' s s')
  then have s': "s' = UringServer_destroy U K v' s" and same: "listener v' = listener v"
    "signal v' = signal v" "ring_initialised v'" "0 \<le> signal v" "0 \<le> listener v"
    by (simp_all add: uring_class_def uring_ran_def accounts_def uring_ready_def uring_started_def)
  from uring_destroy_calls [of v' s U K] same obtain r1 r2 where
    "extends [E_call Sys_uring_exit (Inr 0), E_call (Sys_close (signal v)) r1,
      E_call (Sys_close (listener v)) r2] s s'" unfolding s' by auto
  then show ?case
    using same by (intro exI [of _ "[]"] exI [of _ "[E_call Sys_uring_exit (Inr 0),
      E_call (Sys_close (signal v)) r1, E_call (Sys_close (listener v)) r2]"])
      (auto simp: uring_ended_def uring_owns_def only_valid_def)
next
  case (7 c v error s error' v' s' t t')
  then show ?case using uring_destroy_closes [of v' t U K] by (simp add: uring_class_def)
next
  case (8 v s e)
  then show ?case by (simp add: uring_class_def)
qed

subsection \<open>Whole runs\<close>

text \<open>C1: A whole run of evserver with an epoll backend that exits with status 0, on every
  kernel: after the options it starts up, prints the banner, and then makes exactly the calls of
  an echo server until a signal was read or a wait failed with something other than EINTR; the
  counters it prints are the tally of the calls of that loop and of nothing before or after it;
  nothing goes to stderr, and of the descriptors that starting and stopping opened every one has
  been closed exactly once.\<close>

theorem evserver_main_epoll:
  assumes "main K U threads args s = Some (Inr 0, s')"
    and "parse_args args Config_init s = (Inr (Inr c), s)"
    and "backend c = EpollLevel \<or> backend c = EpollEdge"
  shows "\<exists>sig ep pid1 pid2 pre evs post. trace s' = trace s @ pre @ evs @ post \<and>
    echo_run sig evs idle = Some idle \<and>
    (stopped sig evs \<or> (\<exists>before e n. e \<noteq> EINTR \<and> evs = before @ [E_wait ep n (Inl e)])) \<and>
    out s' = out s @ banner c pid1 pid2 @
      print_stats (backend c) (snapshot (tally sig evs Stats_init)) \<and>
    err s' = err s \<and> mset (opens (pre @ post)) = mset (closes (pre @ post))"
proof -
  from assms have "run_server K (epoll_class K) c s = Some (Inr 0, s')"
    by (auto simp: main_def)
  from epoll.run_server_ends [OF this] obtain sv sv' q1 q2 start evs post where
    ready: "epoll_ready c start sv" and ran: "epoll_ran sv evs sv'" and
    tr: "trace s' = trace s @ start @ [E_call Sys_getpid q1, E_call Sys_getpid q2] @ evs @ post"
    "out s' = out s @ banner c (c_int q1) (c_int q2) @
      print_stats (backend c) (sc_stats (epoll_class K) sv')"
    "err s' = err s" and fds: "mset (opens start) = mset (closes start) + mset (epoll_owns sv)"
    "opens post = []" "mset (closes post) = mset (epoll_owns sv)"
    by (auto simp: nothing_left_def)
  let ?pre = "start @ [E_call Sys_getpid q1, E_call Sys_getpid q2]"
  have "trace s' = trace s @ ?pre @ evs @ post" using tr(1) by simp
  moreover from fds have "mset (opens (?pre @ post)) = mset (closes (?pre @ post))" by simp
  moreover note tr(2,3)
  moreover from ran ready have "sc_stats (epoll_class K) sv' =
      snapshot (tally (signal sv) evs Stats_init)"
    by (simp add: epoll_class_def epoll_ready_def epoll_ran_def)
  moreover from ran have "echo_run (signal sv) evs idle = Some idle" "stopped (signal sv) evs \<or>
      (\<exists>before e n. e \<noteq> EINTR \<and> evs = before @ [E_wait (epoll sv) n (Inl e)])"
    by (simp_all add: epoll_ran_def)
  ultimately show ?thesis
    by (intro exI [of _ "signal sv"] exI [of _ "epoll sv"] exI [of _ "c_int q1"] exI [of _ "c_int q2"])
       metis
qed

definition sample_script :: "answer list" where
  "sample_script = [A_int 3, A_int 0, A_int 0, A_int 0, A_int 2, A_int 0, A_int 0, A_int 4, A_int 5,
     A_int 0, A_int 0, A_int 100, A_int 100] @ sample_run @ [A_int 0, A_int 0, A_int 0]"

lemma sample_main:
  "\<exists>s'. main scripted free_ring (epoll_class scripted) [''--backend=epoll''] (fresh_os sample_script) =
    Some (Inr 0, s')"
proof -
  have len: "length (replicate 128 (CHR ''s'')) = 128" by simp
  show ?thesis
    unfolding sample_script_def sample_run_def main_def
    apply (simp add: parse_backend_def Config_init_def run_server_def leave_main_def epoll_class_def EpollServer_init_def
      vector_length_ok_def Ev_Epoll.start_def listen_tcp_def Socket_valid_def Socket_reset_def set_nonblocking_def signal_fd_def
      add_to_epoll_def run_simps Stats_init_def Ev_Epoll.run_def)
    apply (subst event_loop.simps)
    apply (simp add: run_simps handle_connection_def handle_loop.simps write_all.simps edge_triggered_def)
    apply (subst event_loop.simps)
    apply (simp add: run_simps drain_signal.simps)
    apply (subst event_loop.simps)
    apply (simp add: leave_main_def)
    done
qed

lemma evserver_main_epoll_witness:
  "\<exists>s' sig pid1 pid2 evs. main scripted free_ring (epoll_class scripted) [''--backend=epoll'']
      (fresh_os sample_script) = Some (Inr 0, s') \<and> err s' = [] \<and>
    out s' = banner Config_init pid1 pid2 @
      print_stats EpollLevel (snapshot (tally sig evs Stats_init))"
proof -
  obtain s' where run: "main scripted free_ring (epoll_class scripted) [''--backend=epoll'']
      (fresh_os sample_script) = Some (Inr 0, s')" using sample_main by blast
  have args: "parse_args [''--backend=epoll''] Config_init (fresh_os sample_script) =
      (Inr (Inr Config_init), fresh_os sample_script)"
    by (simp add: parse_backend_def Config_init_def)
  have "backend Config_init = EpollLevel \<or> backend Config_init = EpollEdge"
    by (simp add: Config_init_def)
  from evserver_main_epoll [OF run args this] run show ?thesis
    by (auto simp: Config_init_def)
qed

text \<open>C2: A whole run of evserver with the io_uring backend that exits with status 0, for every
  kernel and every behaviour of the ring that the interface allows, by all its calls. Before the
  loop there are exactly the six calls that make the listener and the signal descriptor, the setup
  of the ring, the attempts to queue an accept on the one and a poll of the other, and two getpid.
  After the loop there are exactly three: the ring is given back and the two descriptors are
  closed. In between, the receives and sends in the order in which they completed are those of an
  echo server; connections are opened by accepts and closed at most once each, nothing else is
  closed, and those that were opened and not closed are the only ones that are still owed bytes;
  the loop ended because the poll of the signal descriptor completed, or with a wait that failed
  with something other than EINTR. The counters that are printed are the tally of exactly these
  calls, and nothing goes to stderr.\<close>

theorem evserver_main_uring:
  assumes "main K U threads args s = Some (Inr 0, s')"
    and "parse_args args Config_init s = (Inr (Inr c), s)"
    and "backend c = IoUring"
  shows "\<exists>lis sig n acc poll q1 q2 evs r1 r2 owing live. 0 \<le> lis \<and> 0 \<le> sig \<and> 0 \<le> n \<and>
    queued (Sys_uring_accept lis) acc \<and> queued (Sys_uring_poll sig POLLIN) poll \<and>
    trace s' = trace s @ startup (port c) 1024 lis sig @ [E_call (Sys_uring_setup 256) (Inr n)] @
      acc @ poll @ [E_call Sys_getpid q1, E_call Sys_getpid q2] @ evs @
      [E_call Sys_uring_exit (Inr 0), E_call (Sys_close sig) r1, E_call (Sys_close lis) r2] \<and>
    echo_run (-1) evs idle = Some owing \<and> (\<forall>fd. owing fd \<noteq> [] \<longrightarrow> fd \<in> live) \<and>
    open_run evs {} = Some live \<and> mset (opens evs) = mset (closes evs) + mset_set live \<and>
    (polled sig evs \<or> (\<exists>before e. e \<noteq> EINTR \<and> evs = before @ [E_call Sys_uring_wait (Inl e)])) \<and>
    out s' = out s @ banner c (c_int q1) (c_int q2) @
      print_stats IoUring (snapshot (ring_tally (acc @ poll @ evs) Stats_init)) \<and>
    err s' = err s"
proof -
  from assms have "run_server K (uring_class U K) c s = Some (Inr 0, s')"
    by (auto simp: main_def)
  from uring.run_server_ends [OF this] obtain sv0 sv q1 q2 pre evs post where
    "uring_ready U K c pre sv0" and ran: "uring_ran U K sv0 evs sv" and
    "uring_ended sv0 evs sv [] post" and
    tr: "trace s' = trace s @ pre @ [E_call Sys_getpid q1, E_call Sys_getpid q2] @ evs @ post"
    "out s' = out s @ banner c (c_int q1) (c_int q2) @
      print_stats (backend c) (sc_stats (uring_class U K) sv)" "err s' = err s"
    unfolding uring_ended_def by force
  then have ready: "uring_started c pre sv0" and "\<exists>r1 r2. post = [E_call Sys_uring_exit (Inr 0),
      E_call (Sys_close (signal sv0)) r1, E_call (Sys_close (listener sv0)) r2]"
    by (simp_all add: uring_ready_def uring_ended_def)
  then obtain r1 r2 where post: "post = [E_call Sys_uring_exit (Inr 0),
      E_call (Sys_close (signal sv0)) r1, E_call (Sys_close (listener sv0)) r2]" by blast
  from ready obtain n acc poll where
    pre: "0 \<le> listener sv0" "0 \<le> signal sv0" "0 \<le> n" "queued (Sys_uring_accept (listener sv0)) acc"
      "queued (Sys_uring_poll (signal sv0) POLLIN) poll"
      "pre = startup (port c) 1024 (listener sv0) (signal sv0) @
         E_call (Sys_uring_setup 256) (Inr n) # acc @ poll"
    and st: "stats sv0 = ring_tally (acc @ poll) Stats_init"
      "history sv0 = []" "connections sv0 = Map.empty" "running sv0"
    unfolding uring_started_def by blast
  from ran have inv: "uinv sv None" and acct: "accounts evs sv0 sv" and
    ends: "\<not> running sv \<or> (\<exists>before e. e \<noteq> EINTR \<and> evs = before @ [E_call Sys_uring_wait (Inl e)])"
    by (auto simp: uring_ran_def dest: reach_inv)
  let ?live = "dom (connections sv)"
  have "echo_run (-1) (history sv) idle = Some (owed sv None)"
    using inv by (simp add: uinv_def echoing_def)
  with acct st(2) have echo: "echo_run (-1) evs idle = Some (owed sv None)"
    by (simp add: accounts_def echo_run_past)
  have owing: "\<forall>fd. owed sv None fd \<noteq> [] \<longrightarrow> fd \<in> ?live" by (auto split: option.splits)
  from acct st(3) have live: "open_run evs {} = Some ?live" by (simp add: accounts_def)
  from open_run_balance [OF this] have fds: "mset (opens evs) = mset (closes evs) + mset_set ?live"
    by simp
  have stops: "polled (signal sv0) evs \<or>
      (\<exists>before e. e \<noteq> EINTR \<and> evs = before @ [E_call Sys_uring_wait (Inl e)])"
    using acct ends st(4) by (auto simp: accounts_def)
  have tally: "stats sv = ring_tally (acc @ poll @ evs) Stats_init"
    using acct st(1) by (simp add: accounts_def)
  have trace: "trace s' = trace s @ startup (port c) 1024 (listener sv0) (signal sv0) @
      [E_call (Sys_uring_setup 256) (Inr n)] @ acc @ poll @
      [E_call Sys_getpid q1, E_call Sys_getpid q2] @ evs @ [E_call Sys_uring_exit (Inr 0),
        E_call (Sys_close (signal sv0)) r1, E_call (Sys_close (listener sv0)) r2]"
    using tr(1) pre(6) post by simp
  have printed: "out s' = out s @ banner c (c_int q1) (c_int q2) @
      print_stats IoUring (snapshot (ring_tally (acc @ poll @ evs) Stats_init))"
    using tr(2) tally assms(3) by (simp add: uring_class_def)
  show ?thesis
    by (rule exI [of _ "listener sv0"], rule exI [of _ "signal sv0"], rule exI [of _ n],
        rule exI [of _ acc], rule exI [of _ poll], rule exI [of _ q1], rule exI [of _ q2],
        rule exI [of _ evs], rule exI [of _ r1], rule exI [of _ r2], rule exI [of _ "owed sv None"],
        rule exI [of _ ?live])
       (intro conjI pre(1-5) trace echo owing live fds stops printed tr(3))
qed

text \<open>
  A ring that serves one client: its connection is accepted on descriptor 7, sends "ab", gets it
  back in two sends, and is closed by the client; then the poll completes.
\<close>

definition serving_ring :: "(answer list) uring" where
  "serving_ring = free_ring\<lparr>ur_next_cqe := \<lambda>sv w.
     (if \<not> running sv then None else case prep (last (inflight sv)) of
        Prep_recv fd p n \<Rightarrow> Some (last (inflight sv), if history sv = [] then Got ''ab'' else Got [])
      | Prep_send fd p n \<Rightarrow> Some (last (inflight sv), Sent 1)
      | _ \<Rightarrow> Some (hd (inflight sv), if history sv = [] then Fd 7 else Fd 1), w)\<rparr>"

definition uring_script :: "answer list" where
  "uring_script = [A_int 3, A_int 0, A_int 0, A_int 0, A_int 0, A_int 4, A_int 100, A_int 100,
     A_int 0, A_int 0, A_int 0, A_int 0]"

lemma sample_main_uring:
  "\<exists>s'. main scripted serving_ring (epoll_class scripted) [''--backend=uring'']
      (fresh_os uring_script) = Some (Inr 0, s') \<and>
    E_write 7 ''ab'' (Inr 1) \<in> set (trace s') \<and> E_write 7 ''b'' (Inr 1) \<in> set (trace s')"
  unfolding uring_script_def main_def
  apply (simp add: parse_backend_def Config_init_def run_server_def leave_main_def uring_class_def
    Ev_Uring.start_def listen_tcp_def Socket_valid_def Socket_reset_def signal_fd_def run_simps
    UringServer_init_def submit_accept_def submit_signal_poll_def next_sqe_def prepare_def
    serving_ring_def free_ring_def Stats_init_def)
  apply (subst Ev_Uring.run.simps, simp)
  apply (subst for_each_cqe.simps, simp add: next_cqe_def Ev_Uring.complete_def perform_def
    handle_completion_def submit_accept_def next_sqe_def prepare_def make_conn_def put_connection_def
    submit_recv_def set_nodelay_def vector_length_ok_def run_simps completed_event_def)
  apply (subst for_each_cqe.simps, simp add: next_cqe_def Ev_Uring.complete_def perform_def
    handle_completion_def next_sqe_def prepare_def submit_send_def completed_event_def)
  apply (subst for_each_cqe.simps, simp add: next_cqe_def Ev_Uring.complete_def perform_def
    handle_completion_def next_sqe_def prepare_def submit_send_def completed_event_def
    memmove_front_def)
  apply (subst for_each_cqe.simps, simp add: next_cqe_def Ev_Uring.complete_def perform_def
    handle_completion_def next_sqe_def prepare_def submit_recv_def completed_event_def)
  apply (subst for_each_cqe.simps, simp add: next_cqe_def Ev_Uring.complete_def perform_def
    handle_completion_def close_connection_def run_simps completed_event_def)
  apply (subst for_each_cqe.simps, simp add: next_cqe_def Ev_Uring.complete_def perform_def
    handle_completion_def completed_event_def)
  apply (subst for_each_cqe.simps, simp add: next_cqe_def)
  apply (subst Ev_Uring.run.simps, simp add: leave_main_def UringServer_destroy_def
    Socket_destroy_def Socket_reset_def run_simps)
  done

lemma evserver_main_uring_witness:
  "\<exists>s' lis sig acc poll evs q1 q2 owing. main scripted serving_ring (epoll_class scripted)
      [''--backend=uring''] (fresh_os uring_script) = Some (Inr 0, s') \<and>
    E_write 7 ''ab'' (Inr 1) \<in> set evs \<and>
    out s' = banner (Config_init\<lparr>backend := IoUring\<rparr>) (c_int q1) (c_int q2) @
      print_stats IoUring (snapshot (ring_tally (acc @ poll @ evs) Stats_init)) \<and>
    queued (Sys_uring_accept lis) acc \<and> queued (Sys_uring_poll sig POLLIN) poll \<and>
    echo_run (-1) evs idle = Some owing"
proof -
  let ?c = "Config_init\<lparr>backend := IoUring\<rparr>"
  obtain s' where run: "main scripted serving_ring (epoll_class scripted)
      [''--backend=uring''] (fresh_os uring_script) = Some (Inr 0, s')"
    and wr: "E_write 7 ''ab'' (Inr 1) \<in> set (trace s')" using sample_main_uring by blast
  have args: "parse_args [''--backend=uring''] Config_init (fresh_os uring_script) =
      (Inr (Inr ?c), fresh_os uring_script)"
    by (simp add: parse_backend_def Config_init_def)
  have "backend ?c = IoUring" by simp
  from evserver_main_uring [OF run args this(1)] obtain lis sig n acc poll q1 q2 evs r1 r2 owing where
    r: "queued (Sys_uring_accept lis) acc" "queued (Sys_uring_poll sig POLLIN) poll"
      "trace s' = trace (fresh_os uring_script) @ startup (port ?c) 1024 lis sig @
        [E_call (Sys_uring_setup 256) (Inr n)] @ acc @ poll @
        [E_call Sys_getpid q1, E_call Sys_getpid q2] @ evs @
        [E_call Sys_uring_exit (Inr 0), E_call (Sys_close sig) r1, E_call (Sys_close lis) r2]"
      "echo_run (-1) evs idle = Some owing"
      "out s' = out (fresh_os uring_script) @ banner ?c (c_int q1) (c_int q2) @
        print_stats IoUring (snapshot (ring_tally (acc @ poll @ evs) Stats_init))"
    by blast
  moreover from r(1-3) wr have "E_write 7 ''ab'' (Inr 1) \<in> set evs"
    by (auto simp: startup_def queued_def)
  ultimately show ?thesis using run by fastforce
qed

text \<open>How evserver ends otherwise, with either of the single-threaded backends and on every
  kernel: a run that returns without status 0 is one that could not start, with status 1, nothing
  on stdout and exactly one diagnostic on stderr, after closing every descriptor that it had
  opened, whichever of the calls of start failed; or it ended with the std::length_error of a
  buffer or event array that is too long. There is no other exception and no undefined
  behaviour.\<close>

theorem evserver_main_fails:
  assumes "main K U threads args s = Some (r, s')" and "r \<noteq> Inr 0"
    and "parse_args args Config_init s = (Inr (Inr c), s)"
    and "backend c \<noteq> ThreadPerConnection"
  shows "(case r of
      Inl e \<Rightarrow> e = Length_Error
    | Inr n \<Rightarrow> n = 1 \<and> (\<exists>evs msg. trace s' = trace s @ evs \<and> mset (opens evs) = mset (closes evs) \<and>
        out s' = out s \<and> err s' = err s @ ''Failed to start: '' @ msg @ newline))"
proof (cases "backend c = IoUring")
  case True
  with assms have "run_server K (uring_class U K) c s = Some (r, s')" by (simp add: main_def)
  from uring.run_server_fails [OF this assms(2)] show ?thesis .
next
  case False
  with assms have "run_server K (epoll_class K) c s = Some (r, s')"
    by (cases "backend c") (simp_all add: main_def)
  from epoll.run_server_fails [OF this assms(2)] show ?thesis .
qed

lemma evserver_main_fails_witness:
  "\<exists>s' evs. main scripted free_ring (epoll_class scripted) []
      (fresh_os [A_int 3, A_int 0, A_fail 13, A_int 0]) = Some (Inr 1, s') \<and>
    trace s' = [] @ evs \<and> opens evs = [3] \<and> mset (closes evs) = {#3#} \<and> out s' = []"
proof -
  let ?s = "fresh_os [A_int 3, A_int 0, A_fail 13, A_int 0]" and ?c = Config_init
  have args: "parse_args [] Config_init ?s = (Inr (Inr ?c), ?s)"
    by simp
  have run: "\<exists>s'. main scripted free_ring (epoll_class scripted) [] ?s = Some (Inr 1, s') \<and>
      opens (trace s') = [3] \<and> out s' = []"
    by (simp add: main_def args run_server_def leave_main_def epoll_class_def EpollServer_init_def Config_init_def
        vector_length_ok_def Ev_Epoll.start_def listen_tcp_def Socket_valid_def Socket_destroy_def
        Socket_reset_def EpollServer_destroy_def run_simps only_valid_def)
  then obtain s' where s': "main scripted free_ring (epoll_class scripted) [] ?s =
      Some (Inr 1, s')" "opens (trace s') = [3]" "out s' = []" by blast
  have "backend ?c \<noteq> ThreadPerConnection" by (simp add: Config_init_def)
  from evserver_main_fails [OF s'(1) _ args this] s' show ?thesis by auto
qed

end
