(* ===== verification/Schedule.thy ===== *)
theory Schedule
  imports Prelude "HOL-Library.Monad_Syntax"
begin

section \<open>Programs with several threads\<close>

text \<open>
  Two of the programs run threads: the thread-per-connection backend of evserver and its load
  generator. Their threads are step functions on a shared state. Which thread runs next is up to
  the kernel, so it is a parameter, the schedule: \<open>sched n\<close> is the thread that makes the \<open>n\<close>-th
  step. What holds for every schedule holds for every interleaving. A thread is named by its
  position among the workers.
\<close>

datatype thread = Main | Worker nat

text \<open>
  A run: steps of the scheduled threads until the state is final, or one of them ends the program
  with an exception, which a thread does not catch either. The result says how many steps the
  schedule was followed for. \<open>None\<close> is "does not return".
\<close>

partial_function (option) scheduled ::
  "(thread \<Rightarrow> 'c \<Rightarrow> 'c cpp) \<Rightarrow> (nat \<Rightarrow> thread) \<Rightarrow> ('c \<Rightarrow> bool) \<Rightarrow> nat \<Rightarrow> 'c \<Rightarrow> (nat \<times> 'c) cpp option" where
  "scheduled step sched final n c =
     (if final c then Some (Inr (n, c))
      else case step (sched n) c of
        Inl e \<Rightarrow> Some (Inl e)
      | Inr c' \<Rightarrow> scheduled step sched final (Suc n) c')"

text \<open>The same with a bound on the number of steps, which evaluates.\<close>

fun scheduled_upto ::
  "nat \<Rightarrow> (thread \<Rightarrow> 'c \<Rightarrow> 'c cpp) \<Rightarrow> (nat \<Rightarrow> thread) \<Rightarrow> ('c \<Rightarrow> bool) \<Rightarrow> nat \<Rightarrow> 'c \<Rightarrow>
    (nat \<times> 'c) cpp option" where
  "scheduled_upto k step sched final n c =
     (if final c then Some (Inr (n, c))
      else case k of
        0 \<Rightarrow> None
      | Suc k \<Rightarrow>
          (case step (sched n) c of
             Inl e \<Rightarrow> Some (Inl e)
           | Inr c' \<Rightarrow> scheduled_upto k step sched final (Suc n) c'))"

lemma scheduled_upto_run:
  "scheduled_upto k step sched final n c = Some r \<Longrightarrow> scheduled step sched final n c = Some r"
proof (induction k arbitrary: n c)
  case 0
  then show ?case by (simp add: scheduled.simps split: if_splits)
next
  case (Suc k)
  then show ?case
    by (subst scheduled.simps) (auto split: if_splits sum.splits)
qed

declare scheduled_upto.simps [simp del]

text \<open>A schedule is fair to the threads of a set when each of them is always scheduled again.\<close>

definition fair :: "thread set \<Rightarrow> (nat \<Rightarrow> thread) \<Rightarrow> bool" where
  "fair T sched \<longleftrightarrow> (\<forall>t \<in> T. \<forall>n. \<exists>m \<ge> n. sched m = t)"

text \<open>A round of all threads, again and again, is a fair schedule.\<close>

definition round_robin :: "nat \<Rightarrow> nat \<Rightarrow> thread" where
  "round_robin k n = (case n mod Suc k of 0 \<Rightarrow> Main | Suc j \<Rightarrow> Worker j)"

lemma round_robin_fair: "fair (insert Main (Worker ` {..<k})) (round_robin k)"
proof -
  have "\<exists>m \<ge> n. round_robin k m = (case i of 0 \<Rightarrow> Main | Suc j \<Rightarrow> Worker j)" if "i \<le> k" for i n
  proof -
    have "n \<le> n * Suc k + i" by simp
    moreover have "(n * Suc k + i) mod Suc k = i" using that by (simp add: mod_mult_self3 del: mult_Suc_right)
    ultimately show ?thesis unfolding round_robin_def by metis
  qed
  from this [of 0] this [of "Suc _"] show ?thesis by (auto simp: fair_def Suc_le_eq)
qed

subsection \<open>Invariants of a run\<close>

text \<open>
  The contract of a program with threads: a property of its states that every step of every
  thread keeps, and what the exceptions are.
\<close>

locale threaded =
  fixes step :: "thread \<Rightarrow> 'c \<Rightarrow> 'c cpp"
    and inv :: "'c \<Rightarrow> bool"
    and throws :: "cpp_error \<Rightarrow> bool"
  assumes step_inv: "inv c \<Longrightarrow> step t c = Inr c' \<Longrightarrow> inv c'"
    and step_throws: "inv c \<Longrightarrow> step t c = Inl e \<Longrightarrow> throws e"
begin

lemma scheduled_inv:
  assumes "scheduled step sched final n c = Some r" and "inv c"
  shows "case r of Inl e \<Rightarrow> throws e | Inr (m, c') \<Rightarrow> inv c' \<and> final c' \<and> n \<le> m"
proof -
  let ?P = "\<lambda>stp sch fin n c r. stp = step \<longrightarrow> inv c \<longrightarrow>
    (case r of Inl e \<Rightarrow> throws e | Inr (m, c') \<Rightarrow> inv c' \<and> fin c' \<and> n \<le> m)"
  have "?P step sched final n c r"
  proof (rule scheduled.raw_induct [where P = ?P, OF _ assms(1)], goal_cases)
    case (1 f stp sch fin n c r)
    show ?case
    proof (intro impI)
      assume stp: "stp = step" and c: "inv c"
      show "case r of Inl e \<Rightarrow> throws e | Inr (m, c') \<Rightarrow> inv c' \<and> fin c' \<and> n \<le> m"
      proof (cases "fin c")
        case True
        with 1(2) c show ?thesis by auto
      next
        case False
        show ?thesis
        proof (cases "step (sch n) c")
          case (Inl e)
          with False 1(2) stp step_throws [OF c] show ?thesis by auto
        next
          case (Inr c')
          with False 1(2) stp have "f stp sch fin (Suc n) c' = Some r" by simp
          from 1(1) [OF this] stp step_inv [OF c Inr] show ?thesis by (auto split: sum.splits)
        qed
      qed
    qed
  qed
  then show ?thesis using assms(2) by simp
qed

end

subsection \<open>Runs that end\<close>

text \<open>
  Progress: in every state that is not final some thread \<open>helps\<close>, which is to say that its step
  makes the rank smaller; the steps of the other threads may do so too, and if they do not, they
  leave the rank alone and the helpful thread remains helpful. Then every fair schedule reaches
  the end (or an exception).
\<close>

locale progressing = threaded +
  fixes T :: "thread set"
    and final :: "'a \<Rightarrow> bool"
    and helps :: "thread \<Rightarrow> 'a \<Rightarrow> bool"
    and rank :: "'a \<Rightarrow> 'r"
    and smaller :: "('r \<times> 'r) set"
  assumes wf_smaller: "wf smaller"
    and helpful: "inv c \<Longrightarrow> \<not> final c \<Longrightarrow> \<exists>t \<in> T. helps t c"
    and helping: "inv c \<Longrightarrow> \<not> final c \<Longrightarrow> helps t c \<Longrightarrow> step t c = Inr c' \<Longrightarrow> (rank c', rank c) \<in> smaller"
    and wait: "inv c \<Longrightarrow> \<not> final c \<Longrightarrow> helps t c \<Longrightarrow> step u c = Inr c' \<Longrightarrow>
      (rank c', rank c) \<in> smaller \<or> rank c' = rank c \<and> helps t c'"
begin

lemma fair_returns:
  assumes fair: "fair T sched" and "inv c"
  shows "\<exists>r. scheduled step sched final n c = Some r"
  using assms(2)
proof (induction "rank c" arbitrary: n c rule: wf_induct_rule [OF wf_smaller])
  case (1 c)
  note IH = 1(1)
  show ?case
  proof (cases "final c")
    case True
    then show ?thesis by (simp add: scheduled.simps)
  next
    case False
    from helpful [OF 1(2) False] obtain t where t: "t \<in> T" "helps t c" by blast
    from fair t(1) obtain m where m: "n \<le> m" "sched m = t" by (auto simp: fair_def)
    have "\<exists>r. scheduled step sched final k d = Some r"
      if "k \<le> m" "inv d" "\<not> final d" "rank d = rank c" "helps t d" for k d
      using that
    proof (induction "m - k" arbitrary: k d)
      case (0 k d)
      then have k: "sched k = t" using m(2) by simp
      show ?case
      proof (cases "step t d")
        case (Inl e)
        with k 0 show ?thesis by (simp add: scheduled.simps [of step sched final k d])
      next
        case (Inr d')
        from helping [OF 0(3,4,6) this] 0(5) have "(rank d', rank c) \<in> smaller" by simp
        from IH [OF this step_inv [OF 0(3) Inr]] Inr k 0(4) show ?thesis
          by (simp add: scheduled.simps [of step sched final k d])
      qed
    next
      case (Suc x k d)
      show ?case
      proof (cases "step (sched k) d")
        case (Inl e)
        with Suc(5) show ?thesis by (simp add: scheduled.simps [of step sched final k d])
      next
        case (Inr d')
        note inv' = step_inv [OF Suc(4) Inr]
        have "\<exists>r. scheduled step sched final (Suc k) d' = Some r"
        proof (cases "(rank d', rank c) \<in> smaller")
          case True
          from IH [OF this inv'] show ?thesis .
        next
          case lt: False
          with wait [OF Suc(4,5,7) Inr] Suc(6) have same: "rank d' = rank c" "helps t d'" by auto
          show ?thesis
          proof (cases "final d'")
            case True
            then show ?thesis by (simp add: scheduled.simps)
          next
            case False
            from Suc(2,3) have "x = m - Suc k" "Suc k \<le> m" by simp_all
            from Suc(1) [OF this(1) this(2) inv' False same] show ?thesis .
          qed
        qed
        with Inr Suc(5) show ?thesis by (simp add: scheduled.simps [of step sched final k d])
      qed
    qed
    from this [OF m(1) 1(2) False refl t(2)] show ?thesis .
  qed
qed

end

end
