(* ===== verification/Ev_Threads.thy ===== *)
theory Ev_Threads
  imports Ev_Echo Schedule
begin

section \<open>evserver: the thread-per-connection backend\<close>

text \<open>
  Models \<open>evserver/src/server_threads.cpp\<close>: the class \<open>ThreadServer\<close> with its main thread
  (\<open>run\<close>, then the destructor) and one worker thread per connection (\<open>serve\<close>). A thread is a
  program counter with the counter updates it still has to make; a step of a thread is one
  system call (the accept with the \<open>setsockopt\<close> that follows it), one atomic counter update
  or one test, and the step relation interleaves the
  threads in every possible way. \<open>errno\<close> is thread-local, so it is read in the step of the
  call that set it. \<open>poll\<close> on the two descriptors is a wait that reports at most two.
\<close>

subsection \<open>Threads\<close>

datatype counter = Accepted | Closed | Requests | Bytes | Read_calls | Write_calls | Wait_calls
  | Threads_spawned | Syscalls

type_synonym todo = "(counter \<times> 64 word) list"

fun bump_counter :: "counter \<times> 64 word \<Rightarrow> Stats \<Rightarrow> Stats" where
  "bump_counter (Accepted, k) st = accepted_update (bump k) st"
| "bump_counter (Closed, k) st = closed_update (bump k) st"
| "bump_counter (Requests, k) st = requests_update (bump k) st"
| "bump_counter (Bytes, k) st = bytes_update (bump k) st"
| "bump_counter (Read_calls, k) st = read_calls_update (bump k) st"
| "bump_counter (Write_calls, k) st = write_calls_update (bump k) st"
| "bump_counter (Wait_calls, k) st = wait_calls_update (bump k) st"
| "bump_counter (Threads_spawned, k) st = threads_spawned_update (bump k) st"
| "bump_counter (Syscalls, k) st = syscalls_update (bump k) st"

text \<open>
  Where \<open>serve\<close> is: at the construction of its buffer, at the test of its outer loop, at the read, in the write loop with the
  bytes read and the number written, at the destructor of \<open>conn\<close>, returned.
\<close>

datatype phase = Starting | Check | Reading | Writing string nat | Closing | Done

record worker =
  w_fd :: int
  w_phase :: phase
  w_todo :: todo

text \<open>
  Where the main thread is: at the test of the loop, at the poll, draining the signal
  descriptor, at the accept, about to start the worker, returned from \<open>run\<close>, in the
  destructor waiting for a worker, destroyed.
\<close>

datatype main_phase = M_loop | M_poll | M_drain | M_accept | M_spawn int | M_returned | M_join nat | M_end

record thread_server = server_state +
  workers :: "worker list"
  m_phase :: main_phase
  m_todo :: todo

definition ThreadServer_init :: "Config \<Rightarrow> thread_server" where
  "ThreadServer_init c = \<lparr>cfg = c, listener = -1, signal = -1, stats = Stats_init, running = True,
     workers = [], m_phase = M_loop, m_todo = []\<rparr>"

definition start ::
  "'w kernel \<Rightarrow> thread_server \<Rightarrow> string option \<Rightarrow> 'w os
    \<Rightarrow> (bool \<times> string option) \<times> thread_server \<times> 'w os" where
  "start K sv error s =
     (let ((fd, error), s) = listen_tcp K (port (cfg sv)) 1024 error s;
          (fd, s) = Socket_reset K (listener sv) fd s; sv = sv\<lparr>listener := fd\<rparr> in
      if \<not> Socket_valid (listener sv) then ((False, error), sv, s)
      else let ((fd, error), s) = signal_fd K error s;
          (fd, s) = Socket_reset K (signal sv) fd s; sv = sv\<lparr>signal := fd\<rparr> in
      ((Socket_valid (signal sv), error), sv, s))"

subsection \<open>A step of a worker\<close>

text \<open>One operation of \<open>serve\<close>, when no counter update is left from the previous one.\<close>

fun serve_op :: "'w kernel \<Rightarrow> nat \<Rightarrow> bool \<Rightarrow> worker \<Rightarrow> 'w os \<Rightarrow> worker \<times> 'w os" where
  "serve_op K len go w s = (case w_phase w of
     Starting \<Rightarrow> (w\<lparr>w_phase := Check\<rparr>, s)
   | Check \<Rightarrow>
       (if go then (w\<lparr>w_phase := Reading\<rparr>, s)
        else (w\<lparr>w_phase := Closing, w_todo := [(Closed, 1)]\<rparr>, s))
   | Reading \<Rightarrow>
       (let ((n, buf), s) = sys_read K (w_fd w) len s; todo = [(Read_calls, 1), (Syscalls, 1)] in
        if n \<le> 0 then
          if n < 0 \<and> errno s = EINTR then (w\<lparr>w_phase := Check, w_todo := todo\<rparr>, s)
          else (w\<lparr>w_phase := Closing, w_todo := todo @ [(Closed, 1)]\<rparr>, s)
        else (w\<lparr>w_phase := Writing buf 0,
                w_todo := todo @ [(Requests, 1), (Bytes, of_int n)]\<rparr>, s))
   | Writing buf written \<Rightarrow>
       (if written < length buf then
          let (n, s) = sys_write K (w_fd w) (drop written buf) s;
              todo = [(Write_calls, 1), (Syscalls, 1)] in
          if n \<le> 0 then
            if n < 0 \<and> errno s = EINTR then (w\<lparr>w_todo := todo\<rparr>, s)
            else (w\<lparr>w_phase := Closing, w_todo := todo @ [(Closed, 1)]\<rparr>, s)
          else (w\<lparr>w_phase := Writing buf (written + nat n), w_todo := todo\<rparr>, s)
        else (w\<lparr>w_phase := Check\<rparr>, s))
   | Closing \<Rightarrow> (w\<lparr>w_phase := Done\<rparr>, Socket_destroy K (w_fd w) s)
   | Done \<Rightarrow> (w, s))"

text \<open>The buffer of a worker throws when it is too long, which ends the whole program.\<close>

definition cannot_start :: "Config \<Rightarrow> worker \<Rightarrow> bool" where
  "cannot_start c w \<longleftrightarrow> w_phase w = Starting \<and> \<not> vector_length_ok 1 (buffer_size c)"

definition worker_step ::
  "'w kernel \<Rightarrow> nat \<Rightarrow> thread_server \<Rightarrow> 'w os \<Rightarrow> thread_server \<times> 'w os" where
  "worker_step K i sv s =
     (let w = workers sv ! i in
      case w_todo w of
        t # ts \<Rightarrow> (sv\<lparr>workers := (workers sv)[i := w\<lparr>w_todo := ts\<rparr>],
                    stats := bump_counter t (stats sv)\<rparr>, s)
      | [] \<Rightarrow> (let (w, s) = serve_op K (buffer_size (cfg sv)) (running sv) w s in
                (sv\<lparr>workers := (workers sv)[i := w]\<rparr>, s)))"

subsection \<open>A step of the main thread\<close>

definition reported :: "int \<Rightarrow> (int \<times> flag list) list \<Rightarrow> bool" where
  "reported fd evs \<longleftrightarrow> list_ex (\<lambda>(g, fl). g = fd \<and> POLLIN \<in> set fl) evs"

fun main_op :: "'w kernel \<Rightarrow> thread_server \<Rightarrow> 'w os \<Rightarrow> thread_server \<times> 'w os" where
  "main_op K sv s = (case m_phase sv of
     M_loop \<Rightarrow> (if running sv then (sv\<lparr>m_phase := M_poll\<rparr>, s) else (sv\<lparr>m_phase := M_returned\<rparr>, s))
   | M_poll \<Rightarrow>
       (let ((n, evs), s) = sys_wait K (-1) 2 s; todo = [(Wait_calls, 1), (Syscalls, 1)] in
        if n < 0 then
          if errno s = EINTR then (sv\<lparr>m_phase := M_loop, m_todo := todo\<rparr>, s)
          else (sv\<lparr>m_phase := M_returned, m_todo := todo\<rparr>, s)
        else if reported (signal sv) evs then (sv\<lparr>m_phase := M_drain, m_todo := todo\<rparr>, s)
        else if reported (listener sv) evs then (sv\<lparr>m_phase := M_accept, m_todo := todo\<rparr>, s)
        else (sv\<lparr>m_phase := M_loop, m_todo := todo\<rparr>, s))
   | M_drain \<Rightarrow>
       (let ((n, info), s) = sys_read K (signal sv) 128 s in
        if n = 128 then (sv\<lparr>running := False\<rparr>, s) else (sv\<lparr>m_phase := M_returned\<rparr>, s))
   | M_accept \<Rightarrow>
       (let (fd, s) = call K (Sys_accept4 (listener sv) [SOCK_CLOEXEC]) s in
        if fd < 0 then (sv\<lparr>m_phase := M_loop\<rparr>, s)
        else let (_, s) = set_nodelay K fd s in
          (sv\<lparr>m_phase := M_spawn fd, m_todo := [(Accepted, 1), (Threads_spawned, 1)]\<rparr>, s))
   | M_spawn fd \<Rightarrow>
       (sv\<lparr>m_phase := M_loop,
          workers := workers sv @ [\<lparr>w_fd = fd, w_phase = Starting, w_todo = []\<rparr>]\<rparr>, s)
   | M_returned \<Rightarrow> (sv\<lparr>m_phase := M_join 0, running := False\<rparr>, s)
   | M_join i \<Rightarrow>
       (if i < length (workers sv) then
          if w_phase (workers sv ! i) = Done then (sv\<lparr>m_phase := M_join (i + 1)\<rparr>, s) else (sv, s)
        else (sv\<lparr>m_phase := M_end\<rparr>, s))
   | M_end \<Rightarrow> (sv, s))"

definition main_step :: "'w kernel \<Rightarrow> thread_server \<Rightarrow> 'w os \<Rightarrow> thread_server \<times> 'w os" where
  "main_step K sv s =
     (case m_todo sv of
        t # ts \<Rightarrow> (sv\<lparr>m_todo := ts, stats := bump_counter t (stats sv)\<rparr>, s)
      | [] \<Rightarrow> main_op K sv s)"

subsection \<open>Interleavings\<close>

text \<open>
  A descriptor that \<open>accept4\<close> returns is new: it is not the signal descriptor and no worker
  still holds it. Steps are labelled with the thread that makes them.
\<close>

definition fresh_spawn :: "thread_server \<Rightarrow> thread_server \<Rightarrow> bool" where
  "fresh_spawn sv sv' \<longleftrightarrow>
     (case m_phase sv' of
        M_spawn fd \<Rightarrow> m_phase sv = M_spawn fd \<or>
          (fd \<noteq> signal sv \<and> list_all (\<lambda>w. w_phase w = Done \<or> w_fd w \<noteq> fd) (workers sv))
      | _ \<Rightarrow> True)"

inductive thread_step ::
  "'w kernel \<Rightarrow> thread_server \<times> 'w os \<Rightarrow> thread \<Rightarrow> thread_server \<times> 'w os \<Rightarrow> bool"
  for K :: "'w kernel" where
  main: "main_step K sv s = (sv', s') \<Longrightarrow> fresh_spawn sv sv' \<Longrightarrow>
    thread_step K (sv, s) Main (sv', s')"
| worker: "i < length (workers sv) \<Longrightarrow> \<not> cannot_start (cfg sv) (workers sv ! i) \<Longrightarrow>
    worker_step K i sv s = (sv', s') \<Longrightarrow> thread_step K (sv, s) (Worker i) (sv', s')"

inductive_cases thread_stepE: "thread_step K (sv, s) t (sv', s')"

inductive thread_reach :: "'w kernel \<Rightarrow> thread_server \<Rightarrow> 'w os \<Rightarrow> bool"
  for K :: "'w kernel" where
  started: "start K (ThreadServer_init c) error s = ((True, error'), sv, s') \<Longrightarrow>
    thread_reach K sv (s'\<lparr>trace := []\<rparr>)"
| stepped: "thread_reach K sv s \<Longrightarrow> thread_step K (sv, s) t (sv', s') \<Longrightarrow> thread_reach K sv' s'"

subsection \<open>The invariant\<close>

text \<open>
  Counters: what a counter will be once every update that is due has been made.
\<close>

fun counter_of :: "counter \<Rightarrow> Stats \<Rightarrow> 64 word" where
  "counter_of Accepted st = accepted st"
| "counter_of Closed st = closed st"
| "counter_of Requests st = requests st"
| "counter_of Bytes st = bytes st"
| "counter_of Read_calls st = read_calls st"
| "counter_of Write_calls st = write_calls st"
| "counter_of Wait_calls st = wait_calls st"
| "counter_of Threads_spawned st = threads_spawned st"
| "counter_of Syscalls st = syscalls st"

definition due :: "counter \<Rightarrow> todo \<Rightarrow> 64 word" where
  "due c ts = sum_list (map (\<lambda>(c', k). if c' = c then k else 0) ts)"

definition total :: "counter \<Rightarrow> thread_server \<Rightarrow> 64 word" where
  "total c sv = counter_of c (stats sv) + due c (m_todo sv) +
     sum_list (map (\<lambda>w. due c (w_todo w)) (workers sv))"

lemma due_simps [simp]:
  "due c [] = 0" "due c ((c', k) # ts) = (if c' = c then k else 0) + due c ts"
  "due c (ts @ ts') = due c ts + due c ts'"
  by (simp_all add: due_def)

lemma counter_of_bump [simp]:
  "counter_of c (bump_counter (c', k) st) = counter_of c st + (if c' = c then k else 0)"
  by (cases c'; cases c) simp_all

lemma sum_list_update_add:
  fixes f :: "'a \<Rightarrow> 'b::comm_monoid_add"
  shows "i < length xs \<Longrightarrow>
    sum_list (map f (xs[i := x])) + f (xs ! i) = sum_list (map f xs) + f x"
proof (induction xs arbitrary: i)
  case Nil
  then show ?case by simp
next
  case (Cons y ys)
  then show ?case by (cases i) (simp_all add: ac_simps)
qed

lemma sum_list_update_group:
  fixes f :: "'a \<Rightarrow> 'b::ab_group_add"
  shows "i < length xs \<Longrightarrow>
    sum_list (map f (xs[i := x])) = sum_list (map f xs) + f x - f (xs ! i)"
  using sum_list_update_add [of i xs f x] by (simp add: algebra_simps)

text \<open>Connections.\<close>

definition live :: "worker \<Rightarrow> bool" where
  "live w \<longleftrightarrow> w_phase w \<noteq> Done"

definition finished :: "worker \<Rightarrow> bool" where
  "finished w \<longleftrightarrow> w_phase w = Closing \<or> w_phase w = Done"

definition rest :: "worker \<Rightarrow> string" where
  "rest w = (case w_phase w of Writing d k \<Rightarrow> drop k d | _ \<Rightarrow> [])"

fun spawning :: "main_phase \<Rightarrow> int list" where
  "spawning (M_spawn fd) = [fd]"
| "spawning _ = []"

definition counts_ok :: "thread_server \<Rightarrow> bool" where
  "counts_ok sv \<longleftrightarrow>
     total Accepted sv = of_nat (length (workers sv) + length (spawning (m_phase sv))) \<and>
     total Threads_spawned sv = total Accepted sv \<and>
     total Closed sv = of_nat (length (filter finished (workers sv))) \<and>
     total Syscalls sv = total Read_calls sv + total Write_calls sv + total Wait_calls sv"

definition joins_ok :: "thread_server \<Rightarrow> bool" where
  "joins_ok sv \<longleftrightarrow>
     (\<forall>w \<in> set (workers sv). w_phase w = Done \<longrightarrow> w_todo w = []) \<and>
     (case m_phase sv of
        M_join i \<Rightarrow> \<not> running sv \<and> m_todo sv = [] \<and> i \<le> length (workers sv) \<and>
          (\<forall>j < i. w_phase (workers sv ! j) = Done)
      | M_end \<Rightarrow> \<not> running sv \<and> m_todo sv = [] \<and> (\<forall>w \<in> set (workers sv). w_phase w = Done)
      | _ \<Rightarrow> True)"

text \<open>The descriptors that threads hold, with multiplicity.\<close>

definition holds :: "worker list \<Rightarrow> int multiset" where
  "holds ws = sum_list (map (\<lambda>w. if live w then {#w_fd w#} else {#}) ws)"

definition owners :: "thread_server \<Rightarrow> int multiset" where
  "owners sv = holds (workers sv) + mset (spawning (m_phase sv))"

definition owners_ok :: "thread_server \<Rightarrow> bool" where
  "owners_ok sv \<longleftrightarrow>
     (\<forall>fd. count (owners sv) fd \<le> 1) \<and> (\<forall>fd \<in># owners sv. 0 \<le> fd \<and> fd \<noteq> signal sv)"

definition echo_ok :: "thread_server \<Rightarrow> event list \<Rightarrow> bool" where
  "echo_ok sv tr \<longleftrightarrow> (\<exists>p. echo_run (signal sv) tr idle = Some p \<and>
     (\<forall>fd. fd \<notin># holds (workers sv) \<longrightarrow> p fd = []) \<and>
     (\<forall>w \<in> set (workers sv). live w \<longrightarrow> w_phase w \<noteq> Closing \<longrightarrow> p (w_fd w) = rest w))"

definition handles_ok :: "thread_server \<Rightarrow> event list \<Rightarrow> bool" where
  "handles_ok sv tr \<longleftrightarrow> mset (opens tr) = mset (closes tr) + owners sv"

definition tinv :: "thread_server \<Rightarrow> event list \<Rightarrow> bool" where
  "tinv sv tr \<longleftrightarrow> counts_ok sv \<and> joins_ok sv \<and> owners_ok sv \<and> echo_ok sv tr \<and> handles_ok sv tr"

text \<open>What one operation of a worker does.\<close>

lemma serve_op_effect:
  assumes run: "serve_op K len go w s = (w', s')" and todo: "w_todo w = []"
    and fd: "0 \<le> w_fd w" "w_fd w \<noteq> sig"
    and p: "live w \<Longrightarrow> w_phase w \<noteq> Closing \<Longrightarrow> p (w_fd w) = rest w"
  shows "\<exists>evs p'. extends evs s s' \<and> echo_run sig evs p = Some p' \<and>
    (\<forall>g. g \<noteq> w_fd w \<longrightarrow> p' g = p g) \<and> w_fd w' = w_fd w \<and>
    (live w' \<longrightarrow> w_phase w' \<noteq> Closing \<longrightarrow> p' (w_fd w) = rest w') \<and>
    (live w \<longrightarrow> \<not> live w' \<longrightarrow> p' (w_fd w) = []) \<and> (\<not> live w \<longrightarrow> w' = w \<and> p' = p) \<and>
    opens evs = [] \<and> closes evs = (if live w \<and> \<not> live w' then [w_fd w] else [])"
proof (cases "w_phase w")
  case Starting
  with run p show ?thesis
    by (intro exI [of _ "[]"] exI [of _ p]) (auto simp: live_def rest_def)
next
  case Check
  with run p show ?thesis
    by (intro exI [of _ "[]"] exI [of _ p]) (auto simp: live_def rest_def split: if_splits)
next
  case Reading
  obtain n buf s1 where rd: "sys_read K (w_fd w) len s = ((n, buf), s1)" by (metis surj_pair)
  from sys_read_extends [OF rd] obtain x where tr: "extends [E_read (w_fd w) len x] s s1"
    "(n, buf) = filled x" by blast
  have "p (w_fd w) = []" using p Reading by (simp add: live_def rest_def)
  with Reading run rd tr fd show ?thesis
    by (intro exI [of _ "[E_read (w_fd w) len x]"] exI [of _ "p(w_fd w := buf)"])
      (auto simp: live_def rest_def filled_def Let_def fun_upd_idem split: sum.splits if_splits)
next
  case (Writing d k)
  then have rest: "p (w_fd w) = drop k d" using p by (simp add: live_def rest_def)
  show ?thesis
  proof (cases "k < length d")
    case False
    with run Writing rest show ?thesis
      by (intro exI [of _ "[]"] exI [of _ p]) (auto simp: live_def rest_def)
  next
    case True
    obtain n s1 where wr: "sys_write K (w_fd w) (drop k d) s = (n, s1)" by (metis surj_pair)
    from sys_write_extends [OF wr] obtain x where tr: "extends [E_write (w_fd w) (drop k d) x] s s1"
      "n = (case x of Inl _ \<Rightarrow> -1 | Inr k \<Rightarrow> int k)" by blast
    with True Writing run wr rest show ?thesis
      by (intro exI [of _ "[E_write (w_fd w) (drop k d) x]"]
          exI [of _ "p(w_fd w := drop (k + nat (max 0 n)) d)"])
        (auto simp: live_def rest_def Let_def add.commute fun_upd_idem split: sum.splits if_splits)
  qed
next
  case Closing
  obtain r w1 where "Socket_destroy K (w_fd w) s = finish w1 r (E_call (Sys_close (w_fd w)) r) s"
    using Socket_destroy_eq [OF fd(1), of K s] by blast
  with Closing run have "s' = finish w1 r (E_call (Sys_close (w_fd w)) r) s"
    "w' = w\<lparr>w_phase := Done\<rparr>" by simp_all
  with Closing show ?thesis
    by (intro exI [of _ "[E_call (Sys_close (w_fd w)) r]"] exI [of _ "p(w_fd w := [])"])
      (auto simp: live_def extends_def)
next
  case Done
  with run show ?thesis by (intro exI [of _ "[]"] exI [of _ p]) (auto simp: live_def)
qed

lemma serve_op_counts:
  assumes "serve_op K len go w s = (w', s')" and "w_todo w = []"
  shows "due Accepted (w_todo w') = 0 \<and> due Threads_spawned (w_todo w') = 0 \<and>
    due Syscalls (w_todo w') = due Read_calls (w_todo w') + due Write_calls (w_todo w') +
      due Wait_calls (w_todo w') \<and>
    (finished w \<longrightarrow> finished w') \<and>
    due Closed (w_todo w') = (if finished w' \<and> \<not> finished w then 1 else 0) \<and>
    (w_phase w' = Done \<longrightarrow> w_todo w' = [])"
  using assms
  by (cases "w_phase w") (auto simp: finished_def Let_def split: prod.splits if_splits)

lemma in_holds: "w \<in> set ws \<Longrightarrow> live w \<Longrightarrow> w_fd w \<in># holds ws"
  by (induction ws) (auto simp: holds_def)

lemma not_held: "list_all (\<lambda>w. w_phase w = Done \<or> w_fd w \<noteq> fd) ws \<Longrightarrow> fd \<notin># holds ws"
  by (induction ws) (auto simp: holds_def live_def)

lemma holds_update:
  "i < length ws \<Longrightarrow> holds (ws[i := w]) + (if live (ws ! i) then {#w_fd (ws ! i)#} else {#}) =
    holds ws + (if live w then {#w_fd w#} else {#})"
  unfolding holds_def by (rule sum_list_update_add)

lemma holds_same:
  assumes "i < length ws" and "live w = live (ws ! i)" "w_fd w = w_fd (ws ! i)"
  shows "holds (ws[i := w]) = holds ws"
  using holds_update [OF assms(1), of w] assms(2,3) by (auto split: if_splits)

lemma holds_all_done: "\<forall>w \<in> set ws. w_phase w = Done \<Longrightarrow> holds ws = {#}"
  by (induction ws) (auto simp: holds_def live_def)

text \<open>Two workers never hold the same descriptor.\<close>

lemma owners_distinct:
  assumes ok: "owners_ok sv" and i: "i < length (workers sv)" "live (workers sv ! i)"
    and j: "j < length (workers sv)" "live (workers sv ! j)" "j \<noteq> i"
  shows "w_fd (workers sv ! j) \<noteq> w_fd (workers sv ! i)"
proof
  assume eq: "w_fd (workers sv ! j) = w_fd (workers sv ! i)"
  let ?fd = "w_fd (workers sv ! i)" and ?d = "(workers sv ! i)\<lparr>w_phase := Done\<rparr>"
  have "holds ((workers sv)[i := ?d]) + {#?fd#} = holds (workers sv)"
    using holds_update [OF i(1), of ?d] i(2) by (simp add: live_def)
  then have "count (holds (workers sv)) ?fd = count (holds ((workers sv)[i := ?d])) ?fd + 1"
    by (metis count_add_mset add_mset_add_single Suc_eq_plus1)
  moreover have "workers sv ! j \<in> set ((workers sv)[i := ?d])"
    using j by (metis length_list_update nth_list_update_neq nth_mem)
  from in_holds [OF this j(2)] eq have "1 \<le> count (holds ((workers sv)[i := ?d])) ?fd"
    by (simp add: Suc_le_eq)
  moreover have "count (owners sv) ?fd =
      count (holds (workers sv)) ?fd + count (mset (spawning (m_phase sv))) ?fd"
    by (simp add: owners_def)
  ultimately have "2 \<le> count (owners sv) ?fd" by linarith
  with ok show False by (auto simp: owners_ok_def dest: spec [of _ ?fd])
qed

lemma length_filter_update:
  "i < length xs \<Longrightarrow> length (filter P (xs[i := x])) + (if P (xs ! i) then 1 else 0) =
    length (filter P xs) + (if P x then 1 else 0)"
proof (induction xs arbitrary: i)
  case Nil
  then show ?case by simp
next
  case (Cons y ys)
  then show ?case by (cases i) auto
qed

text \<open>Counters under the update of one worker.\<close>

lemma total_update:
  assumes "i < length (workers sv)"
  shows "total c (sv\<lparr>workers := (workers sv)[i := w]\<rparr>) =
    total c sv + due c (w_todo w) - due c (w_todo (workers sv ! i))"
  using sum_list_update_group [OF assms, of "\<lambda>w. due c (w_todo w)" w]
  by (simp add: total_def algebra_simps)

lemma total_stats:
  "total c (sv\<lparr>stats := bump_counter (c', k) (stats sv)\<rparr>) = total c sv + (if c' = c then k else 0)"
  by (simp add: total_def)

text \<open>A worker that has not returned may change.\<close>

lemma joins_update:
  assumes ok: "joins_ok sv" and i: "i < length (workers sv)" "w_phase (workers sv ! i) \<noteq> Done"
    and w: "w_phase w = Done \<longrightarrow> w_todo w = []"
  shows "joins_ok (sv\<lparr>workers := (workers sv)[i := w]\<rparr>)"
proof -
  have sub: "\<forall>x \<in> set ((workers sv)[i := w]). x = w \<or> x \<in> set (workers sv)"
    using set_update_subset_insert [of "workers sv" i w] by blast
  then have "\<forall>x \<in> set ((workers sv)[i := w]). w_phase x = Done \<longrightarrow> w_todo x = []"
    using ok w by (auto simp: joins_ok_def)
  moreover have "m_phase sv \<noteq> M_end"
    using ok i by (auto simp: joins_ok_def)
  moreover have "w_phase ((workers sv)[i := w] ! j) = Done" if "m_phase sv = M_join k" "j < k" for j k
    using ok i that by (auto simp: joins_ok_def nth_list_update)
  ultimately show ?thesis
    using ok by (auto simp: joins_ok_def split: main_phase.splits)
qed

lemma joins_stats: "joins_ok (sv\<lparr>stats := st\<rparr>) = joins_ok sv"
  by (simp add: joins_ok_def split: main_phase.split)

text \<open>A worker makes a counter update that is due.\<close>

lemma worker_todo_inv:
  assumes inv: "tinv sv tr" and i: "i < length (workers sv)" and todo: "w_todo (workers sv ! i) = t # ts"
  shows "tinv (sv\<lparr>workers := (workers sv)[i := (workers sv ! i)\<lparr>w_todo := ts\<rparr>],
    stats := bump_counter t (stats sv)\<rparr>) tr"
proof -
  let ?w = "workers sv ! i" and ?w' = "(workers sv ! i)\<lparr>w_todo := ts\<rparr>"
  let ?ws = "(workers sv)[i := ?w']"
  let ?sv = "sv\<lparr>workers := ?ws, stats := bump_counter t (stats sv)\<rparr>"
  obtain c' k where t: "t = (c', k)" by (cases t)
  have same: "live ?w' = live ?w" "finished ?w' = finished ?w" "rest ?w' = rest ?w"
    by (simp_all add: live_def finished_def rest_def)
  have total: "total c ?sv = total c sv" for c
    using total_update [OF i, of c ?w'] total_stats [where sv = "sv\<lparr>workers := ?ws\<rparr>"] todo t by simp
  have holds: "holds ?ws = holds (workers sv)"
    using i same(1) by (rule holds_same) simp
  have w: "?w \<in> set (workers sv)" using i by simp
  have sub: "x \<in> set ?ws \<Longrightarrow> x = ?w' \<or> x \<in> set (workers sv)" for x
    using set_update_subset_insert [of "workers sv" i ?w'] by blast
  have "length (filter finished ?ws) = length (filter finished (workers sv))"
    using length_filter_update [OF i, of finished ?w'] same(2) by (simp split: if_splits)
  then have "counts_ok ?sv" using inv by (simp add: tinv_def counts_ok_def total)
  moreover have "w_phase ?w \<noteq> Done" using inv todo w by (auto simp: tinv_def joins_ok_def)
  then have "joins_ok ?sv"
    using joins_update [of sv i ?w'] joins_stats [where sv = "sv\<lparr>workers := ?ws\<rparr>"] inv i
    by (simp add: tinv_def)
  moreover have "owners_ok ?sv" "handles_ok ?sv tr"
    using inv by (simp_all add: tinv_def owners_ok_def owners_def handles_ok_def holds)
  moreover have "echo_ok ?sv tr"
  proof -
    from inv obtain p where p: "echo_run (signal sv) tr idle = Some p"
      "\<forall>fd. fd \<notin># holds (workers sv) \<longrightarrow> p fd = []"
      "\<forall>w \<in> set (workers sv). live w \<longrightarrow> w_phase w \<noteq> Closing \<longrightarrow> p (w_fd w) = rest w"
      by (auto simp: tinv_def echo_ok_def)
    have "\<forall>w \<in> set ?ws. live w \<longrightarrow> w_phase w \<noteq> Closing \<longrightarrow> p (w_fd w) = rest w"
      using p(3) sub w same by fastforce
    with p(1,2) show ?thesis by (auto simp: echo_ok_def holds)
  qed
  ultimately show ?thesis by (simp add: tinv_def)
qed

text \<open>A worker makes its next operation.\<close>

lemma counts_update:
  assumes ok: "counts_ok sv" and i: "i < length (workers sv)" and todo: "w_todo (workers sv ! i) = []"
    and due: "due Accepted (w_todo w') = 0" "due Threads_spawned (w_todo w') = 0"
      "due Syscalls (w_todo w') = due Read_calls (w_todo w') + due Write_calls (w_todo w') +
        due Wait_calls (w_todo w')"
    and fin: "length (filter finished ((workers sv)[i := w'])) = length (filter finished (workers sv)) + n"
      "due Closed (w_todo w') = of_nat n"
  shows "counts_ok (sv\<lparr>workers := (workers sv)[i := w']\<rparr>)"
proof -
  have tot: "total c (sv\<lparr>workers := (workers sv)[i := w']\<rparr>) = total c sv + due c (w_todo w')" for c
    using total_update [OF i, of c w'] todo by simp
  have "s + (r + w + t) = R + r + (W + w) + (T + t)" if "s = R + W + T" for s r w t R W T :: "64 word"
    using that by (simp add: ac_simps)
  with ok due(3) have "total Syscalls sv + due Syscalls (w_todo w') =
      total Read_calls sv + due Read_calls (w_todo w') + (total Write_calls sv + due Write_calls (w_todo w'))
      + (total Wait_calls sv + due Wait_calls (w_todo w'))"
    by (simp add: counts_ok_def)
  with ok due(1,2) fin show ?thesis by (simp add: counts_ok_def tot)
qed

lemma worker_op_inv:
  assumes inv: "tinv sv tr" and i: "i < length (workers sv)" and todo: "w_todo (workers sv ! i) = []"
    and run: "serve_op K len go (workers sv ! i) s = (w', s')"
  shows "\<exists>evs. extends evs s s' \<and> tinv (sv\<lparr>workers := (workers sv)[i := w']\<rparr>) (tr @ evs)"
proof (cases "live (workers sv ! i)")
  case False
  with run have "w' = workers sv ! i \<and> s' = s" by (auto simp: live_def)
  with inv show ?thesis by (intro exI [of _ "[]"]) simp
next
  case alive: True
  let ?w = "workers sv ! i"
  let ?sv = "sv\<lparr>workers := (workers sv)[i := w']\<rparr>"
  from inv obtain p where p: "echo_run (signal sv) tr idle = Some p"
    "\<forall>fd. fd \<notin># holds (workers sv) \<longrightarrow> p fd = []"
    "\<forall>w \<in> set (workers sv). live w \<longrightarrow> w_phase w \<noteq> Closing \<longrightarrow> p (w_fd w) = rest w"
    by (auto simp: tinv_def echo_ok_def)
  have w: "?w \<in> set (workers sv)" using i by simp
  have own: "w_fd ?w \<in># owners sv" using in_holds [OF w alive] by (simp add: owners_def)
  then have fd: "0 \<le> w_fd ?w" "w_fd ?w \<noteq> signal sv"
    using inv by (auto simp: tinv_def owners_ok_def)
  from serve_op_effect [OF run todo fd, of p] p(3) w alive obtain evs p' where
    ext: "extends evs s s'" and er: "echo_run (signal sv) evs p = Some p'"
    and others: "\<forall>g. g \<noteq> w_fd ?w \<longrightarrow> p' g = p g" and same: "w_fd w' = w_fd ?w"
    and mine: "live w' \<longrightarrow> w_phase w' \<noteq> Closing \<longrightarrow> p' (w_fd ?w) = rest w'"
      "\<not> live w' \<longrightarrow> p' (w_fd ?w) = []"
    and fds: "opens evs = []" "closes evs = (if \<not> live w' then [w_fd ?w] else [])"
    by auto
  note cnt = serve_op_counts [OF run todo]
  have holds: "holds ((workers sv)[i := w']) + {#w_fd ?w#} =
      holds (workers sv) + (if live w' then {#w_fd ?w#} else {#})"
    using holds_update [OF i, of w'] alive same by simp
  have "length (filter finished ((workers sv)[i := w'])) =
      length (filter finished (workers sv)) + (if finished w' \<and> \<not> finished ?w then 1 else 0)"
    using length_filter_update [OF i, of finished w'] cnt by (auto split: if_splits)
  then have "counts_ok ?sv"
    using counts_update [OF _ i todo, of w'] inv cnt by (simp add: tinv_def)
  moreover have "joins_ok ?sv"
    using inv i alive cnt by (intro joins_update) (simp_all add: tinv_def live_def)
  moreover have "owners ?sv + {#w_fd ?w#} = owners sv + (if live w' then {#w_fd ?w#} else {#})"
    using holds by (simp add: owners_def add.commute)
  then have own': "owners ?sv = (if live w' then owners sv else owners sv - {#w_fd ?w#})"
    by (auto split: if_splits) (metis add_mset_remove_trivial)
  then have "owners_ok ?sv"
    using inv by (auto simp: tinv_def owners_ok_def dest: in_diffD intro: le_trans [OF diff_le_self])
  moreover have "handles_ok ?sv (tr @ evs)"
    using inv own own' fds by (auto simp: tinv_def handles_ok_def)
  moreover have "echo_ok ?sv (tr @ evs)"
  proof -
    have run': "echo_run (signal sv) (tr @ evs) idle = Some p'"
      using p(1) er by (simp add: echo_run_append)
    have "p' g = []" if "g \<notin># holds ((workers sv)[i := w'])" for g
    proof (cases "g = w_fd ?w")
      case True
      have "w' \<in> set ((workers sv)[i := w'])" using i by (rule set_update_memI)
      with True that same have "\<not> live w'" using in_holds [of w' "(workers sv)[i := w']"] by auto
      with True mine(2) show ?thesis by simp
    next
      case False
      with arg_cong [OF holds, of "\<lambda>M. count M g"]
      have "count (holds ((workers sv)[i := w'])) g = count (holds (workers sv)) g"
        by (auto split: if_splits)
      with that have "g \<notin># holds (workers sv)" by (simp add: not_in_iff)
      with False others p(2) show ?thesis by simp
    qed
    moreover have "p' (w_fd x) = rest x"
      if x: "x \<in> set ((workers sv)[i := w'])" "live x" "w_phase x \<noteq> Closing" for x
    proof -
      from x(1) obtain j where j: "j < length (workers sv)" "x = (workers sv)[i := w'] ! j"
        by (auto simp: in_set_conv_nth)
      show ?thesis
      proof (cases "j = i")
        case True
        with j i mine(1) x same show ?thesis by simp
      next
        case False
        with j x have xj: "x = workers sv ! j" by simp
        with owners_distinct [of sv i j] inv i alive j(1) False x(2) others p(3) x(3) show ?thesis
          by (auto simp: tinv_def)
      qed
    qed
    ultimately show ?thesis using run' by (auto simp: echo_ok_def)
  qed
  ultimately show ?thesis using ext by (intro exI [of _ evs]) (simp add: tinv_def)
qed

text \<open>The main thread: steps that change no worker and open nothing.\<close>

lemma main_quiet_inv:
  assumes inv: "tinv sv tr"
    and same: "workers sv' = workers sv" "stats sv' = stats sv" "signal sv' = signal sv"
    and quiet: "\<And>p. echo_run (signal sv) evs p = Some p" "opens evs = []" "closes evs = []"
    and ph: "spawning (m_phase sv') = []" "spawning (m_phase sv) = []" and todo: "m_todo sv = []"
    and due: "due Accepted (m_todo sv') = 0" "due Threads_spawned (m_todo sv') = 0"
      "due Closed (m_todo sv') = 0" "due Syscalls (m_todo sv') = due Read_calls (m_todo sv') +
        due Write_calls (m_todo sv') + due Wait_calls (m_todo sv')"
    and joins: "joins_ok sv'"
  shows "tinv sv' (tr @ evs)"
proof -
  have tot: "total c sv' = total c sv + due c (m_todo sv')" for c
    by (simp add: total_def todo same ac_simps)
  have "s + (r + w + t) = R + r + (W + w) + (T + t)" if "s = R + W + T" for s r w t R W T :: "64 word"
    using that by (simp add: ac_simps)
  with inv due(4) have "total Syscalls sv + due Syscalls (m_todo sv') =
      total Read_calls sv + due Read_calls (m_todo sv') + (total Write_calls sv + due Write_calls (m_todo sv'))
      + (total Wait_calls sv + due Wait_calls (m_todo sv'))"
    by (simp add: tinv_def counts_ok_def)
  with inv due(1-3) ph have "counts_ok sv'" by (simp add: tinv_def counts_ok_def tot same)
  moreover have "owners sv' = owners sv" using ph by (simp add: owners_def same)
  ultimately show ?thesis
    using inv joins quiet
    by (auto simp: tinv_def owners_ok_def handles_ok_def echo_ok_def echo_run_append same)
qed

lemma joins_plain:
  "tinv sv tr \<Longrightarrow> workers sv' = workers sv \<Longrightarrow> m_phase sv' \<in> {M_loop, M_poll, M_drain, M_accept, M_returned} \<Longrightarrow>
    joins_ok sv' \<and> spawning (m_phase sv') = []"
  by (auto simp: tinv_def joins_ok_def)

lemma main_todo_inv:
  assumes inv: "tinv sv tr" and todo: "m_todo sv = t # ts"
  shows "tinv (sv\<lparr>m_todo := ts, stats := bump_counter t (stats sv)\<rparr>) tr"
proof -
  let ?sv = "sv\<lparr>m_todo := ts, stats := bump_counter t (stats sv)\<rparr>"
  obtain c' k where t: "t = (c', k)" by (cases t)
  have "total c ?sv = total c sv" for c
    using todo t by (simp add: total_def ac_simps)
  then have "counts_ok ?sv" using inv by (simp add: tinv_def counts_ok_def)
  moreover have "joins_ok ?sv"
    using inv todo by (auto simp: tinv_def joins_ok_def split: main_phase.splits)
  ultimately show ?thesis
    using inv by (simp add: tinv_def owners_ok_def owners_def handles_ok_def echo_ok_def)
qed

text \<open>An accept that got a connection.\<close>

lemma main_accept_inv:
  assumes inv: "tinv sv tr" and ph: "m_phase sv = M_accept" and todo: "m_todo sv = []"
    and fd: "c_int r = fd" "0 \<le> fd"
    and fresh: "fd \<noteq> signal sv" "list_all (\<lambda>w. w_phase w = Done \<or> w_fd w \<noteq> fd) (workers sv)"
  shows "tinv (sv\<lparr>m_phase := M_spawn fd, m_todo := [(Accepted, 1), (Threads_spawned, 1)]\<rparr>)
    (tr @ [E_call (Sys_accept4 l fl) r, E_call (Sys_setsockopt fd f) r'])"
proof -
  let ?sv = "sv\<lparr>m_phase := M_spawn fd, m_todo := [(Accepted, 1), (Threads_spawned, 1)]\<rparr>"
  have tot: "total c ?sv = total c sv + due c [(Accepted, 1), (Threads_spawned, 1)]" for c
    by (simp add: total_def todo ac_simps)
  have "counts_ok ?sv" using inv ph by (simp add: tinv_def counts_ok_def tot ac_simps)
  moreover have "joins_ok ?sv" using inv ph by (simp add: tinv_def joins_ok_def)
  moreover have own: "owners ?sv = owners sv + {#fd#}" using ph by (simp add: owners_def)
  have "fd \<notin># holds (workers sv)"
    using fresh(2) by (rule not_held)
  moreover have "handles_ok ?sv (tr @ [E_call (Sys_accept4 l fl) r, E_call (Sys_setsockopt fd f) r'])"
    using inv fd own by (simp add: tinv_def handles_ok_def only_valid_def)
  ultimately show ?thesis
    using inv fd fresh(1) own ph
    by (auto simp: tinv_def owners_ok_def owners_def echo_ok_def echo_run_append not_in_iff)
qed

text \<open>The worker of a new connection starts.\<close>

lemma main_spawn_inv:
  assumes inv: "tinv sv tr" and ph: "m_phase sv = M_spawn fd"
  shows "tinv (sv\<lparr>m_phase := M_loop, workers := workers sv @ [\<lparr>w_fd = fd, w_phase = Starting, w_todo = []\<rparr>]\<rparr>) tr"
proof -
  let ?ws = "workers sv @ [\<lparr>w_fd = fd, w_phase = Starting, w_todo = []\<rparr>]"
  let ?sv = "sv\<lparr>m_phase := M_loop, workers := ?ws\<rparr>"
  have "total c ?sv = total c sv" for c by (simp add: total_def)
  then have "counts_ok ?sv" using inv ph by (simp add: tinv_def counts_ok_def finished_def)
  moreover have "joins_ok ?sv" using inv ph by (simp add: tinv_def joins_ok_def)
  moreover have holds: "holds ?ws = holds (workers sv) + {#fd#}"
    by (simp add: holds_def live_def)
  then have own: "owners ?sv = owners sv" using ph by (simp add: owners_def)
  moreover have "fd \<notin># holds (workers sv)"
    using inv ph by (auto simp: tinv_def owners_ok_def owners_def not_in_iff dest: spec [of _ fd])
  then have "echo_ok ?sv tr"
    using inv holds by (auto simp: tinv_def echo_ok_def rest_def)
  ultimately show ?thesis
    using inv by (simp add: tinv_def owners_ok_def handles_ok_def)
qed

lemma main_op_inv:
  assumes inv: "tinv sv tr" and todo: "m_todo sv = []" and run: "main_op K sv s = (sv', s')"
    and fresh: "fresh_spawn sv sv'"
  shows "\<exists>evs. extends evs s s' \<and> tinv sv' (tr @ evs)"
proof (cases "m_phase sv")
  case M_loop
  with run have "s' = s" by (simp split: if_splits)
  moreover have "tinv sv' (tr @ [])"
    by (rule main_quiet_inv [OF inv])
      (use run M_loop todo joins_plain [OF inv, of sv'] in \<open>auto split: if_splits\<close>)
  ultimately show ?thesis by (intro exI [of _ "[]"]) simp
next
  case M_poll
  obtain n evs s1 where wt: "sys_wait K (-1) 2 s = ((n, evs), s1)" by (metis surj_pair)
  from sys_wait_extends [OF this] obtain x where "extends [E_wait (-1) 2 x] s s1" by blast
  moreover from run M_poll wt have same: "s' = s1" "workers sv' = workers sv" "stats sv' = stats sv"
    "signal sv' = signal sv" "m_todo sv' = [(Wait_calls, 1), (Syscalls, 1)]"
    "m_phase sv' \<in> {M_loop, M_returned, M_drain, M_accept}"
    by (auto simp: Let_def split: if_splits)
  moreover from this joins_plain [OF inv, of sv'] have "joins_ok sv'" "spawning (m_phase sv') = []"
    by blast+
  then have "tinv sv' (tr @ [E_wait (-1) 2 x])"
    using M_poll todo same by (intro main_quiet_inv [OF inv]) simp_all
  ultimately show ?thesis by blast
next
  case M_drain
  obtain n d s1 where rd: "sys_read K (signal sv) 128 s = ((n, d), s1)" by (metis surj_pair)
  from sys_read_extends [OF this] obtain x where "extends [E_read (signal sv) 128 x] s s1" by blast
  moreover from run M_drain rd todo have same: "s' = s1" "workers sv' = workers sv" "stats sv' = stats sv"
    "signal sv' = signal sv" "m_todo sv' = []" "m_phase sv' \<in> {M_drain, M_returned}"
    by (auto simp: Let_def split: if_splits)
  moreover from this joins_plain [OF inv, of sv'] have "joins_ok sv'" "spawning (m_phase sv') = []"
    by blast+
  then have "tinv sv' (tr @ [E_read (signal sv) 128 x])"
    using M_drain todo same by (intro main_quiet_inv [OF inv]) simp_all
  ultimately show ?thesis by blast
next
  case M_accept
  let ?acc = "Sys_accept4 (listener sv) [SOCK_CLOEXEC]"
  obtain fd s1 where ac: "call K ?acc s = (fd, s1)" by (metis surj_pair)
  from call_extends [OF this] obtain x where ext: "extends [E_call ?acc x] s s1" "fd = c_int x"
    by blast
  show ?thesis
  proof (cases "fd < 0")
    case True
    with run M_accept ac todo have sv': "s' = s1" "sv' = sv\<lparr>m_phase := M_loop\<rparr>" by auto
    then have "tinv sv' (tr @ [E_call ?acc x])"
      using M_accept todo joins_plain [OF inv, of sv'] ext(2) True
      by (intro main_quiet_inv [OF inv]) (auto simp: only_valid_def)
    with ext(1) sv' show ?thesis by blast
  next
    case False
    obtain b s2 where nd: "set_nodelay K fd s1 = (b, s2)" by (metis surj_pair)
    then obtain y where ext2: "extends [E_call (Sys_setsockopt fd TCP_NODELAY) y] s1 s2"
      by (auto simp: set_nodelay_def dest!: call_extends split: prod.splits)
    from False run M_accept ac nd have sv': "s' = s2"
      "sv' = sv\<lparr>m_phase := M_spawn fd, m_todo := [(Accepted, 1), (Threads_spawned, 1)]\<rparr>" by auto
    from fresh M_accept have
      new: "fd \<noteq> signal sv" "list_all (\<lambda>w. w_phase w = Done \<or> w_fd w \<noteq> fd) (workers sv)"
      by (simp_all add: fresh_spawn_def sv'(2))
    from main_accept_inv [OF inv M_accept todo ext(2) [symmetric] _ new, of "listener sv" "[SOCK_CLOEXEC]"
        TCP_NODELAY y] False extends_trans [OF ext(1) ext2]
    show ?thesis unfolding sv' by auto
  qed
next
  case (M_spawn fd)
  with run main_spawn_inv [OF inv, of fd] show ?thesis by (intro exI [of _ "[]"]) auto
next
  case M_returned
  with run have sv': "s' = s" "sv' = sv\<lparr>m_phase := M_join 0, running := False\<rparr>" by auto
  then have "tinv sv' (tr @ [])"
    using M_returned todo inv
    by (intro main_quiet_inv [OF inv]) (auto simp: tinv_def joins_ok_def)
  with sv' show ?thesis by (intro exI [of _ "[]"]) simp
next
  case (M_join i)
  with run have "s' = s" by (simp split: if_splits)
  moreover have "joins_ok sv'"
    using inv M_join run by (auto simp: tinv_def joins_ok_def less_Suc_eq all_set_conv_all_nth split: if_splits)
  moreover from run M_join todo have "workers sv' = workers sv" "stats sv' = stats sv"
    "signal sv' = signal sv" "m_todo sv' = []" "spawning (m_phase sv') = []"
    by (auto split: if_splits)
  ultimately have "tinv sv' (tr @ [])"
    using M_join todo by (intro main_quiet_inv [OF inv]) auto
  with \<open>s' = s\<close> show ?thesis by (intro exI [of _ "[]"]) simp
next
  case M_end
  with run inv show ?thesis by (intro exI [of _ "[]"]) simp
qed

lemma main_step_tinv:
  assumes "main_step K sv s = (sv', s')" and "fresh_spawn sv sv'" and inv: "tinv sv tr"
  shows "\<exists>evs. extends evs s s' \<and> tinv sv' (tr @ evs)"
proof (cases "m_todo sv")
  case Nil
  with assms main_op_inv [OF inv Nil] show ?thesis by (simp add: main_step_def)
next
  case (Cons t ts)
  with assms main_todo_inv [OF inv Cons] show ?thesis
    by (intro exI [of _ "[]"]) (auto simp: main_step_def)
qed

lemma worker_step_tinv:
  assumes i: "i < length (workers sv)" and run: "worker_step K i sv s = (sv', s')" and inv: "tinv sv tr"
  shows "\<exists>evs. extends evs s s' \<and> tinv sv' (tr @ evs)"
proof (cases "w_todo (workers sv ! i)")
  case Nil
  obtain w s1 where "serve_op K (buffer_size (cfg sv)) (running sv) (workers sv ! i) s = (w, s1)"
    by (metis surj_pair)
  with run Nil worker_op_inv [OF inv i Nil this] show ?thesis
    by (simp add: worker_step_def Let_def)
next
  case (Cons t ts)
  with run worker_todo_inv [OF inv i Cons] show ?thesis
    by (intro exI [of _ "[]"]) (auto simp: worker_step_def Let_def)
qed

lemma step_tinv:
  assumes "thread_step K (sv, s) t (sv', s')" and "tinv sv tr"
  shows "\<exists>evs. extends evs s s' \<and> tinv sv' (tr @ evs)"
  using assms by (auto elim!: thread_stepE dest: main_step_tinv worker_step_tinv)

lemma start_tinv:
  assumes "start K (ThreadServer_init c) error s = ((True, error'), sv, s')"
  shows "tinv sv []"
proof -
  have "tinv ((ThreadServer_init c)\<lparr>listener := l, signal := g\<rparr>) []" for l g
    by (simp add: ThreadServer_init_def tinv_def counts_ok_def total_def joins_ok_def owners_ok_def
        owners_def holds_def echo_ok_def handles_ok_def Stats_init_def)
  with assms show ?thesis
    by (auto simp: start_def Let_def split: prod.splits if_splits)
qed

lemma reach_tinv: "thread_reach K sv s \<Longrightarrow> tinv sv (trace s)"
proof (induction rule: thread_reach.induct)
  case (started c error s error' sv s')
  then show ?case using start_tinv by fastforce
next
  case (stepped sv s t sv' s')
  from step_tinv [OF stepped.hyps(2) stepped.IH] show ?case by (auto simp: extends_def)
qed

text \<open>A schedule names the thread that runs next; for the examples.\<close>

fun run_schedule ::
  "'w kernel \<Rightarrow> thread list \<Rightarrow> thread_server \<times> 'w os \<Rightarrow> (thread_server \<times> 'w os) option" where
  "run_schedule K [] (sv, s) = Some (sv, s)"
| "run_schedule K (Main # ts) (sv, s) =
     (let (sv', s') = main_step K sv s in
      if fresh_spawn sv sv' then run_schedule K ts (sv', s') else None)"
| "run_schedule K (Worker i # ts) (sv, s) =
     (if i < length (workers sv) \<and> \<not> cannot_start (cfg sv) (workers sv ! i)
      then run_schedule K ts (worker_step K i sv s) else None)"

lemma run_schedule_reach:
  "thread_reach K sv s \<Longrightarrow> run_schedule K ts (sv, s) = Some (sv', s') \<Longrightarrow> thread_reach K sv' s'"
proof (induction K ts "(sv, s)" arbitrary: sv s rule: run_schedule.induct)
  case (1 K sv s)
  then show ?case by simp
next
  case (2 K ts sv s)
  obtain sv1 s1 where st: "main_step K sv s = (sv1, s1)" by (metis surj_pair)
  with "2.prems" have "fresh_spawn sv sv1" "run_schedule K ts (sv1, s1) = Some (sv', s')"
    by (auto split: if_splits)
  with "2.hyps" [OF st [symmetric] refl] "2.prems"(1) st show ?case
    by (blast intro: thread_reach.stepped thread_step.main)
next
  case (3 K i ts sv s)
  obtain sv1 s1 where st: "worker_step K i sv s = (sv1, s1)" by (metis surj_pair)
  with "3.prems" have "i < length (workers sv)" "\<not> cannot_start (cfg sv) (workers sv ! i)"
    "run_schedule K ts (sv1, s1) = Some (sv', s')" by (auto split: if_splits)
  with "3.hyps" [OF _ st] "3.prems"(1) st show ?case
    by (blast intro: thread_reach.stepped thread_step.worker)
qed

definition sample_script :: "answer list" where
  "sample_script = [A_int 3, A_int 0, A_int 0, A_int 0, A_int 0, A_int 4,
     A_events [(3, [POLLIN])], A_int 7, A_int 0, A_bytes ''ab'', A_int 1, A_int 1, A_bytes [],
     A_int 0, A_events [(4, [POLLIN])], A_fail EAGAIN]"

definition sample_schedule :: "thread list" where
  "sample_schedule =
     [Main, Main, Main, Main, Main, Main, Main, Main, Main, Worker 0, Worker 0, Worker 0, Worker 0, Worker
     0, Worker 0, Worker 0, Worker 0, Worker 0, Worker 0, Worker 0, Worker 0, Worker 0, Worker 0,
     Worker 0, Worker 0, Worker 0, Worker 0, Worker 0, Worker 0, Main, Main, Main, Main, Main,
     Worker 0, Worker 0, Worker 0, Worker 0, Worker 0, Worker 0, Main, Main, Main, Main, Main]"

definition sample_end :: "(thread_server \<times> (answer list) os) option" where
  "sample_end =
     (case start scripted (ThreadServer_init Config_init) None (fresh_os sample_script) of
        ((ok, error), sv, s) \<Rightarrow>
          if ok then run_schedule scripted sample_schedule (sv, s\<lparr>trace := []\<rparr>) else None)"

lemmas sample_simps = main_step_def worker_step_def fresh_spawn_def cannot_start_def
  vector_length_ok_def run_simps set_nodelay_def reported_def bump_def Socket_destroy_def Socket_reset_def
  only_valid_def

lemma sample_end_phase:
  "case sample_end of None \<Rightarrow> False
   | Some (sv, s) \<Rightarrow> m_phase sv = M_end \<and> accepted (stats sv) = 1 \<and> closes (trace s) = [7]"
  unfolding sample_end_def sample_script_def sample_schedule_def ThreadServer_init_def Stats_init_def
    Config_init_def
  apply (simp add: start_def listen_tcp_def Socket_valid_def Socket_reset_def signal_fd_def run_simps)
  apply (simp add: sample_simps)
  done

lemma sample_threads:
  "\<exists>sv s. thread_reach scripted sv s \<and> m_phase sv = M_end \<and> accepted (stats sv) = 1 \<and>
    closes (trace s) = [7]"
proof -
  obtain sv s where e: "sample_end = Some (sv, s)"
    and facts: "m_phase sv = M_end" "accepted (stats sv) = 1" "closes (trace s) = [7]"
    using sample_end_phase by (auto split: option.splits)
  obtain ok error sv0 s0 where
    st: "start scripted (ThreadServer_init Config_init) None (fresh_os sample_script) = ((ok, error), sv0, s0)"
    by (metis surj_pair)
  with e have ok: "ok" "run_schedule scripted sample_schedule (sv0, s0\<lparr>trace := []\<rparr>) = Some (sv, s)"
    by (auto simp: sample_end_def split: if_splits)
  with st have "thread_reach scripted sv0 (s0\<lparr>trace := []\<rparr>)"
    by (auto intro: thread_reach.started)
  from run_schedule_reach [OF this ok(2)] facts show ?thesis by blast
qed

subsection \<open>What every interleaving satisfies\<close>

text \<open>C7: When the thread-per-connection server is gone, everything is settled, in every
  interleaving of the main thread and the workers: all workers have returned; the counters of
  accepted and closed connections and of threads spawned all equal the number of workers; the
  count of kernel entries is the number of reads, writes and polls; and every descriptor that
  was accepted has been closed exactly once.\<close>

theorem threads_settled:
  assumes "thread_reach K sv s" and "m_phase sv = M_end"
  shows "(\<forall>w \<in> set (workers sv). w_phase w = Done) \<and>
    accepted (stats sv) = of_nat (length (workers sv)) \<and>
    closed (stats sv) = accepted (stats sv) \<and> threads_spawned (stats sv) = accepted (stats sv) \<and>
    syscalls (stats sv) = read_calls (stats sv) + write_calls (stats sv) + wait_calls (stats sv) \<and>
    mset (opens (trace s)) = mset (closes (trace s))"
proof -
  have inv: "tinv sv (trace s)" using assms(1) by (rule reach_tinv)
  then have fin: "\<forall>w \<in> set (workers sv). w_phase w = Done \<and> w_todo w = []" "m_todo sv = []"
    using assms(2) by (auto simp: tinv_def joins_ok_def)
  have "map (\<lambda>w. due c (w_todo w)) (workers sv) = map (\<lambda>w. 0) (workers sv)" for c
    using fin(1) by simp
  then have tot: "total c sv = counter_of c (stats sv)" for c
    using fin(2) by (simp add: total_def sum_list_triv del: map_eq_conv)
  have "filter finished (workers sv) = workers sv"
    using fin(1) by (simp add: finished_def filter_id_conv)
  with inv assms(2) tot holds_all_done [of "workers sv"] fin(1) show ?thesis
    by (simp add: tinv_def counts_ok_def handles_ok_def owners_def)
qed

lemma threads_settled_witness:
  "\<exists>sv s. thread_reach scripted sv s \<and> m_phase sv = M_end \<and> closed (stats sv) = 1 \<and>
    mset (opens (trace s)) = {#7#}"
proof -
  from sample_threads obtain sv s where r: "thread_reach scripted sv s" "m_phase sv = M_end"
    and facts: "accepted (stats sv) = 1" "closes (trace s) = [7]" by blast
  from threads_settled [OF r] facts have "closed (stats sv) = 1" "mset (opens (trace s)) = {#7#}"
    by simp_all
  with r show ?thesis by blast
qed

text \<open>C5: The thread-per-connection server is an echo server in every interleaving: although the
  reads and writes of all workers are mixed in one trace, the echo monitor accepts it, so on
  every connection that is still open the bytes sent are a prefix of the bytes received, and a
  worker that is at its read has sent everything.\<close>

theorem threads_echo:
  assumes "thread_reach K sv s"
  shows "\<exists>p. echo_run (signal sv) (trace s) idle = Some p \<and>
    (\<forall>fd. fd \<noteq> signal sv \<longrightarrow> fd \<notin> set (closes (trace s)) \<longrightarrow>
      prefix (bytes_out fd (trace s)) (bytes_in fd (trace s))) \<and>
    (\<forall>w \<in> set (workers sv). w_phase w = Reading \<longrightarrow> p (w_fd w) = [])"
proof -
  from reach_tinv [OF assms] obtain p where
    run: "echo_run (signal sv) (trace s) idle = Some p" and
    p: "\<forall>w \<in> set (workers sv). live w \<longrightarrow> w_phase w \<noteq> Closing \<longrightarrow> p (w_fd w) = rest w"
    by (auto simp: tinv_def echo_ok_def)
  have "prefix (bytes_out fd (trace s)) (bytes_in fd (trace s))"
    if "fd \<noteq> signal sv" "fd \<notin> set (closes (trace s))" for fd
    using echo_run_balance [OF run that] by (simp add: prefix_def)
  with run p show ?thesis by (force simp: live_def rest_def)
qed

lemma threads_echo_witness:
  "\<exists>sv s p. thread_reach scripted sv s \<and> m_phase sv = M_end \<and>
    echo_run (signal sv) (trace s) idle = Some p"
proof -
  from sample_threads obtain sv s where r: "thread_reach scripted sv s" "m_phase sv = M_end" by blast
  from threads_echo [OF r(1)] r show ?thesis by blast
qed

text \<open>Executions in which one thread makes no step.\<close>

inductive steps_without :: "'w kernel \<Rightarrow> thread \<Rightarrow> thread_server \<times> 'w os \<Rightarrow> thread_server \<times> 'w os \<Rightarrow> bool"
  for K :: "'w kernel" and t :: thread and x :: "thread_server \<times> 'w os" where
  none: "steps_without K t x x"
| more: "steps_without K t x y \<Longrightarrow> thread_step K y u z \<Longrightarrow> u \<noteq> t \<Longrightarrow> steps_without K t x z"

lemma other_keeps_worker:
  assumes "thread_step K (sv, s) u (sv', s')" and "u \<noteq> Worker i" and "i < length (workers sv)"
  shows "i < length (workers sv') \<and> workers sv' ! i = workers sv ! i"
  using assms(1)
proof (rule thread_stepE)
  assume "main_step K sv s = (sv', s')"
  then show ?thesis
    using assms(3)
    by (auto simp: main_step_def nth_append Let_def
        split: list.splits main_phase.splits prod.splits if_splits)
next
  fix j
  assume "u = Worker j" "worker_step K j sv s = (sv', s')"
  then show ?thesis
    using assms(2,3) by (auto simp: worker_step_def Let_def split: list.splits prod.splits)
qed

lemma without_keeps:
  "steps_without K (Worker i) x y \<Longrightarrow> thread_reach K (fst x) (snd x) \<Longrightarrow>
    i < length (workers (fst x)) \<Longrightarrow>
    thread_reach K (fst y) (snd y) \<and> i < length (workers (fst y)) \<and>
    workers (fst y) ! i = workers (fst x) ! i"
proof (induction rule: steps_without.induct)
  case none
  then show ?case by simp
next
  case (more y u z)
  then have st: "thread_step K (fst y, snd y) u (fst z, snd z)" by simp
  from more have ih: "thread_reach K (fst y) (snd y)" "i < length (workers (fst y))"
    "workers (fst y) ! i = workers (fst x) ! i" by simp_all
  from thread_reach.stepped [OF ih(1) st] other_keeps_worker [OF st more.hyps(3) ih(2)] ih(3)
  show ?case by simp
qed

text \<open>C27: Shutdown waits for every client. \<open>running_\<close> is only looked at between two reads and the
  destructor joins every worker, so as long as one worker makes no step - it is blocked in the
  read of an idle connection, which nothing interrupts - no execution, whatever signals arrive
  and whatever the other threads do, gets past the destructor: the process does not end.\<close>

theorem shutdown_waits_for_worker:
  assumes "steps_without K (Worker i) (sv, s) (sv', s')" and "thread_reach K sv s"
    and "i < length (workers sv)" and "w_phase (workers sv ! i) = Reading"
  shows "m_phase sv' \<noteq> M_end \<and> w_phase (workers sv' ! i) = Reading"
proof -
  from without_keeps [OF assms(1)] assms(2,3)
  have "thread_reach K sv' s' \<and> i < length (workers sv') \<and> workers sv' ! i = workers sv ! i" by simp
  then have r: "tinv sv' (trace s')" "i < length (workers sv')" "w_phase (workers sv' ! i) = Reading"
    using assms(4) by (auto intro: reach_tinv)
  then show ?thesis by (auto simp: tinv_def joins_ok_def all_set_conv_all_nth)
qed

definition sample_idle :: "(thread_server \<times> (answer list) os) option" where
  "sample_idle =
     (case start scripted (ThreadServer_init Config_init) None (fresh_os sample_script) of
        ((ok, error), sv, s) \<Rightarrow>
          if ok then run_schedule scripted
            [Main, Main, Main, Main, Main, Main, Main, Main, Worker 0, Worker 0] (sv, s\<lparr>trace := []\<rparr>)
          else None)"

lemma sample_idle_phase:
  "case sample_idle of None \<Rightarrow> False | Some (sv, s) \<Rightarrow> map w_phase (workers sv) = [Reading]"
  unfolding sample_idle_def sample_script_def ThreadServer_init_def Stats_init_def Config_init_def
  apply (simp add: start_def listen_tcp_def Socket_valid_def Socket_reset_def signal_fd_def run_simps)
  apply (simp add: sample_simps)
  done

lemma shutdown_waits_for_worker_witness:
  "\<exists>sv s. thread_reach scripted sv s \<and> workers sv \<noteq> [] \<and>
    steps_without scripted (Worker 0) (sv, s) (sv, s) \<and> m_phase sv \<noteq> M_end"
proof -
  obtain sv s where e: "sample_idle = Some (sv, s)" and ph: "map w_phase (workers sv) = [Reading]"
    using sample_idle_phase by (auto split: option.splits)
  obtain ok error sv0 s0 where
    st: "start scripted (ThreadServer_init Config_init) None (fresh_os sample_script) = ((ok, error), sv0, s0)"
    by (metis surj_pair)
  with e have ok: "ok" "run_schedule scripted [Main, Main, Main, Main, Main, Main, Main, Main, Worker 0, Worker 0]
      (sv0, s0\<lparr>trace := []\<rparr>) = Some (sv, s)"
    by (auto simp: sample_idle_def split: if_splits)
  with st have "thread_reach scripted sv0 (s0\<lparr>trace := []\<rparr>)"
    by (auto intro: thread_reach.started)
  from run_schedule_reach [OF this ok(2)] have r: "thread_reach scripted sv s" .
  from ph have w: "0 < length (workers sv)" "w_phase (workers sv ! 0) = Reading"
    by (cases "workers sv"; simp)+
  have none: "steps_without scripted (Worker 0) (sv, s) (sv, s)" by (rule steps_without.none)
  from shutdown_waits_for_worker [OF none r w] r none w(1) show ?thesis by auto
qed

end
