(* ===== verification/Ev_Main_Threads.thy ===== *)
theory Ev_Main_Threads
  imports Ev_Main Ev_Threads
begin

section \<open>evserver: the program with the thread backend\<close>

text \<open>
  The thread-per-connection backend as a \<open>Server\<close> that \<open>main\<close> runs. \<open>run\<close> and the destructor of
  \<open>ThreadServer\<close> follow a schedule of the main thread and the workers (\<^theory_text>\<open>Schedule\<close>), whose steps are
  those of \<^theory_text>\<open>Ev_Threads\<close>; the schedule is a parameter, and what is proved holds for each. Where
  \<open>run\<close> has stopped in the schedule is part of the object, because the workers go on: \<open>main\<close> reads
  the counters and prints them before the destructor joins the workers.
\<close>

subsection \<open>The class\<close>

text \<open>
  The step of a thread. The exception of a worker, which it does not catch, ends the program;
  a thread that does not exist makes no step.
\<close>

fun server_step ::
  "'w kernel \<Rightarrow> thread \<Rightarrow> thread_server \<times> 'w os \<Rightarrow> (thread_server \<times> 'w os) cpp" where
  "server_step K Main (sv, s) = Inr (main_step K sv s)"
| "server_step K (Worker i) (sv, s) =
     (if i < length (workers sv) then
        if cannot_start (cfg sv) (workers sv ! i) then Inl Length_Error
        else Inr (worker_step K i sv s)
      else Inr (sv, s))"

text \<open>Returning from \<open>run\<close> is a step of its own: the workers may run until then.\<close>

definition can_return :: "thread_server \<Rightarrow> bool" where
  "can_return sv \<longleftrightarrow> m_phase sv = M_returned \<and> m_todo sv = []"

fun run_step ::
  "'w kernel \<Rightarrow> thread \<Rightarrow> (thread_server \<times> 'w os) \<times> bool \<Rightarrow> ((thread_server \<times> 'w os) \<times> bool) cpp" where
  "run_step K t (c, returned) =
     (if t = Main \<and> can_return (fst c) then Inr (c, True)
      else case server_step K t c of Inl e \<Rightarrow> Inl e | Inr c \<Rightarrow> Inr (c, returned))"

definition ThreadServer_run ::
  "'w kernel \<Rightarrow> (nat \<Rightarrow> thread) \<Rightarrow> nat \<times> thread_server \<Rightarrow> 'w os \<Rightarrow>
    ((nat \<times> thread_server) \<times> 'w os) cpp option" where
  "ThreadServer_run K sched v s =
     (case scheduled (run_step K) sched snd (fst v) ((snd v, s), False) of
        None \<Rightarrow> None
      | Some (Inl e) \<Rightarrow> Some (Inl e)
      | Some (Inr (n, (sv, s), _)) \<Rightarrow> Some (Inr ((n, sv), s)))"

text \<open>The destructor: the flag, the joins, and then the members in the reverse of their order.\<close>

definition ThreadServer_destroy ::
  "'w kernel \<Rightarrow> (nat \<Rightarrow> thread) \<Rightarrow> nat \<times> thread_server \<Rightarrow> 'w os \<Rightarrow> 'w os cpp option" where
  "ThreadServer_destroy K sched v s =
     (case scheduled (server_step K) sched (\<lambda>(sv, s). m_phase sv = M_end) (fst v)
         ((snd v)\<lparr>m_phase := M_returned\<rparr>, s) of
        None \<Rightarrow> None
      | Some (Inl e) \<Rightarrow> Some (Inl e)
      | Some (Inr (_, sv, s)) \<Rightarrow>
          Some (Inr (Socket_destroy K (listener sv) (Socket_destroy K (signal sv) s))))"

definition threads_class ::
  "'w kernel \<Rightarrow> (nat \<Rightarrow> thread) \<Rightarrow> (nat \<times> thread_server, 'w) server_class" where
  "threads_class K sched = \<lparr>sc_construct = (\<lambda>c. Inr (0, ThreadServer_init c)),
     sc_start = (\<lambda>v error s. let (r, sv, s) = Ev_Threads.start K (snd v) error s in (r, (fst v, sv), s)),
     sc_run = ThreadServer_run K sched, sc_stats = (\<lambda>v. snapshot (stats (snd v))),
     sc_destroy = ThreadServer_destroy K sched\<rparr>"

subsection \<open>What a step does, whatever the kernel answers\<close>

text \<open>The counter updates that a worker may have due: its close at most once, and no accept.\<close>

definition todo_ok :: "worker \<Rightarrow> bool" where
  "todo_ok w \<longleftrightarrow> list_all (\<lambda>(c, k). c \<noteq> Accepted \<and> c \<noteq> Threads_spawned) (w_todo w) \<and>
     (filter (\<lambda>(c, k). c = Closed) (w_todo w) = [] \<or>
      filter (\<lambda>(c, k). c = Closed) (w_todo w) = [(Closed, 1)] \<and> finished w)"

lemma serve_op_todo:
  "serve_op K len go w s = (w', s') \<Longrightarrow> w_todo w = [] \<Longrightarrow> todo_ok w'"
  by (cases "w_phase w") (auto simp: todo_ok_def finished_def Let_def split: prod.splits if_splits)

lemma serve_op_extends:
  assumes "serve_op K len go w s = (w', s')"
  shows "\<exists>evs. extends evs s s' \<and> opens evs = []"
proof (cases "w_phase w")
  case Reading
  obtain n buf s1 where rd: "sys_read K (w_fd w) len s = ((n, buf), s1)" by (metis surj_pair)
  with assms Reading have "s' = s1" by (auto simp: Let_def split: if_splits)
  with sys_read_extends [OF rd] show ?thesis by fastforce
next
  case (Writing d k)
  obtain n s1 where wr: "sys_write K (w_fd w) (drop k d) s = (n, s1)" by (metis surj_pair)
  with assms Writing have "s' = s1 \<or> s' = s" by (auto simp: Let_def split: if_splits)
  moreover from sys_write_extends [OF wr] obtain x where
    "extends [E_write (w_fd w) (drop k d) x] s s1" by blast
  ultimately show ?thesis by (auto intro: exI [of _ "[]"] exI [of _ "[E_write (w_fd w) (drop k d) x]"])
next
  case Closing
  with assms Socket_destroy_closed [of "w_fd w" s K] show ?thesis
    by (auto simp: opened_closed_def)
qed (use assms in \<open>auto intro!: exI [of _ "[]"] split: if_splits\<close>)

lemma todo_ok_tl: "todo_ok w \<Longrightarrow> w_todo w = t # ts \<Longrightarrow> todo_ok (w\<lparr>w_todo := ts\<rparr>)"
  by (auto simp: todo_ok_def finished_def split: if_splits prod.splits)

lemma worker_step_effect:
  assumes run: "worker_step K i sv s = (sv', s')" and i: "i < length (workers sv)"
    and todo: "list_all todo_ok (workers sv)"
  shows "\<exists>evs. extends evs s s' \<and> opens evs = [] \<and> listener sv' = listener sv \<and>
    signal sv' = signal sv \<and> m_phase sv' = m_phase sv \<and> m_todo sv' = m_todo sv \<and>
    length (workers sv') = length (workers sv) \<and> list_all todo_ok (workers sv')"
proof (cases "w_todo (workers sv ! i)")
  case Nil
  obtain w s1 where op: "serve_op K (buffer_size (cfg sv)) (running sv) (workers sv ! i) s = (w, s1)"
    by (metis surj_pair)
  with run Nil have "sv' = sv\<lparr>workers := (workers sv)[i := w]\<rparr>" "s' = s1"
    by (simp_all add: worker_step_def Let_def)
  with serve_op_extends [OF op] serve_op_todo [OF op Nil] todo show ?thesis
    by (auto simp: list_all_iff dest!: set_update_subset_insert [THEN subsetD])
next
  case (Cons t ts)
  with run have "sv' = sv\<lparr>workers := (workers sv)[i := (workers sv ! i)\<lparr>w_todo := ts\<rparr>],
      stats := bump_counter t (stats sv)\<rparr>" "s' = s" by (simp_all add: worker_step_def Let_def)
  moreover have "todo_ok ((workers sv ! i)\<lparr>w_todo := ts\<rparr>)"
    using todo i Cons by (intro todo_ok_tl) (auto simp: list_all_length)
  ultimately show ?thesis using todo
    by (auto simp: list_all_iff intro!: exI [of _ "[]"] dest!: set_update_subset_insert [THEN subsetD])
qed

definition conns :: "thread_server \<Rightarrow> nat" where
  "conns sv = length (workers sv) + length (spawning (m_phase sv))"

lemma main_op_effect:
  assumes run: "main_op K sv s = (sv', s')" and todo: "list_all todo_ok (workers sv)"
  shows "\<exists>evs. extends evs s s' \<and> conns sv' = conns sv + length (opens evs) \<and>
    listener sv' = listener sv \<and> signal sv' = signal sv \<and> list_all todo_ok (workers sv') \<and>
    (\<forall>fd. m_phase sv' = M_spawn fd \<longrightarrow> (\<exists>ev evs'. evs = ev # evs' \<and> fd \<in> set (opened_fd ev)))"
proof (cases "m_phase sv")
  case M_poll
  obtain n evs s1 where wt: "sys_wait K (-1) 2 s = ((n, evs), s1)" by (metis surj_pair)
  from sys_wait_extends [OF this] obtain x where "extends [E_wait (-1) 2 x] s s1" by blast
  with run M_poll wt todo show ?thesis
    by (intro exI [of _ "[E_wait (-1) 2 x]"]) (auto simp: Let_def conns_def split: if_splits)
next
  case M_drain
  obtain n d s1 where rd: "sys_read K (signal sv) 128 s = ((n, d), s1)" by (metis surj_pair)
  from sys_read_extends [OF this] obtain x where "extends [E_read (signal sv) 128 x] s s1" by blast
  with run M_drain rd todo show ?thesis
    by (intro exI [of _ "[E_read (signal sv) 128 x]"]) (auto simp: Let_def conns_def split: if_splits)
next
  case M_accept
  let ?acc = "Sys_accept4 (listener sv) [SOCK_CLOEXEC]"
  obtain fd s1 where ac: "call K ?acc s = (fd, s1)" by (metis surj_pair)
  from call_extends [OF this] obtain x where ext: "extends [E_call ?acc x] s s1" "fd = c_int x"
    by blast
  show ?thesis
  proof (cases "fd < 0")
    case True
    with run M_accept ac ext todo show ?thesis
      by (intro exI [of _ "[E_call ?acc x]"]) (auto simp: conns_def only_valid_def)
  next
    case False
    obtain b s2 where nd: "set_nodelay K fd s1 = (b, s2)" by (metis surj_pair)
    then obtain y where ext2: "extends [E_call (Sys_setsockopt fd TCP_NODELAY) y] s1 s2"
      by (auto simp: set_nodelay_def dest!: call_extends split: prod.splits)
    from False run M_accept ac nd ext todo extends_trans [OF ext(1) ext2] show ?thesis
      by (intro exI [of _ "[E_call ?acc x, E_call (Sys_setsockopt fd TCP_NODELAY) y]"])
        (auto simp: conns_def only_valid_def)
  qed
qed (use run todo in \<open>auto intro!: exI [of _ "[]"] simp: conns_def todo_ok_def split: if_splits\<close>)

lemma main_step_effect:
  assumes "main_step K sv s = (sv', s')" and "list_all todo_ok (workers sv)"
  shows "\<exists>evs. extends evs s s' \<and> conns sv' = conns sv + length (opens evs) \<and>
    listener sv' = listener sv \<and> signal sv' = signal sv \<and> list_all todo_ok (workers sv') \<and>
    (\<forall>fd. m_phase sv' = M_spawn fd \<longrightarrow> m_phase sv = M_spawn fd \<or>
      (\<exists>ev evs'. evs = ev # evs' \<and> fd \<in> set (opened_fd ev)))"
proof (cases "m_todo sv")
  case Nil
  with assms main_op_effect [of K sv s sv' s'] show ?thesis by (auto simp: main_step_def)
next
  case (Cons t ts)
  with assms show ?thesis by (intro exI [of _ "[]"]) (auto simp: main_step_def conns_def)
qed

subsection \<open>New descriptors\<close>

text \<open>
  What is documented of the kernel: a descriptor that a call returns was not open, which is to say
  that it had not been opened more often than closed (\<open>fds\<close> are those that were open before).
\<close>

definition not_open :: "int list \<Rightarrow> event list \<Rightarrow> int \<Rightarrow> bool" where
  "not_open fds evs fd \<longleftrightarrow> count_list (fds @ opens evs) fd \<le> count_list (closes evs) fd"

definition new_fds :: "int list \<Rightarrow> event list \<Rightarrow> bool" where
  "new_fds fds evs \<longleftrightarrow>
     (\<forall>i < length evs. list_all (not_open fds (take i evs)) (opened_fd (evs ! i)))"

lemma new_fds_prefix:
  assumes "new_fds fds (xs @ ys)"
  shows "new_fds fds xs"
  unfolding new_fds_def
proof (intro allI impI)
  fix i
  assume "i < length xs"
  with assms show "list_all (not_open fds (take i xs)) (opened_fd (xs ! i))"
    by (auto simp: new_fds_def nth_append dest!: spec [of _ i])
qed

lemma not_open_append:
  assumes "mset (fds @ opens xs) = mset (closes xs) + mset fds'"
  shows "not_open fds (xs @ ys) = not_open fds' ys"
proof
  fix fd
  have "count (mset fds) fd + count (mset (opens xs)) fd =
      count (mset (closes xs)) fd + count (mset fds') fd"
    using arg_cong [OF assms, of "\<lambda>M. count M fd"] by simp
  moreover have "(a + (b + m) \<le> c + n) = (d + m \<le> n)" if "a + b = c + d" for a b c d m n :: nat
    using that by arith
  ultimately show "not_open fds (xs @ ys) fd = not_open fds' ys fd" by (simp add: not_open_def count_mset [symmetric])
qed

lemma new_fds_suffix:
  assumes new: "new_fds fds (xs @ ys)" and bal: "mset (fds @ opens xs) = mset (closes xs) + mset fds'"
  shows "new_fds fds' ys"
  unfolding new_fds_def
proof (intro allI impI)
  fix i
  assume "i < length ys"
  with new show "list_all (not_open fds' (take i ys)) (opened_fd (ys ! i))"
    by (auto simp: new_fds_def not_open_append [OF bal] dest!: spec [of _ "length xs + i"])
qed

lemma new_fds_last:
  assumes "new_fds fds (xs @ ev # ys)" and "fd \<in> set (opened_fd ev)"
    and bal: "mset (opens xs) = mset (closes xs) + own"
  shows "fd \<notin> set fds \<and> fd \<notin># own"
proof -
  have "count (mset fds) fd + count (mset (opens xs)) fd \<le> count (mset (closes xs)) fd"
    using assms(1,2) by (auto simp: new_fds_def list_all_iff not_open_def count_mset [symmetric] dest!: spec [of _ "length xs"])
  then have "count (mset fds) fd = 0" "count own fd = 0" by (simp_all add: bal)
  then show ?thesis by (simp add: not_in_iff [symmetric])
qed

subsection \<open>What the calls are charged as\<close>

text \<open>
  The counter updates that each call of the run is followed by, in their order; a read of the
  signal descriptor is not counted. That of \<open>Closed\<close> is left out: it is due before the call.
\<close>

fun charged :: "int \<Rightarrow> event \<Rightarrow> todo" where
  "charged sig (E_wait fd n r) = [(Wait_calls, 1), (Syscalls, 1)]"
| "charged sig (E_read fd n r) =
     (if fd = sig then []
      else [(Read_calls, 1), (Syscalls, 1)] @ (case r of Inl e \<Rightarrow> []
        | Inr d \<Rightarrow> if d = [] then [] else [(Requests, 1), (Bytes, of_nat (length d))]))"
| "charged sig (E_write fd d r) = [(Write_calls, 1), (Syscalls, 1)]"
| "charged sig (E_call (Sys_accept4 l fl) r) =
     (if 0 \<le> c_int r then [(Accepted, 1), (Threads_spawned, 1)] else [])"
| "charged sig _ = []"

definition charges :: "int \<Rightarrow> event list \<Rightarrow> todo" where
  "charges sig evs = concat (map (charged sig) evs)"

lemma charges_simps [simp]:
  "charges sig [] = []" "charges sig (ev # evs) = charged sig ev @ charges sig evs"
  "charges sig (evs @ evs') = charges sig evs @ charges sig evs'"
  by (simp_all add: charges_def)

fun io_on :: "int \<Rightarrow> event \<Rightarrow> bool" where
  "io_on fd (E_read fd' n r) \<longleftrightarrow> fd' = fd"
| "io_on fd (E_write fd' d r) \<longleftrightarrow> fd' = fd"
| "io_on fd _ \<longleftrightarrow> False"

text \<open>A thread may be late with the last of the updates of one of its calls.\<close>

definition late :: "int \<Rightarrow> event list \<Rightarrow> int \<Rightarrow> todo \<Rightarrow> bool" where
  "late sig evs fd ts \<longleftrightarrow>
     ts = [] \<or> (\<exists>ev \<in> set evs. io_on fd ev \<and> suffix ts (charged sig ev))"

lemma late_append: "late sig evs fd ts \<Longrightarrow> late sig (evs @ evs') fd ts"
  by (auto simp: late_def)

lemma late_suffix: "late sig evs fd ts \<Longrightarrow> suffix ts' ts \<Longrightarrow> late sig evs fd ts'"
  by (auto simp: late_def intro: suffix_order.trans)

definition unclosed :: "todo \<Rightarrow> todo" where
  "unclosed ts = filter (\<lambda>(c, k). c \<noteq> Closed) ts"

lemma unclosed_simps [simp]:
  "unclosed [] = []" "unclosed (ts @ ts') = unclosed ts @ unclosed ts'"
  "unclosed ((c, k) # ts) = (if c = Closed then [] else [(c, k)]) @ unclosed ts"
  by (simp_all add: unclosed_def)

lemma due_unclosed: "c \<noteq> Closed \<Longrightarrow> due c (unclosed ts) = due c ts"
  by (induction ts) auto

lemma unclosed_suffix: "suffix (unclosed ts) (unclosed (t # ts))"
  by (cases t) (simp add: suffix_def)

text \<open>What makes \<open>run\<close> return: the signal descriptor was read, or a wait failed.\<close>

fun ends_run :: "int \<Rightarrow> event \<Rightarrow> bool" where
  "ends_run sig (E_read fd n r) \<longleftrightarrow> fd = sig"
| "ends_run sig (E_wait fd n r) \<longleftrightarrow> (\<exists>e. r = Inl e \<and> e \<noteq> EINTR)"
| "ends_run sig _ \<longleftrightarrow> False"

definition leaving :: "thread_server \<Rightarrow> bool" where
  "leaving sv \<longleftrightarrow> (case m_phase sv of M_returned \<Rightarrow> True | M_join _ \<Rightarrow> True | M_end \<Rightarrow> True | _ \<Rightarrow> False)"

text \<open>The counters are the charges of the calls, less what is still to be made; the connections
  are those that were accepted, in their order.\<close>

definition charged_ok :: "thread_server \<Rightarrow> event list \<Rightarrow> bool" where
  "charged_ok sv tr \<longleftrightarrow> (\<forall>c. c \<noteq> Closed \<longrightarrow> total c sv = due c (charges (signal sv) tr)) \<and>
     map w_fd (workers sv) @ spawning (m_phase sv) = opens tr \<and>
     (\<forall>w \<in> set (workers sv). late (signal sv) tr (w_fd w) (unclosed (w_todo w))) \<and>
     eagain (stats sv) = 0 \<and>
     (leaving sv \<or> \<not> running sv \<longrightarrow> list_ex (ends_run (signal sv)) tr)"

lemma eagain_bump [simp]: "eagain (bump_counter t st) = eagain st"
  by (cases t rule: bump_counter.cases [of "(t, st)" for t, simplified]; cases t; cases "fst t") auto

lemma serve_op_charged:
  assumes run: "serve_op K len go w s = (w', s')" and todo: "w_todo w = []"
    and fd: "0 \<le> w_fd w" "w_fd w \<noteq> sig" and ext: "extends evs s s'"
  shows "unclosed (w_todo w') = charges sig evs \<and> w_fd w' = w_fd w \<and> opens evs = [] \<and>
    late sig evs (w_fd w) (unclosed (w_todo w'))"
proof (cases "w_phase w")
  case Reading
  obtain n buf s1 where rd: "sys_read K (w_fd w) len s = ((n, buf), s1)" by (metis surj_pair)
  from sys_read_extends [OF rd] obtain x where tr: "extends [E_read (w_fd w) len x] s s1"
    "(n, buf) = filled x" by blast
  from run Reading rd have "s' = s1" by (auto simp: Let_def split: if_splits)
  with ext tr(1) have "evs = [E_read (w_fd w) len x]" by (simp add: extends_def)
  with Reading run rd tr fd todo show ?thesis
    by (cases x) (auto simp: filled_def Let_def late_def split: if_splits)
next
  case (Writing d k)
  show ?thesis
  proof (cases "k < length d")
    case False
    with run Writing ext todo show ?thesis by (auto simp: late_def extends_def)
  next
    case True
    obtain n s1 where wr: "sys_write K (w_fd w) (drop k d) s = (n, s1)" by (metis surj_pair)
    from sys_write_extends [OF wr] obtain x where tr: "extends [E_write (w_fd w) (drop k d) x] s s1"
      by blast
    from run Writing wr True have "s' = s1" by (auto simp: Let_def split: if_splits)
    with ext tr have "evs = [E_write (w_fd w) (drop k d) x]" by (simp add: extends_def)
    with True Writing run wr todo show ?thesis
      by (auto simp: Let_def late_def split: if_splits)
  qed
next
  case Closing
  obtain r w1 where "Socket_destroy K (w_fd w) s = finish w1 r (E_call (Sys_close (w_fd w)) r) s"
    using Socket_destroy_eq [OF fd(1), of K s] by blast
  with Closing run have s': "s' = finish w1 r (E_call (Sys_close (w_fd w)) r) s"
    "w' = w\<lparr>w_phase := Done\<rparr>" by simp_all
  with ext have "evs = [E_call (Sys_close (w_fd w)) r]" by (simp add: extends_def)
  with s'(2) todo show ?thesis by (simp add: late_def)
qed (use run todo ext in \<open>auto simp: extends_def late_def split: if_splits\<close>)

lemma worker_step_charged:
  assumes run: "worker_step K i sv s = (sv', s')" and i: "i < length (workers sv)"
    and ok: "charged_ok sv tr" and inv: "tinv sv tr" and ext: "extends evs s s'"
  shows "charged_ok sv' (tr @ evs)"
proof (cases "w_todo (workers sv ! i)")
  case Nil
  let ?w = "workers sv ! i"
  obtain w s1 where op: "serve_op K (buffer_size (cfg sv)) (running sv) ?w s = (w, s1)"
    by (metis surj_pair)
  with run Nil have sv': "sv' = sv\<lparr>workers := (workers sv)[i := w]\<rparr>" "s' = s1"
    by (simp_all add: worker_step_def Let_def)
  show ?thesis
  proof (cases "live ?w")
    case True
    have "w_fd ?w \<in># owners sv" using in_holds [of ?w "workers sv"] True i by (simp add: owners_def)
    then have fd: "0 \<le> w_fd ?w" "w_fd ?w \<noteq> signal sv"
      using inv by (auto simp: tinv_def owners_ok_def)
    from ext sv'(2) have "extends evs s s1" by simp
    from serve_op_charged [OF op Nil fd this] have
      c: "unclosed (w_todo w) = charges (signal sv) evs" "w_fd w = w_fd ?w" "opens evs = []"
        "late (signal sv) evs (w_fd ?w) (unclosed (w_todo w))" by blast+
    have "total c sv' = due c (charges (signal sv) (tr @ evs))" if "c \<noteq> Closed" for c
      using total_update [OF i, of c w] Nil ok that due_unclosed [OF that, of "w_todo w"]
      by (simp add: sv'(1) charged_ok_def c(1))
    moreover have "map w_fd ((workers sv)[i := w]) = map w_fd (workers sv)"
      using i c(2) by (simp add: map_update list_update_same_conv)
    moreover have "late (signal sv) (tr @ evs) (w_fd x) (unclosed (w_todo x))"
      if "x \<in> set ((workers sv)[i := w])" for x
    proof -
      from that have "x = w \<or> x \<in> set (workers sv)"
        using set_update_subset_insert [of "workers sv" i w] by blast
      with ok c(2,4) show ?thesis by (auto simp: charged_ok_def late_def)
    qed
    ultimately show ?thesis using ok c(3) by (auto simp: charged_ok_def sv'(1) leaving_def)
  next
    case False
    with op have "w = ?w" "s1 = s" by (auto simp: live_def)
    with ok ext sv' show ?thesis by (simp add: extends_def)
  qed
next
  case (Cons t ts)
  let ?w = "(workers sv ! i)\<lparr>w_todo := ts\<rparr>"
  let ?ws = "(workers sv)[i := ?w]"
  from Cons run have sv': "sv' = sv\<lparr>workers := ?ws, stats := bump_counter t (stats sv)\<rparr>" "s' = s"
    by (simp_all add: worker_step_def Let_def)
  with ext have evs: "evs = []" by (simp add: extends_def)
  obtain c' k where t: "t = (c', k)" by (cases t)
  have "total c sv' = total c sv" for c
    using total_update [OF i, of c ?w] total_stats [where sv = "sv\<lparr>workers := ?ws\<rparr>"] Cons t
    by (simp add: sv'(1))
  moreover have "map w_fd ?ws = map w_fd (workers sv)"
    using i by (simp add: map_update list_update_same_conv)
  moreover have "late (signal sv) tr (w_fd x) (unclosed (w_todo x))" if "x \<in> set ?ws" for x
  proof -
    from that have "x = ?w \<or> x \<in> set (workers sv)"
      using set_update_subset_insert [of "workers sv" i ?w] by blast
    moreover have "late (signal sv) tr (w_fd (workers sv ! i)) (unclosed (w_todo (workers sv ! i)))"
      using ok i by (simp add: charged_ok_def)
    then have "late (signal sv) tr (w_fd ?w) (unclosed ts)"
      using late_suffix [OF _ unclosed_suffix [of ts t]] Cons by simp
    ultimately show ?thesis using ok by (auto simp: charged_ok_def)
  qed
  ultimately show ?thesis using ok by (auto simp: charged_ok_def sv'(1) evs leaving_def)
qed

lemma main_step_charged:
  assumes run: "main_step K sv s = (sv', s')" and ok: "charged_ok sv tr" and ext: "extends evs s s'"
  shows "charged_ok sv' (tr @ evs)"
proof (cases "m_todo sv")
  case (Cons t ts)
  with run have sv': "sv' = sv\<lparr>m_todo := ts, stats := bump_counter t (stats sv)\<rparr>" "s' = s"
    by (simp_all add: main_step_def)
  obtain c' k where t: "t = (c', k)" by (cases t)
  have "total c sv' = total c sv" for c using Cons t by (simp add: sv'(1) total_def ac_simps)
  with ok ext sv' show ?thesis by (simp add: charged_ok_def extends_def leaving_def)
next
  case Nil
  with run have op: "main_op K sv s = (sv', s')" by (simp add: main_step_def)
  have fin: "charged_ok sv' (tr @ evs)"
    if "m_todo sv' = charges (signal sv) evs" "signal sv' = signal sv" "stats sv' = stats sv"
      "workers sv' = workers sv"
      "spawning (m_phase sv') = spawning (m_phase sv) @ opens evs"
      "leaving sv' \<or> \<not> running sv' \<longrightarrow> leaving sv \<or> \<not> running sv \<or> list_ex (ends_run (signal sv)) evs"
  proof -
    have "total c sv' = total c sv + due c (charges (signal sv) evs)" for c
      using that by (simp add: total_def Nil ac_simps)
    with ok that show ?thesis by (auto simp: charged_ok_def intro: late_append)
  qed
  show ?thesis
  proof (cases "m_phase sv")
    case M_poll
    obtain n es s1 where wt: "sys_wait K (-1) 2 s = ((n, es), s1)" by (metis surj_pair)
    from sys_wait_extends [OF this] obtain x where x: "extends [E_wait (-1) 2 x] s s1"
      "(n, es) = filled x" "\<forall>e. x = Inl e \<longrightarrow> errno s1 = e" by blast
    from op M_poll wt have "s' = s1" by (auto simp: Let_def split: if_splits)
    with x(1) ext have "evs = [E_wait (-1) 2 x]" by (simp add: extends_def)
    with op M_poll wt x(2,3) show ?thesis
      by (intro fin) (auto simp: Let_def leaving_def filled_def split: if_splits sum.splits)
  next
    case M_drain
    obtain n d s1 where rd: "sys_read K (signal sv) 128 s = ((n, d), s1)" by (metis surj_pair)
    from sys_read_extends [OF this] obtain x where x: "extends [E_read (signal sv) 128 x] s s1" by blast
    from op M_drain rd have "s' = s1" by (auto simp: Let_def split: if_splits)
    with x ext have "evs = [E_read (signal sv) 128 x]" by (simp add: extends_def)
    with op M_drain rd Nil show ?thesis
      by (intro fin) (auto simp: Let_def leaving_def split: if_splits)
  next
    case M_accept
    let ?acc = "Sys_accept4 (listener sv) [SOCK_CLOEXEC]"
    obtain fd s1 where ac: "call K ?acc s = (fd, s1)" by (metis surj_pair)
    from call_extends [OF this] obtain x where x: "extends [E_call ?acc x] s s1" "fd = c_int x"
      by blast
    show ?thesis
    proof (cases "fd < 0")
      case True
      with op M_accept ac have "s' = s1" by simp
      with x ext have "evs = [E_call ?acc x]" by (simp add: extends_def)
      with True op M_accept ac x(2) Nil show ?thesis
        by (intro fin) (auto simp: leaving_def only_valid_def)
    next
      case False
      obtain b s2 where nd: "set_nodelay K fd s1 = (b, s2)" by (metis surj_pair)
      then obtain y where y: "extends [E_call (Sys_setsockopt fd TCP_NODELAY) y] s1 s2"
        by (auto simp: set_nodelay_def dest!: call_extends split: prod.splits)
      from False op M_accept ac nd have "s' = s2" by simp
      with extends_trans [OF x(1) y] ext
      have "evs = [E_call ?acc x, E_call (Sys_setsockopt fd TCP_NODELAY) y]" by (simp add: extends_def)
      with False op M_accept ac nd x(2) show ?thesis
        by (intro fin) (auto simp: leaving_def only_valid_def)
    qed
  next
    case (M_spawn fd)
    let ?w = "\<lparr>w_fd = fd, w_phase = Starting, w_todo = []\<rparr>"
    from op M_spawn have sv': "sv' = sv\<lparr>m_phase := M_loop, workers := workers sv @ [?w]\<rparr>" "s' = s"
      by simp_all
    have "total c sv' = total c sv" for c by (simp add: total_def sv'(1))
    with ok ext sv' M_spawn show ?thesis
      by (auto simp: charged_ok_def extends_def leaving_def late_def)
  next
    case M_loop
    with op ext Nil show ?thesis by (intro fin) (auto simp: extends_def leaving_def split: if_splits)
  next
    case M_returned
    with op ext Nil show ?thesis by (intro fin) (auto simp: extends_def leaving_def)
  next
    case (M_join i)
    with op ext Nil show ?thesis by (intro fin) (auto simp: extends_def leaving_def split: if_splits)
  next
    case M_end
    with op ext ok show ?thesis by (auto simp: extends_def)
  qed
qed

subsection \<open>What every schedule keeps\<close>

definition threads_own :: "thread_server \<Rightarrow> int list" where
  "threads_own sv = only_valid (listener sv) @ only_valid (signal sv)"

text \<open>The invariant, after the calls \<open>tr\<close> of the run, with the descriptors \<open>fds\<close> open before.\<close>

definition in_service :: "int list \<Rightarrow> thread_server \<Rightarrow> event list \<Rightarrow> bool" where
  "in_service fds sv tr \<longleftrightarrow> threads_own sv = fds \<and> Socket_valid (signal sv) \<and>
     list_all todo_ok (workers sv) \<and> conns sv = length (opens tr) \<and>
     (new_fds fds tr \<longrightarrow> tinv sv tr \<and> charged_ok sv tr)"

lemma new_fds_fresh:
  assumes "new_fds fds (tr @ ev # evs)" and "fd \<in> set (opened_fd ev)" and "tinv sv tr"
    and "signal sv \<in> set fds"
  shows "fd \<noteq> signal sv \<and> list_all (\<lambda>w. w_phase w = Done \<or> w_fd w \<noteq> fd) (workers sv)"
proof -
  from assms(3) have "mset (opens tr) = mset (closes tr) + owners sv"
    by (simp add: tinv_def handles_ok_def)
  from new_fds_last [OF assms(1,2) this] have fd: "fd \<notin> set fds" "fd \<notin># owners sv" by simp_all
  from fd(2) have "w_fd w \<noteq> fd" if "w \<in> set (workers sv)" "w_phase w \<noteq> Done" for w
    using in_holds [OF that(1)] that(2) by (auto simp: owners_def live_def)
  with fd(1) assms(4) show ?thesis by (auto simp: list_all_iff)
qed

lemma in_service_signal: "in_service fds sv tr \<Longrightarrow> signal sv \<in> set fds"
  by (auto simp: in_service_def threads_own_def Socket_valid_def only_valid_def)

lemma main_step_in_service:
  assumes run: "main_step K sv s = (sv', s')" and in_service: "in_service fds sv tr"
  shows "\<exists>evs. extends evs s s' \<and> in_service fds sv' (tr @ evs)"
proof -
  from main_step_effect [OF run] in_service obtain evs where ext: "extends evs s s'"
    and eff: "conns sv' = conns sv + length (opens evs)" "listener sv' = listener sv"
      "signal sv' = signal sv" "list_all todo_ok (workers sv')"
    and new: "\<forall>fd. m_phase sv' = M_spawn fd \<longrightarrow> m_phase sv = M_spawn fd \<or>
      (\<exists>ev evs'. evs = ev # evs' \<and> fd \<in> set (opened_fd ev))"
    by (auto simp: in_service_def)
  have "tinv sv' (tr @ evs) \<and> charged_ok sv' (tr @ evs)" if n: "new_fds fds (tr @ evs)"
  proof -
    have inv: "tinv sv tr" and ok: "charged_ok sv tr"
      using in_service new_fds_prefix [OF n] by (simp_all add: in_service_def)
    have "fresh_spawn sv sv'"
    proof (cases "m_phase sv'")
      case (M_spawn fd)
      with new n new_fds_fresh [OF _ _ inv in_service_signal [OF in_service]] show ?thesis
        by (fastforce simp: fresh_spawn_def)
    qed (simp_all add: fresh_spawn_def)
    from main_step_tinv [OF run this inv] obtain evs' where "extends evs' s s'" "tinv sv' (tr @ evs')"
      by blast
    with ext main_step_charged [OF run ok ext] show ?thesis by (simp add: extends_def)
  qed
  with eff in_service have "in_service fds sv' (tr @ evs)" by (simp add: in_service_def threads_own_def)
  with ext show ?thesis by blast
qed

lemma worker_step_in_service:
  assumes run: "worker_step K i sv s = (sv', s')" and i: "i < length (workers sv)" and in_service: "in_service fds sv tr"
  shows "\<exists>evs. extends evs s s' \<and> in_service fds sv' (tr @ evs)"
proof -
  from worker_step_effect [OF run i] in_service obtain evs where ext: "extends evs s s'" "opens evs = []"
    and eff: "listener sv' = listener sv" "signal sv' = signal sv" "m_phase sv' = m_phase sv"
      "length (workers sv') = length (workers sv)" "list_all todo_ok (workers sv')"
    by (auto simp: in_service_def)
  have "tinv sv' (tr @ evs) \<and> charged_ok sv' (tr @ evs)" if n: "new_fds fds (tr @ evs)"
  proof -
    have inv: "tinv sv tr" and ok: "charged_ok sv tr"
      using in_service new_fds_prefix [OF n] by (simp_all add: in_service_def)
    from worker_step_tinv [OF i run inv] worker_step_charged [OF run i ok inv ext(1)] ext(1)
    show ?thesis by (auto simp: extends_def)
  qed
  with eff ext(2) in_service have "in_service fds sv' (tr @ evs)" by (simp add: in_service_def threads_own_def conns_def)
  with ext(1) show ?thesis by blast
qed

lemma server_step_in_service:
  assumes "server_step K t (sv, s) = Inr (sv', s')" and "in_service fds sv tr"
  shows "\<exists>evs. extends evs s s' \<and> in_service fds sv' (tr @ evs)"
  using assms main_step_in_service [of K sv s sv' s' fds tr] worker_step_in_service [of K _ sv s sv' s' fds tr]
  by (cases t) (auto intro: exI [of _ "[]"] split: if_splits)

text \<open>The states of a run that began in the system state \<open>s0\<close>, after the calls \<open>tr0\<close>.\<close>

definition run_inv ::
  "int list \<Rightarrow> 'w os \<Rightarrow> event list \<Rightarrow> thread_server \<times> 'w os \<Rightarrow> bool" where
  "run_inv fds s0 tr0 c \<longleftrightarrow> (\<exists>evs. extends evs s0 (snd c) \<and> in_service fds (fst c) (tr0 @ evs))"

lemma run_inv_refl: "in_service fds sv tr \<Longrightarrow> run_inv fds s tr (sv, s)"
  by (auto simp: run_inv_def intro: exI [of _ "[]"])

lemma server_step_inv:
  assumes "server_step K t c = Inr c'" and "run_inv fds s0 tr0 c"
  shows "run_inv fds s0 tr0 c'"
proof -
  obtain sv s sv' s' where c: "c = (sv, s)" "c' = (sv', s')" by (metis surj_pair)
  from assms(2) obtain evs where "extends evs s0 s" "in_service fds sv (tr0 @ evs)"
    by (auto simp: run_inv_def c)
  with server_step_in_service [of K t sv s sv' s' fds "tr0 @ evs"] assms(1) show ?thesis
    by (auto simp: run_inv_def c intro: extends_trans)
qed

lemma server_step_throws: "server_step K t c = Inl e \<Longrightarrow> e = Length_Error"
  by (cases "(K, t, c)" rule: server_step.cases) (auto split: if_splits)

lemma worker_keeps_return:
  "server_step K t (sv, s) = Inr (sv', s') \<Longrightarrow> t \<noteq> Main \<Longrightarrow> can_return sv' = can_return sv"
  by (cases t) (auto simp: can_return_def worker_step_def Let_def split: if_splits list.splits prod.splits)

interpretation running: threaded "run_step K"
  "\<lambda>(c, returned). run_inv fds s0 tr0 c \<and> (returned \<longrightarrow> can_return (fst c))" "(=) Length_Error"
  for K :: "'w kernel" and fds s0 tr0
proof (unfold_locales, goal_cases)
  case (1 c t c')
  then show ?case
    by (auto simp: server_step_inv worker_keeps_return split: if_splits sum.splits prod.splits)
next
  case (2 c t e)
  then show ?case by (auto dest!: server_step_throws split: if_splits sum.splits prod.splits)
qed

text \<open>In the destructor nothing is accepted any more.\<close>

lemma leaving_step:
  assumes "server_step K t (sv, s) = Inr (sv', s')" and "leaving sv"
  shows "leaving sv' \<and> length (workers sv') = length (workers sv)"
proof (cases t)
  case Main
  with assms show ?thesis
    by (auto simp: leaving_def main_step_def split: list.splits main_phase.splits if_splits)
next
  case (Worker i)
  with assms show ?thesis
    by (auto simp: leaving_def worker_step_def Let_def split: list.splits prod.splits if_splits)
qed

interpretation ending: threaded "server_step K"
  "\<lambda>c. run_inv fds s0 tr0 c \<and> leaving (fst c) \<and> length (workers (fst c)) = n" "(=) Length_Error"
  for K :: "'w kernel" and fds s0 tr0 n
proof (unfold_locales, goal_cases)
  case (1 c t c')
  then show ?case
    using server_step_inv [of K t c c' fds s0 tr0] leaving_step [of K t "fst c" "snd c" "fst c'" "snd c'"]
    by simp
next
  case (2 c t e)
  then show ?case by (auto dest: server_step_throws)
qed

text \<open>An object that was never run has no worker to wait for.\<close>

interpretation unused: threaded "server_step K"
  "\<lambda>(sv, s). workers sv = [] \<and> m_todo sv = [] \<and> leaving sv \<and> s = s0 \<and> listener sv = l \<and> signal sv = g"
  "(=) Length_Error" for K :: "'w kernel" and s0 l g
proof (unfold_locales, goal_cases)
  case (1 c t c')
  then show ?case
    by (cases t) (auto simp: leaving_def main_step_def split: main_phase.splits)
next
  case (2 c t e)
  then show ?case by (auto dest: server_step_throws)
qed

subsection \<open>The contract of the class Server\<close>

lemma members_destroyed:
  "\<exists>cl. mset cl = mset (threads_own sv) \<and>
    opened_closed [] cl s (Socket_destroy K (listener sv) (Socket_destroy K (signal sv) s))"
proof -
  note opened_closed_trans [OF Socket_destroy_closed [of "signal sv" s K]
      Socket_destroy_closed [of "listener sv" _ K]]
  then show ?thesis
    by (intro exI [of _ "only_valid (signal sv) @ only_valid (listener sv)"]) (simp add: threads_own_def)
qed

lemma members_calls:
  assumes "0 \<le> signal sv" and "0 \<le> listener sv"
  shows "\<exists>r1 r2. extends [E_call (Sys_close (signal sv)) r1, E_call (Sys_close (listener sv)) r2]
    s (Socket_destroy K (listener sv) (Socket_destroy K (signal sv) s))"
proof -
  obtain r1 w1 where d1: "Socket_destroy K (signal sv) s =
      finish w1 r1 (E_call (Sys_close (signal sv)) r1) s"
    using Socket_destroy_eq [OF assms(1), of K s] by metis
  obtain r2 w2 where d2: "Socket_destroy K (listener sv) (Socket_destroy K (signal sv) s) =
      finish w2 r2 (E_call (Sys_close (listener sv)) r2) (Socket_destroy K (signal sv) s)"
    using Socket_destroy_eq [OF assms(2), of K "Socket_destroy K (signal sv) s"] by metis
  show ?thesis
    by (rule exI [of _ r1], rule exI [of _ r2]) (simp add: d2 [unfolded d1] d1 extends_def)
qed

text \<open>A start that succeeds, by its calls, and the server that it leaves.\<close>

lemma threads_started:
  assumes "Ev_Threads.start K (ThreadServer_init c) error s = ((True, error'), sv, s')"
  shows "extends (startup (port c) 1024 (listener sv) (signal sv)) s s' \<and>
    0 \<le> listener sv \<and> 0 \<le> signal sv \<and> charged_ok sv []"
proof -
  let ?sv = "ThreadServer_init c"
  have empty: "listener ?sv = -1" "signal ?sv = -1" "cfg ?sv = c" by (simp_all add: ThreadServer_init_def)
  have reset: "Socket_reset K (-1) fd s = (fd, s)" for fd s by (simp add: Socket_reset_def)
  obtain l e1 s1 where l: "listen_tcp K (port c) 1024 error s = ((l, e1), s1)" by (metis surj_pair)
  with assms empty have l0: "0 \<le> l"
    by (cases "0 \<le> l") (auto simp: Ev_Threads.start_def reset Socket_valid_def Let_def)
  obtain g e2 s2 where g: "signal_fd K e1 s1 = ((g, e2), s2)" by (metis surj_pair)
  have res: "sv = ?sv\<lparr>listener := l, signal := g\<rparr>" "s' = s2" "0 \<le> g"
    using assms empty l l0 g by (auto simp: Ev_Threads.start_def reset Socket_valid_def Let_def)
  have zero: "counter_of cn Stats_init = 0" "eagain Stats_init = 0" for cn
    by (cases cn; simp add: Stats_init_def)+
  have "charged_ok sv []"
    by (simp add: res(1) charged_ok_def ThreadServer_init_def total_def zero leaving_def)
  with startup_extends [OF l l0 g res(3)] l0 res show ?thesis by simp
qed

lemma threads_start_effect:
  assumes "Ev_Threads.start K (ThreadServer_init c) error s = ((ok, error'), sv, s')"
  shows "(\<exists>cl. opened_closed (cl @ threads_own sv) cl s s') \<and>
    workers sv = [] \<and> m_todo sv = [] \<and> m_phase sv = M_loop \<and> (ok \<longrightarrow> Socket_valid (signal sv))"
proof -
  let ?sv = "ThreadServer_init c"
  have empty: "listener ?sv = -1" "signal ?sv = -1" "cfg ?sv = c" "workers ?sv = []" "m_todo ?sv = []"
    "m_phase ?sv = M_loop" by (simp_all add: ThreadServer_init_def)
  have none: "only_valid (-1) = []" by (simp add: only_valid_def)
  have reset: "Socket_reset K (-1) fd s = (fd, s)" for fd s by (simp add: Socket_reset_def)
  obtain l e1 s1 where l: "listen_tcp K (port c) 1024 error s = ((l, e1), s1)" by (metis surj_pair)
  from listen_tcp_opened [OF l] obtain cl where o1: "opened_closed (cl @ only_valid l) cl s s1" by blast
  show ?thesis
  proof (cases "0 \<le> l")
    case False
    with assms l o1 empty none show ?thesis
      by (auto simp: Ev_Threads.start_def reset Socket_valid_def threads_own_def)
  next
    case True
    obtain g e2 s2 where g: "signal_fd K e1 s1 = ((g, e2), s2)" by (metis surj_pair)
    from opened_closed_trans [OF o1 signal_fd_opened [OF g]] assms l g empty True show ?thesis
      by (auto simp: Ev_Threads.start_def reset Socket_valid_def threads_own_def)
  qed
qed

lemma ThreadServer_run_ran:
  assumes run: "ThreadServer_run K sched (n, sv) s = Some (Inr ((n', sv'), s'))" and in_service: "in_service fds sv []"
  shows "\<exists>evs. extends evs s s' \<and> in_service fds sv' evs \<and> can_return sv'"
proof -
  from run obtain r where "scheduled (run_step K) sched snd n ((sv, s), False) =
      Some (Inr (n', (sv', s'), r))"
    by (auto simp: ThreadServer_run_def split: option.splits sum.splits)
  from running.scheduled_inv [OF this, of fds s "[]"] run_inv_refl [OF in_service] show ?thesis
    by (auto simp: run_inv_def [of _ _ _ "(sv', s')"])
qed

lemma ThreadServer_run_throws:
  assumes "ThreadServer_run K sched (n, sv) s = Some (Inl e)" and in_service: "in_service fds sv []"
  shows "e = Length_Error"
proof -
  from assms(1) have "scheduled (run_step K) sched snd n ((sv, s), False) = Some (Inl e)"
    by (auto simp: ThreadServer_run_def split: option.splits sum.splits)
  from running.scheduled_inv [OF this, of fds s "[]"] run_inv_refl [OF in_service] show ?thesis
    by auto
qed

lemma ThreadServer_destroy_ended:
  assumes destroy: "ThreadServer_destroy K sched (n, sv) s = Some (Inr s')" and in_service: "in_service fds sv tr"
    and ret: "can_return sv"
    and fds: "fds = [l, g]" "0 \<le> l" "0 \<le> g" "signal sv = g" "listener sv = l"
  shows "\<exists>evs' r1 r2 sv2. extends (evs' @ [E_call (Sys_close g) r1, E_call (Sys_close l) r2]) s s' \<and>
    in_service fds sv2 (tr @ evs') \<and> m_phase sv2 = M_end \<and> opens evs' = []"
proof -
  from ret have same: "sv\<lparr>m_phase := M_returned\<rparr> = sv" by (simp add: can_return_def)
  with destroy obtain n' sv2 s2 where
    run: "scheduled (server_step K) sched (\<lambda>(sv, s). m_phase sv = M_end) n (sv, s) = Some (Inr (n', sv2, s2))"
    and s': "s' = Socket_destroy K (listener sv2) (Socket_destroy K (signal sv2) s2)"
    by (auto simp: ThreadServer_destroy_def split: option.splits sum.splits)
  from ending.scheduled_inv [OF run, of fds s tr "length (workers sv)"] run_inv_refl [OF in_service] ret
    obtain evs' where
    evs: "extends evs' s s2" "in_service fds sv2 (tr @ evs')" and fin: "m_phase sv2 = M_end"
      "length (workers sv2) = length (workers sv)"
    by (auto simp: run_inv_def [of _ _ _ "(sv2, s2)"] leaving_def can_return_def)
  from evs(2) in_service ret fin have "opens evs' = []" by (simp add: in_service_def conns_def can_return_def)
  moreover from evs(2) fds(1) have "threads_own sv2 = [l, g]" by (simp add: in_service_def)
  then have "signal sv2 = g" "listener sv2 = l"
    by (auto simp: threads_own_def only_valid_def split: if_splits)
  with members_calls [of sv2 s2 K] fds(2,3) obtain r1 r2 where
    "extends [E_call (Sys_close g) r1, E_call (Sys_close l) r2] s2 s'" by (auto simp: s')
  ultimately show ?thesis using extends_trans [OF evs(1)] evs(2) fin(1) by blast
qed

lemma ThreadServer_destroy_failed:
  assumes "ThreadServer_destroy K sched (n, sv) s = Some (Inr s')" and "workers sv = []" "m_todo sv = []"
  shows "\<exists>cl. mset cl = mset (threads_own sv) \<and> opened_closed [] cl s s'"
proof -
  from assms(1) obtain n' sv2 s2 where
    run: "scheduled (server_step K) sched (\<lambda>(sv, s). m_phase sv = M_end) n (sv\<lparr>m_phase := M_returned\<rparr>, s) =
      Some (Inr (n', sv2, s2))"
    and s': "s' = Socket_destroy K (listener sv2) (Socket_destroy K (signal sv2) s2)"
    by (auto simp: ThreadServer_destroy_def split: option.splits sum.splits)
  from unused.scheduled_inv [OF run, of s "listener sv" "signal sv"] assms(2,3)
  have "s2 = s" "threads_own sv2 = threads_own sv" by (auto simp: leaving_def threads_own_def)
  with members_destroyed [of sv2 s2 K] s' show ?thesis by simp
qed

interpretation any_state: threaded "server_step K" "\<lambda>c. True" "(=) Length_Error" for K :: "'w kernel"
  by unfold_locales (auto dest: server_step_throws)

lemma ThreadServer_destroy_throws:
  assumes "ThreadServer_destroy K sched v s = Some (Inl e)"
  shows "e = Length_Error"
  using assms
  by (auto simp: ThreadServer_destroy_def dest!: any_state.scheduled_inv split: option.splits sum.splits)

definition threads_ready :: "Config \<Rightarrow> event list \<Rightarrow> nat \<times> thread_server \<Rightarrow> bool" where
  "threads_ready c pre v \<longleftrightarrow> in_service (threads_own (snd v)) (snd v) [] \<and>
     0 \<le> listener (snd v) \<and> 0 \<le> signal (snd v) \<and>
     pre = startup (port c) 1024 (listener (snd v)) (signal (snd v))"

definition threads_owns :: "nat \<times> thread_server \<Rightarrow> int list" where
  "threads_owns v = threads_own (snd v)"

definition threads_ran :: "nat \<times> thread_server \<Rightarrow> event list \<Rightarrow> nat \<times> thread_server \<Rightarrow> bool" where
  "threads_ran v evs v' \<longleftrightarrow> in_service (threads_own (snd v)) (snd v') evs \<and> can_return (snd v')"

definition threads_ended ::
  "nat \<times> thread_server \<Rightarrow> event list \<Rightarrow> nat \<times> thread_server \<Rightarrow> event list \<Rightarrow> event list \<Rightarrow> bool" where
  "threads_ended v evs v' evs' post \<longleftrightarrow> opens evs' = [] \<and>
     (\<exists>sv. in_service (threads_own (snd v)) sv (evs @ evs') \<and> m_phase sv = M_end) \<and>
     (\<exists>r1 r2. post = [E_call (Sys_close (signal (snd v))) r1, E_call (Sys_close (listener (snd v))) r2])"

interpretation threads: server "threads_class K sched" threads_ready threads_owns threads_ran threads_ended
  for K :: "'w kernel" and sched
proof (unfold_locales, goal_cases)
  case (1 c e)
  then show ?case by (simp add: threads_class_def)
next
  case (2 c v error s ok error' v' s')
  then show ?case using threads_start_effect [of K c error s ok error' "snd v'" s']
    by (auto simp: threads_class_def threads_owns_def split: prod.splits)
next
  case (3 c v error s error' v' s')
  then have st: "Ev_Threads.start K (ThreadServer_init c) error s = ((True, error'), snd v', s')"
    by (auto simp: threads_class_def split: prod.splits)
  from threads_start_effect [OF st] start_tinv [OF st] threads_started [OF st] show ?case
    by (intro exI [of _ "startup (port c) 1024 (listener (snd v')) (signal (snd v'))"])
       (simp add: threads_ready_def in_service_def conns_def)
next
  case (4 c pre v s v' s')
  then show ?case
    using ThreadServer_run_ran [of K sched "fst v" "snd v" s "fst v'" "snd v'" s' "threads_own (snd v)"]
    by (simp add: threads_class_def threads_ready_def threads_ran_def)
next
  case (5 c pre v s e)
  then show ?case
    using ThreadServer_run_throws [of K sched "fst v" "snd v" s e "threads_own (snd v)"]
    by (simp add: threads_class_def threads_ready_def)
next
  case (6 c pre v evs v' s s')
  let ?l = "listener (snd v)" and ?g = "signal (snd v)"
  from 6(1) have fd: "0 \<le> ?l" "0 \<le> ?g" by (simp_all add: threads_ready_def)
  then have own: "threads_own (snd v) = [?l, ?g]" by (simp add: threads_own_def only_valid_def)
  from 6(2) have ran: "in_service (threads_own (snd v)) (snd v') evs" "can_return (snd v')"
    by (simp_all add: threads_ran_def)
  from ran(1) own have same: "signal (snd v') = ?g" "listener (snd v') = ?l"
    by (auto simp: in_service_def threads_own_def only_valid_def split: if_splits)
  from 6(3) have "ThreadServer_destroy K sched (fst v', snd v') s = Some (Inr s')"
    by (simp add: threads_class_def)
  from ThreadServer_destroy_ended [OF this ran own fd same] obtain evs' r1 r2 sv2 where
    d: "extends (evs' @ [E_call (Sys_close ?g) r1, E_call (Sys_close ?l) r2]) s s'"
      "in_service (threads_own (snd v)) sv2 (evs @ evs')" "m_phase sv2 = M_end" "opens evs' = []"
    by blast
  then have "threads_ended v evs v' evs' [E_call (Sys_close ?g) r1, E_call (Sys_close ?l) r2]"
    unfolding threads_ended_def by blast
  with d(1) own show ?case
    by (intro exI [of _ evs'] exI [of _ "[E_call (Sys_close ?g) r1, E_call (Sys_close ?l) r2]"])
       (simp add: threads_owns_def)
next
  case (7 c v error s error' v' s' t t')
  then have "Ev_Threads.start K (ThreadServer_init c) error s = ((False, error'), snd v', s')"
    by (auto simp: threads_class_def split: prod.splits)
  from threads_start_effect [OF this] 7(3)
    ThreadServer_destroy_failed [of K sched "fst v'" "snd v'" t t'] show ?case
    by (simp add: threads_class_def threads_owns_def)
next
  case (8 v s e)
  then show ?case by (auto simp: threads_class_def dest: ThreadServer_destroy_throws)
qed

subsection \<open>The counters when run returns\<close>

lemma due_none: "list_all (\<lambda>(c', k). c' \<noteq> c) ts \<Longrightarrow> due c ts = 0"
  by (induction ts) (auto split: if_splits)

lemma due_filter: "due c ts = due c (filter (\<lambda>(c', k). c' = c) ts)"
  by (induction ts) (auto split: if_splits)

text \<open>Workers that have counted their close.\<close>

definition gone :: "worker \<Rightarrow> bool" where
  "gone w \<longleftrightarrow> finished w \<and> filter (\<lambda>(c, k). c = Closed) (w_todo w) = []"

lemma due_closed:
  "list_all todo_ok ws \<Longrightarrow> sum_list (map (\<lambda>w. due Closed (w_todo w)) ws) +
    of_nat (length (filter gone ws)) = (of_nat (length (filter finished ws)) :: 64 word)"
proof (induction ws)
  case Nil
  then show ?case by simp
next
  case (Cons w ws)
  have "todo_ok w" using Cons.prems by simp
  then have "(if gone w then 1 else 0) + due Closed (w_todo w) = (if finished w then 1 else 0)"
    using due_filter [of Closed "w_todo w"] by (auto simp: todo_ok_def gone_def)
  moreover have "sum_list (map (\<lambda>w. due Closed (w_todo w)) ws) +
      of_nat (length (filter gone ws)) = (of_nat (length (filter finished ws)) :: 64 word)"
    using Cons by simp
  moreover have "(d + D) + (of_nat (g + G) :: 64 word) = of_nat (f + F)"
    if "of_nat g + d = of_nat f" "D + of_nat G = of_nat F" for d D g G f F
    using that [symmetric] by (simp add: ac_simps)
  from this [of "if gone w then 1 else 0" _ "if finished w then 1 else 0"] calculation
  show ?case by (auto split: if_splits)
qed

lemma returned_counts:
  assumes "in_service fds sv tr" and "new_fds fds tr" and "can_return sv"
  shows "accepted (stats sv) = of_nat (length (opens tr)) \<and>
    threads_spawned (stats sv) = of_nat (length (opens tr)) \<and>
    Ev_Server.closed (stats sv) = of_nat (length (filter gone (workers sv))) \<and>
    length (filter gone (workers sv)) \<le> length (opens tr)"
proof -
  from assms have ok: "counts_ok sv" "list_all todo_ok (workers sv)" "m_todo sv = []"
    and conns: "length (workers sv) = length (opens tr)" "spawning (m_phase sv) = []"
    by (simp_all add: in_service_def tinv_def can_return_def conns_def)
  have "map (\<lambda>w. due c (w_todo w)) (workers sv) = map (\<lambda>w. 0) (workers sv)"
    if "c = Accepted \<or> c = Threads_spawned" for c
  proof (rule map_cong [OF refl due_none])
    fix w
    assume "w \<in> set (workers sv)"
    with ok(2) have "todo_ok w" by (simp add: list_all_iff)
    with that show "list_all (\<lambda>(c', k). c' \<noteq> c) (w_todo w)"
      by (auto simp: todo_ok_def list_all_iff)
  qed
  then have "total c sv = counter_of c (stats sv)" if "c = Accepted \<or> c = Threads_spawned" for c
    using that ok(3) by (simp add: total_def sum_list_triv del: map_eq_conv)
  from this [of Accepted] this [of Threads_spawned] ok(1) conns have
    "accepted (stats sv) = of_nat (length (opens tr))"
    "threads_spawned (stats sv) = of_nat (length (opens tr))" by (simp_all add: counts_ok_def)
  moreover have "total Closed sv = of_nat (length (filter finished (workers sv)))"
    using ok(1) by (simp add: counts_ok_def)
  with due_closed [OF ok(2)] ok(3)
  have "Ev_Server.closed (stats sv) = of_nat (length (filter gone (workers sv)))"
    by (simp add: total_def) (metis add.commute add_right_cancel)
  moreover have "length (filter gone (workers sv)) \<le> length (opens tr)"
    using conns(1) length_filter_le [of gone "workers sv"] by simp
  ultimately show ?thesis by simp
qed

lemma ended_idle:
  assumes "in_service fds sv tr" and "new_fds fds tr" and "m_phase sv = M_end"
  shows "echo_run (signal sv) tr idle = Some idle \<and> mset (opens tr) = mset (closes tr)"
proof -
  from assms have inv: "tinv sv tr" by (simp add: in_service_def)
  with assms(3) have "\<forall>w \<in> set (workers sv). w_phase w = Done" by (simp add: tinv_def joins_ok_def)
  then have none: "holds (workers sv) = {#}" by (rule holds_all_done)
  with inv obtain p where "echo_run (signal sv) tr idle = Some p" "\<forall>fd. p fd = []"
    by (auto simp: tinv_def echo_ok_def)
  moreover from this(2) have "p = idle" by auto
  ultimately show ?thesis using inv none assms(3) by (simp add: tinv_def handles_ok_def owners_def)
qed

subsection \<open>Whole runs\<close>

lemma due_late: "cn \<noteq> Closed \<Longrightarrow>
    due cn (concat (map (\<lambda>w. unclosed (w_todo w)) ws)) = sum_list (map (\<lambda>w. due cn (w_todo w)) ws)"
  by (induction ws) (simp_all add: due_unclosed)

text \<open>What has been counted when \<open>run\<close> returns: each counter is what the calls of the run are
  charged as, less what the workers are late with, each with the end of the updates of one call of
  its own; and the connections counted as closed are at least those that are.\<close>

lemma returned_tally:
  assumes "in_service fds sv tr" and "new_fds fds tr" and "can_return sv"
  shows "\<exists>ls. length ls = length (opens tr) \<and>
    (\<forall>i < length ls. late (signal sv) tr (opens tr ! i) (ls ! i)) \<and>
    (\<forall>cn. cn \<noteq> Closed \<longrightarrow>
      counter_of cn (stats sv) + due cn (concat ls) = due cn (charges (signal sv) tr)) \<and>
    eagain (stats sv) = 0 \<and> list_ex (ends_run (signal sv)) tr \<and>
    length (closes tr) \<le> length (filter gone (workers sv))"
proof -
  from assms have ok: "charged_ok sv tr" "tinv sv tr" "m_todo sv = []" "leaving sv"
    "spawning (m_phase sv) = []"
    by (simp_all add: in_service_def can_return_def leaving_def)
  let ?ls = "map (\<lambda>w. unclosed (w_todo w)) (workers sv)"
  from ok(1,5) have fds: "map w_fd (workers sv) = opens tr" by (simp add: charged_ok_def)
  have len: "length (opens tr) = length (workers sv)" unfolding fds [symmetric] by simp
  have "opens tr ! i = w_fd (workers sv ! i)" if "i < length (workers sv)" for i
    unfolding fds [symmetric] using that by simp
  with ok(1) have "\<forall>i < length ?ls. late (signal sv) tr (opens tr ! i) (?ls ! i)"
    by (simp add: charged_ok_def)
  moreover have "\<forall>cn. cn \<noteq> Closed \<longrightarrow>
      counter_of cn (stats sv) + due cn (concat ?ls) = due cn (charges (signal sv) tr)"
    using ok(1,3) by (simp add: charged_ok_def total_def due_late)
  moreover have "length (closes tr) \<le> length (filter gone (workers sv))"
  proof -
    have "mset (opens tr) = mset (closes tr) + holds (workers sv)"
      using ok(2,5) by (simp add: tinv_def handles_ok_def owners_def)
    from arg_cong [OF this, of size] have "length (workers sv) = length (closes tr) + size (holds (workers sv))"
      by (simp add: len)
    moreover have "length ws \<le> length (filter gone ws) + size (holds ws)"
      if "\<forall>w \<in> set ws. w_phase w = Done \<longrightarrow> w_todo w = []" for ws
      using that by (induction ws) (auto simp: holds_def live_def gone_def finished_def)
    from this [of "workers sv"] ok(2) have
      "length (workers sv) \<le> length (filter gone (workers sv)) + size (holds (workers sv))"
      by (simp add: tinv_def joins_ok_def)
    ultimately show ?thesis by simp
  qed
  ultimately show ?thesis
    using ok(1,4) len by (intro exI [of _ ?ls]) (simp add: charged_ok_def)
qed

text \<open>C3: A whole run of evserver with the thread backend that exits with status 0, for every
  schedule of its threads and every kernel whose new descriptors are new, by all its calls. Before
  the loop there are exactly the six calls that make the listener and the signal descriptor, and
  two getpid; after the threads have ended there are exactly the two closes of these. In between,
  before and after \<open>run\<close> has returned, the reads and writes of all workers together are those of
  an echo server, with nothing owed to any client at the end; nothing is accepted after \<open>run\<close> has
  returned, which it does after a read of the signal descriptor or a wait that failed with
  something other than EINTR. The counters are printed when \<open>run\<close> returns, before the workers are
  joined: those of accepted connections and of threads are exact; each other one is what the calls
  made so far are charged as, less the updates that workers are late with, at most the last ones
  of one call for each connection; those counted as closed are at least those that are, and at most
  those accepted. Nothing goes to stderr, and every descriptor that the run opened, those of the
  connections included, has been closed exactly once.\<close>

theorem evserver_main_threads:
  assumes "main K U (threads_class K sched) args s = Some (Inr 0, s')"
    and "parse_args args Config_init s = (Inr (Inr c), s)"
    and "backend c = ThreadPerConnection"
    and "trace s' = trace s @ tr" and "new_fds [] tr"
  shows "\<exists>lis sig q1 q2 evs evs' r1 r2 st ls k.
    0 \<le> lis \<and> 0 \<le> sig \<and>
    tr = startup (port c) 1024 lis sig @ [E_call Sys_getpid q1, E_call Sys_getpid q2] @
      evs @ evs' @ [E_call (Sys_close sig) r1, E_call (Sys_close lis) r2] \<and>
    echo_run sig (evs @ evs') idle = Some idle \<and> opens evs' = [] \<and> list_ex (ends_run sig) evs \<and>
    out s' = out s @ banner c (c_int q1) (c_int q2) @
      print_stats ThreadPerConnection (snapshot st) \<and>
    (\<forall>cn. cn \<noteq> Closed \<longrightarrow> counter_of cn st + due cn (concat ls) = due cn (charges sig evs)) \<and>
    length ls = length (opens evs) \<and> (\<forall>i < length ls. late sig evs (opens evs ! i) (ls ! i)) \<and>
    accepted st = of_nat (length (opens evs)) \<and> threads_spawned st = of_nat (length (opens evs)) \<and>
    Ev_Server.closed st = of_nat k \<and> length (closes evs) \<le> k \<and> k \<le> length (opens evs) \<and>
    eagain st = 0 \<and> err s' = err s \<and> mset (opens tr) = mset (closes tr)"
proof -
  from assms(1-3) have "run_server K (threads_class K sched) c s = Some (Inr 0, s')"
    by (simp add: main_def)
  from threads.run_server_ends [OF this] obtain v v' q1 q2 pre evs evs' post where
    ready: "threads_ready c pre v" and ran: "threads_ran v evs v'"
    and ended: "threads_ended v evs v' evs' post"
    and trace: "trace s' = trace s @ pre @ [E_call Sys_getpid q1, E_call Sys_getpid q2] @ evs @ evs' @ post"
    and out: "out s' = out s @ banner c (c_int q1) (c_int q2) @
      print_stats (backend c) (sc_stats (threads_class K sched) v')" "err s' = err s"
    and fds: "mset (opens pre) = mset (closes pre) + mset (threads_owns v)" "opens post = []"
      "mset (closes post) = mset (threads_owns v)" by blast
  let ?own = "threads_own (snd v)" and ?lis = "listener (snd v)" and ?sig = "signal (snd v)"
  let ?pre = "pre @ [E_call Sys_getpid q1, E_call Sys_getpid q2]"
  from ready have r: "0 \<le> ?lis" "0 \<le> ?sig" "pre = startup (port c) 1024 ?lis ?sig"
    by (simp_all add: threads_ready_def)
  from ended obtain r1 r2 where post: "post = [E_call (Sys_close ?sig) r1, E_call (Sys_close ?lis) r2]"
    by (auto simp: threads_ended_def)
  from trace assms(4) have tr: "tr = ?pre @ (evs @ evs') @ post" by simp
  from new_fds_suffix [of "[]" ?pre "(evs @ evs') @ post" ?own] assms(5) tr fds(1)
  have "new_fds ?own ((evs @ evs') @ post)" by (simp add: threads_owns_def)
  from new_fds_prefix [OF this] have new: "new_fds ?own (evs @ evs')" .
  from ended obtain sv where sv: "in_service ?own sv (evs @ evs')" "m_phase sv = M_end"
    and none: "opens evs' = []" by (auto simp: threads_ended_def)
  from r(1,2) have own: "?own = [?lis, ?sig]" by (simp add: threads_own_def only_valid_def)
  with sv(1) have "signal sv = ?sig"
    by (auto simp: in_service_def threads_own_def only_valid_def split: if_splits)
  with ended_idle [OF sv(1) new sv(2)] have
    idle: "echo_run ?sig (evs @ evs') idle = Some idle" "mset (opens (evs @ evs')) = mset (closes (evs @ evs'))"
    by simp_all
  define st where "st = stats (snd v')"
  from ran have ret: "in_service ?own (snd v') evs" "can_return (snd v')" by (simp_all add: threads_ran_def)
  from ret(1) own have sig: "signal (snd v') = ?sig"
    by (auto simp: in_service_def threads_own_def only_valid_def split: if_splits)
  define k where "k = length (filter gone (workers (snd v')))"
  from returned_counts [OF ret(1) new_fds_prefix [OF new] ret(2)] have counts:
    "accepted st = of_nat (length (opens evs))" "threads_spawned st = of_nat (length (opens evs))"
    "Ev_Server.closed st = of_nat k" "k \<le> length (opens evs)" by (simp_all add: st_def k_def)
  from returned_tally [OF ret(1) new_fds_prefix [OF new] ret(2), unfolded sig] obtain ls where tally:
    "length ls = length (opens evs)" "\<forall>i < length ls. late ?sig evs (opens evs ! i) (ls ! i)"
    "\<forall>cn. cn \<noteq> Closed \<longrightarrow> counter_of cn st + due cn (concat ls) = due cn (charges ?sig evs)"
    "eagain st = 0" "list_ex (ends_run ?sig) evs" "length (closes evs) \<le> k"
    unfolding st_def k_def by blast
  have printed: "out s' = out s @ banner c (c_int q1) (c_int q2) @
      print_stats ThreadPerConnection (snapshot st)"
    using out(1) assms(3) by (simp add: threads_class_def st_def)
  have all: "mset (opens tr) = mset (closes tr)"
    using fds idle(2) by (simp add: tr)
  have calls: "tr = startup (port c) 1024 ?lis ?sig @ [E_call Sys_getpid q1, E_call Sys_getpid q2] @
      evs @ evs' @ [E_call (Sys_close ?sig) r1, E_call (Sys_close ?lis) r2]"
    using tr by (simp add: r(3) post)
  show ?thesis
    by (rule exI [of _ ?lis], rule exI [of _ ?sig], rule exI [of _ q1], rule exI [of _ q2],
        rule exI [of _ evs], rule exI [of _ evs'], rule exI [of _ r1], rule exI [of _ r2],
        rule exI [of _ st], rule exI [of _ ls], rule exI [of _ k])
       (intro conjI r(1,2) calls idle(1) none tally printed counts out(2) all)
qed

text \<open>
  A run in which the connection is closed between the printed counters and the end: when the signal
  arrives the worker is at its read, and the destructor waits for it. What was printed before plays
  no role for the threads, so the evaluation leaves it open.
\<close>

definition late_script :: "answer list" where
  "late_script = [A_int 3, A_int 0, A_int 0, A_int 0, A_int 0, A_int 4, A_int 100, A_int 100,
     A_events [(3, [POLLIN])], A_int 7, A_int 0, A_bytes ''a'', A_int 1,
     A_events [(4, [POLLIN])], A_fail EAGAIN, A_bytes [], A_int 0, A_int 0, A_int 0]"

definition late_schedule :: "nat \<Rightarrow> thread" where
  "late_schedule n = (if 9 \<le> n \<and> n < 21 \<or> 27 \<le> n \<and> n < 32 then Worker 0 else Main)"

definition late_config :: Config where
  "late_config = Config_init\<lparr>backend := ThreadPerConnection\<rparr>"

definition late_started :: "bool \<times> thread_server \<times> int \<times> int \<times> (answer list) os" where
  "late_started =
     (let ((ok, error), sv, s) =
        Ev_Threads.start scripted (ThreadServer_init late_config) (Some []) (fresh_os late_script);
        (pid1, s) = call scripted Sys_getpid s; (pid2, s) = call scripted Sys_getpid s in
      (ok, sv, pid1, pid2, s))"

definition run_upto ::
  "nat \<Rightarrow> 'w kernel \<Rightarrow> (nat \<Rightarrow> thread) \<Rightarrow> thread_server \<Rightarrow> 'w os \<Rightarrow> (nat \<times> thread_server \<times> 'w os) option" where
  "run_upto k K sched sv s =
     (case scheduled_upto k (run_step K) sched snd 0 ((sv, s), False) of
        Some (Inr (n, (sv, s), _)) \<Rightarrow> Some (n, sv, s)
      | _ \<Rightarrow> None)"

definition destroy_upto ::
  "nat \<Rightarrow> 'w kernel \<Rightarrow> (nat \<Rightarrow> thread) \<Rightarrow> nat \<Rightarrow> thread_server \<Rightarrow> 'w os \<Rightarrow> 'w os option" where
  "destroy_upto k K sched n sv s =
     (case scheduled_upto k (server_step K) sched (\<lambda>(sv, s). m_phase sv = M_end) n
         (sv\<lparr>m_phase := M_returned\<rparr>, s) of
        Some (Inr (_, sv, s)) \<Rightarrow> Some (Socket_destroy K (listener sv) (Socket_destroy K (signal sv) s))
      | _ \<Rightarrow> None)"

lemma run_upto_run:
  "run_upto k K sched sv s = Some (n, sv', s') \<Longrightarrow>
    ThreadServer_run K sched (0, sv) s = Some (Inr ((n, sv'), s'))"
  by (auto simp: run_upto_def ThreadServer_run_def dest!: scheduled_upto_run
      split: option.splits sum.splits)

lemma destroy_upto_destroy:
  "destroy_upto k K sched n sv s = Some s' \<Longrightarrow> ThreadServer_destroy K sched (n, sv) s = Some (Inr s')"
  by (auto simp: destroy_upto_def ThreadServer_destroy_def dest!: scheduled_upto_run
      split: option.splits sum.splits)

lemma late_evaluated:
  "case late_started of (ok, sv, pid1, pid2, s) \<Rightarrow> ok \<and>
    (case run_upto 40 scripted late_schedule sv (put_out m s) of None \<Rightarrow> False
     | Some (n, sv, s) \<Rightarrow> accepted (stats sv) = 1 \<and> Ev_Server.closed (stats sv) = 0 \<and>
         (case destroy_upto 40 scripted late_schedule n sv (put_out m' s) of None \<Rightarrow> False
          | Some s \<Rightarrow> new_fds [] (trace s) \<and> closes (trace s) = [7, 4, 3] \<and> out s = m @ m'))"
  unfolding late_started_def late_config_def late_script_def ThreadServer_init_def Stats_init_def
    Config_init_def
  apply (simp add: Ev_Threads.start_def listen_tcp_def Socket_valid_def Socket_reset_def signal_fd_def
      run_simps)
  apply (simp add: run_upto_def scheduled_upto.simps late_schedule_def main_step_def worker_step_def
      run_simps can_return_def set_nodelay_def reported_def cannot_start_def vector_length_ok_def bump_def)
  apply (simp add: destroy_upto_def scheduled_upto.simps late_schedule_def main_step_def
      worker_step_def run_simps cannot_start_def Socket_destroy_def Socket_reset_def bump_def)
  apply (simp add: new_fds_def not_open_def All_less_Suc only_valid_def)
  done

text \<open>The printed counters miss what the workers still do: here the close of the only connection.\<close>

lemma printed_before_joined:
  "\<exists>s' sn pid1 pid2. main scripted free_ring (threads_class scripted late_schedule)
      [''--backend=threads''] (fresh_os late_script) = Some (Inr 0, s') \<and>
    out s' = banner late_config pid1 pid2 @ print_stats ThreadPerConnection sn \<and>
    sn_accepted sn = 1 \<and> sn_closed sn = 0 \<and> closes (trace s') = [7, 4, 3] \<and> new_fds [] (trace s')"
proof -
  let ?C = "threads_class scripted late_schedule"
  obtain ok e sv0 s0 where st: "Ev_Threads.start scripted (ThreadServer_init late_config) (Some [])
      (fresh_os late_script) = ((ok, e), sv0, s0)" by (metis surj_pair)
  obtain pid1 s1 where p1: "call scripted Sys_getpid s0 = (pid1, s1)" by (metis surj_pair)
  obtain pid2 s2 where p2: "call scripted Sys_getpid s1 = (pid2, s2)" by (metis surj_pair)
  let ?s = "put_out (banner late_config pid1 pid2) s2"
  have started: "late_started = (ok, sv0, pid1, pid2, s2)"
    by (simp add: late_started_def st p1 p2)
  from late_evaluated [of "banner late_config pid1 pid2" "[]"] obtain n sv s where
    ok and run: "run_upto 40 scripted late_schedule sv0 ?s = Some (n, sv, s)"
    and sn: "accepted (stats sv) = 1" "Ev_Server.closed (stats sv) = 0"
    unfolding started by (auto split: option.splits)
  let ?m = "print_stats ThreadPerConnection (snapshot (stats sv))"
  from late_evaluated [of "banner late_config pid1 pid2" ?m] run obtain s' where
    destroy: "destroy_upto 40 scripted late_schedule n sv (put_out ?m s) = Some s'"
    and fds: "new_fds [] (trace s')" "closes (trace s') = [7, 4, 3]"
      "out s' = banner late_config pid1 pid2 @ ?m"
    unfolding started by (auto split: option.splits)
  have args: "parse_args [''--backend=threads''] Config_init (fresh_os late_script) =
      (Inr (Inr late_config), fresh_os late_script)"
    by (simp add: parse_backend_def late_config_def Config_init_def)
  have "make_server late_config = ThreadServer late_config" "backend late_config = ThreadPerConnection"
    by (simp_all add: late_config_def)
  then have main: "main scripted free_ring ?C [''--backend=threads''] (fresh_os late_script) = Some (Inr 0, s')"
    using \<open>ok\<close> run_upto_run [OF run] destroy_upto_destroy [OF destroy]
    unfolding main_def args
    by (simp add: run_server_def leave_main_def threads_class_def st p1 p2 del: make_server.simps)
  with sn fds show ?thesis
    by (intro exI [of _ s'] exI [of _ "snapshot (stats sv)"] exI [of _ pid1] exI [of _ pid2])
      (simp add: snapshot_def)
qed

lemma evserver_main_threads_witness:
  "\<exists>s' st q1 q2 sig evs evs' ls. main scripted free_ring (threads_class scripted late_schedule)
      [''--backend=threads''] (fresh_os late_script) = Some (Inr 0, s') \<and>
    out s' = banner late_config (c_int q1) (c_int q2) @ print_stats ThreadPerConnection (snapshot st) \<and>
    requests st + due Requests (concat ls) = due Requests (charges sig evs) \<and>
    echo_run sig (evs @ evs') idle = Some idle \<and> accepted st = of_nat (length (opens evs)) \<and>
    err s' = [] \<and> mset (opens (trace s')) = {#3, 4, 7#}"
proof -
  from printed_before_joined obtain s' where run: "main scripted free_ring
      (threads_class scripted late_schedule) [''--backend=threads''] (fresh_os late_script) = Some (Inr 0, s')"
    and fds: "closes (trace s') = [7, 4, 3]" "new_fds [] (trace s')" by blast
  have args: "parse_args [''--backend=threads''] Config_init (fresh_os late_script) =
      (Inr (Inr late_config), fresh_os late_script)" "backend late_config = ThreadPerConnection"
    by (simp_all add: parse_backend_def late_config_def Config_init_def)
  have "trace s' = trace (fresh_os late_script) @ trace s'" by simp
  from evserver_main_threads [OF run args this fds(2)] obtain sig q1 q2 evs evs' st ls where
    r: "echo_run sig (evs @ evs') idle = Some idle" "err s' = err (fresh_os late_script)"
      "out s' = out (fresh_os late_script) @ banner late_config (c_int q1) (c_int q2) @
        print_stats ThreadPerConnection (snapshot st)"
      "\<forall>cn. cn \<noteq> Closed \<longrightarrow> counter_of cn st + due cn (concat ls) = due cn (charges sig evs)"
      "accepted st = of_nat (length (opens evs))" "mset (opens (trace s')) = mset (closes (trace s'))"
    by blast
  from spec [OF r(4), of Requests] have
    "requests st + due Requests (concat ls) = due Requests (charges sig evs)" by simp
  moreover from r(6) fds(1) have "mset (opens (trace s')) = {#3, 4, 7#}" by (simp add: add_mset_commute)
  ultimately show ?thesis using run r(1-3,5) by (metis append_Nil fresh_os_simps(4,5))
qed





end
