(* ===== verification/Ev_Loadgen.thy ===== *)
theory Ev_Loadgen
  imports Ev_Socket Doubles
begin

section \<open>evserver: the load generator\<close>

text \<open>
  Models \<open>evserver/bench/loadgen.cpp\<close>: the options, the idle connections, one worker, the
  percentiles and the report. The flag that stops the workers and the clock are read once in
  each round, so a worker takes their values as functions of the round: \<open>stop i\<close> is what the
  load sees before round \<open>i\<close>, and \<open>elapsed i\<close> is the time measured for it in microseconds. The
  worker is a \<^theory_text>\<open>partial_function\<close>, because it runs until it is told to stop. \<open>main\<close>, which runs
  the workers side by side, is in \<^theory_text>\<open>Ev_Load_Threads\<close>.
\<close>

record Options =
  o_port :: "16 word"
  o_threads :: int
  o_idle :: int
  o_seconds :: int
  o_payload :: nat

definition Options_init :: Options where
  "Options_init = \<lparr>o_port = 9000, o_threads = 8, o_idle = 0, o_seconds = 5, o_payload = 64\<rparr>"

record Result =
  r_requests :: "64 word"
  latencies_us :: "rat list"

definition Result_init :: Result where
  "Result_init = \<lparr>r_requests = 0, latencies_us = []\<rparr>"

subsection \<open>Options\<close>

text \<open>The loop over the arguments ends with an exit status, the options, or an exception.\<close>

fun loadgen_options :: "string list \<Rightarrow> Options \<Rightarrow> 'w os \<Rightarrow> (int + Options) cpp \<times> 'w os" where
  "loadgen_options [] opt s = (Inr (Inr opt), s)"
| "loadgen_options (arg # args) opt s =
     (if prefix ''--port='' arg then
        (case stoi (drop 7 arg) of
           Inl e \<Rightarrow> (Inl e, s)
         | Inr n \<Rightarrow> loadgen_options args (opt\<lparr>o_port := word_of_int n\<rparr>) s)
      else if prefix ''--threads='' arg then
        (case stoi (drop 10 arg) of
           Inl e \<Rightarrow> (Inl e, s)
         | Inr n \<Rightarrow> loadgen_options args (opt\<lparr>o_threads := n\<rparr>) s)
      else if prefix ''--idle='' arg then
        (case stoi (drop 7 arg) of
           Inl e \<Rightarrow> (Inl e, s)
         | Inr n \<Rightarrow> loadgen_options args (opt\<lparr>o_idle := n\<rparr>) s)
      else if prefix ''--seconds='' arg then
        (case stoi (drop 10 arg) of
           Inl e \<Rightarrow> (Inl e, s)
         | Inr n \<Rightarrow> loadgen_options args (opt\<lparr>o_seconds := n\<rparr>) s)
      else if prefix ''--payload='' arg then
        (case stoul (drop 10 arg) of
           Inl e \<Rightarrow> (Inl e, s)
         | Inr n \<Rightarrow> loadgen_options args (opt\<lparr>o_payload := n\<rparr>) s)
      else (Inr (Inl 2), put_err (''Usage: loadgen [--port=N] [--threads=N] [--idle=N] '' @
        ''[--seconds=N] [--payload=N]'' @ newline) s))"

subsection \<open>A worker\<close>

text \<open>Read until \<open>len\<close> bytes have arrived; the result is false when a read brings none.\<close>

function read_echo :: "'w kernel \<Rightarrow> int \<Rightarrow> nat \<Rightarrow> nat \<Rightarrow> 'w os \<Rightarrow> bool \<times> 'w os" where
  "read_echo K fd len got s =
     (if got < len then
        let ((n, _), s) = sys_read K fd (len - got) s in
        if n \<le> 0 then (False, s) else read_echo K fd len (got + nat n) s
      else (True, s))"
  by pat_completeness auto
termination
  by (relation "measure (\<lambda>(K, fd, len, got, s). len - got)") auto

declare read_echo.simps [simp del]

partial_function (option) worker_loop ::
  "'w kernel \<Rightarrow> int \<Rightarrow> nat \<Rightarrow> (nat \<Rightarrow> bool) \<Rightarrow> (nat \<Rightarrow> rat) \<Rightarrow> nat \<Rightarrow> Result \<Rightarrow> 'w os \<Rightarrow>
    (Result \<times> 'w os) option" where
  "worker_loop K fd len stop elapsed i res s =
     (if stop i then Some (res, s)
      else let (n, s) = sys_write K fd (replicate len CHR ''x'') s in
      if n \<noteq> int len then Some (res, s)
      else let (full, s) = read_echo K fd len 0 s in
      if \<not> full then Some (res, s)
      else worker_loop K fd len stop elapsed (Suc i)
        (res\<lparr>latencies_us := latencies_us res @ [elapsed i], r_requests := r_requests res + 1\<rparr>) s)"

definition worker ::
  "'w kernel \<Rightarrow> Options \<Rightarrow> (nat \<Rightarrow> bool) \<Rightarrow> (nat \<Rightarrow> rat) \<Rightarrow> Result \<Rightarrow> 'w os \<Rightarrow>
    (Result \<times> 'w os) cpp option" where
  "worker K opt stop elapsed res s =
     (let ((sock, _), s) = connect_tcp K (o_port opt) (Some []) s in
      if \<not> Socket_valid sock then Some (Inr (res, Socket_destroy K sock s))
      else let (_, s) = set_nodelay K sock s in
      if \<not> vector_length_ok 1 (o_payload opt) then Some (Inl Length_Error)
      else map_option (\<lambda>(res, s). Inr (res, Socket_destroy K sock s))
          (worker_loop K sock (o_payload opt) stop elapsed 0 res s))"

subsection \<open>Idle connections\<close>

text \<open>The loop stops at the first connection that fails; \<open>k\<close> connections are still to open.\<close>

fun open_idle :: "'w kernel \<Rightarrow> 16 word \<Rightarrow> nat \<Rightarrow> int \<Rightarrow> int list \<Rightarrow> 'w os \<Rightarrow> int list \<times> 'w os" where
  "open_idle K p 0 i idle s = (idle, s)"
| "open_idle K p (Suc k) i idle s =
     (let ((sock, error), s) = connect_tcp K p (Some []) s in
      if \<not> Socket_valid sock then
        (idle, Socket_destroy K sock (put_err (''idle connection '' @ to_string i @ '' failed: '' @
          the error @ newline) s))
      else open_idle K p k (i + 1) (idle @ [sock]) s)"

definition loadgen_banner :: "Options \<Rightarrow> nat \<Rightarrow> string" where
  "loadgen_banner opt idle =
     ''loadgen: '' @ to_string (o_threads opt) @ '' active, '' @ to_string (int idle) @ '' idle, '' @
     to_string (int (o_payload opt)) @ '' byte payload, '' @ to_string (o_seconds opt) @ ''s'' @ newline"

subsection \<open>The report\<close>

text \<open>\<open>p / 100.0\<close> and its product with the last index are doubles; the cast truncates.\<close>

definition percentile :: "rat list \<Rightarrow> rat \<Rightarrow> rat" where
  "percentile xs p =
     (if xs = [] then 0
      else let index = nat \<lfloor>to_double (to_double (p / 100) *
             to_double (of_nat (length xs - 1)))\<rfloor> in
        xs ! min index (length xs - 1))"

definition total_requests :: "Result list \<Rightarrow> 64 word" where
  "total_requests rs = foldl (\<lambda>total r. total + r_requests r) 0 rs"

definition all_latencies :: "Result list \<Rightarrow> rat list" where
  "all_latencies rs = sort (foldl (\<lambda>all r. all @ latencies_us r) [] rs)"

definition report :: "Result list \<Rightarrow> rat \<Rightarrow> string" where
  "report rs elapsed =
     (let total = total_requests rs; all = all_latencies rs in
      newline @ ''  requests      '' @ digits 10 (unat total) @ newline @
      ''  throughput    '' @
        to_string (round_half_even (to_double (to_double (of_nat (unat total)) / elapsed))) @
        '' req/s'' @ newline @
      (if all \<noteq> [] then
        ''  latency p50   '' @ format_fixed 1 (percentile all 50) @ '' us'' @ newline @
        ''  latency p99   '' @ format_fixed 1 (percentile all 99) @ '' us'' @ newline @
        ''  latency max   '' @ format_fixed 1 (last all) @ '' us'' @ newline else []))"

subsection \<open>A request is a full round trip\<close>

text \<open>Reads of one descriptor that bring bytes until there are \<open>len\<close>, and then no more.\<close>

fun echo_reads :: "int \<Rightarrow> nat \<Rightarrow> nat \<Rightarrow> event list \<Rightarrow> bool" where
  "echo_reads fd len got [] \<longleftrightarrow> got = len"
| "echo_reads fd len got (E_read fd' m (Inr d) # evs) \<longleftrightarrow>
     fd' = fd \<and> m = len - got \<and> d \<noteq> [] \<and> length d \<le> m \<and> echo_reads fd len (got + length d) evs"
| "echo_reads fd len got _ \<longleftrightarrow> False"

text \<open>One write of the whole payload, and reads that bring as many bytes back.\<close>

fun round_trip :: "int \<Rightarrow> nat \<Rightarrow> event list \<Rightarrow> bool" where
  "round_trip fd len (E_write fd' d (Inr n) # evs) \<longleftrightarrow>
     fd' = fd \<and> d = replicate len CHR ''x'' \<and> n = len \<and> echo_reads fd len 0 evs"
| "round_trip fd len _ \<longleftrightarrow> False"

definition starts_with :: "(event list \<Rightarrow> bool) \<Rightarrow> event list \<Rightarrow> bool" where
  "starts_with P evs \<longleftrightarrow> (\<exists>p. prefix p evs \<and> P p)"

lemma read_echo_trace:
  assumes "read_echo K fd len got s = (full, s')"
  shows "\<exists>evs. trace s' = trace s @ evs \<and> closes evs = [] \<and> concat (map opened_fd evs) = [] \<and>
    (if full then got \<le> len \<longrightarrow> echo_reads fd len got evs
     else \<forall>tail. \<not> starts_with (echo_reads fd len got) (evs @ tail))"
  using assms
proof (induction K fd len got s rule: read_echo.induct)
  case (1 K fd len got s)
  show ?case
  proof (cases "got < len")
    case False
    with "1.prems" have "full" "s' = s" by (simp_all add: read_echo.simps [of K fd len got s])
    with False show ?thesis by (intro exI [of _ "[]"]) simp
  next
    case got: True
    obtain n d s1 where r: "sys_read K fd (len - got) s = ((n, d), s1)" by (metis prod.exhaust)
    from sys_read_trace [OF r] obtain x where x: "trace s1 = trace s @ [E_read fd (len - got) x]"
      "(n, d) = filled x" "length d \<le> len - got" by blast
    have step: "read_echo K fd len got s =
        (if n \<le> 0 then (False, s1) else read_echo K fd len (got + nat n) s1)"
      using got r by (simp add: read_echo.simps [of K fd len got s])
    have plain: "closes [E_read fd (len - got) x] = []" "opened_fd (E_read fd (len - got) x) = []"
      by (simp_all add: closes_def List.map_filter_def)
    show ?thesis
    proof (cases "n \<le> 0")
      case True
      then have bad: "x = Inl e \<or> x = Inr []" if "x = Inl e \<or> (\<exists>d. x = Inr d)" for e
        using x(2) that by (auto simp: filled_def)
      have "\<not> echo_reads fd len got p" if "prefix p (E_read fd (len - got) x # tail)" for p tail
        using that True x(2) got by (cases p; cases x) (auto simp: filled_def)
      then show ?thesis using True step "1.prems" x(1) plain
        by (intro exI [of _ "[E_read fd (len - got) x]"]) (auto simp: starts_with_def)
    next
      case False
      with x(2) have xd: "x = Inr d" "n = int (length d)" "d \<noteq> []"
        by (auto simp: filled_def split: sum.splits)
      from False step "1.prems" have "read_echo K fd len (got + nat n) s1 = (full, s')" by simp
      from "1.IH" [OF got refl r [symmetric] refl False this] obtain evs
        where evs: "trace s' = trace s1 @ evs" "closes evs = []" "concat (map opened_fd evs) = []"
        "if full then got + nat n \<le> len \<longrightarrow> echo_reads fd len (got + nat n) evs
         else \<forall>tail. \<not> starts_with (echo_reads fd len (got + nat n)) (evs @ tail)" by blast
      have no: "\<not> starts_with (echo_reads fd len got) (E_read fd (len - got) (Inr d) # evs @ tail)"
        if "\<not> full" for tail
      proof
        assume "starts_with (echo_reads fd len got) (E_read fd (len - got) (Inr d) # evs @ tail)"
        then obtain p where p: "prefix p (E_read fd (len - got) (Inr d) # evs @ tail)"
          "echo_reads fd len got p" by (auto simp: starts_with_def)
        with got obtain p' where "p = E_read fd (len - got) (Inr d) # p'" "prefix p' (evs @ tail)"
          by (cases p) auto
        with p(2) evs(4) that xd(2) show False by (auto simp: starts_with_def)
      qed
      from evs no x plain xd show ?thesis
        by (intro exI [of _ "E_read fd (len - got) x # evs"])
           (auto simp: closes_def List.map_filter_def)
    qed
  qed
qed

text \<open>
  What a worker does from round \<open>i\<close> on: full round trips, each counted once with its time,
  and then at most one that is not completed; none begins after the flag was seen.
\<close>

definition worked ::
  "int \<Rightarrow> nat \<Rightarrow> (nat \<Rightarrow> bool) \<Rightarrow> (nat \<Rightarrow> rat) \<Rightarrow> nat \<Rightarrow> Result \<Rightarrow> Result \<Rightarrow>
    event list list \<Rightarrow> event list \<Rightarrow> bool" where
  "worked fd len stop elapsed i res res' rounds rest \<longleftrightarrow>
     (\<forall>evs \<in> set rounds. round_trip fd len evs) \<and>
     (\<forall>c r. \<not> starts_with (round_trip fd len) (rest @ [E_call c r])) \<and>
     r_requests res' = r_requests res + of_nat (length rounds) \<and>
     latencies_us res' = latencies_us res @ map elapsed [i..<i + length rounds] \<and>
     (\<forall>k < length rounds. \<not> stop (i + k)) \<and> (rest = [] \<longleftrightarrow> stop (i + length rounds))"

definition transfers :: "event list \<Rightarrow> bool" where
  "transfers evs \<longleftrightarrow> closes evs = [] \<and> concat (map opened_fd evs) = []"

lemma transfers_append [simp]: "transfers (xs @ ys) \<longleftrightarrow> transfers xs \<and> transfers ys"
  by (auto simp: transfers_def)

lemma transfers_write [simp]: "transfers []" "transfers [E_write fd d x]"
  by (simp_all add: transfers_def closes_def List.map_filter_def)

lemma transfers_Cons [simp]: "transfers (E_write fd d x # evs) \<longleftrightarrow> transfers evs"
  using transfers_append [of "[E_write fd d x]" evs] by simp

lemma not_starts_round:
  assumes "\<not> (\<exists>n. x = Inr n \<and> n = len) \<or> \<not> starts_with (echo_reads fd len 0) evs"
  shows "\<not> starts_with (round_trip fd len) (E_write fd d x # evs)"
proof
  assume "starts_with (round_trip fd len) (E_write fd d x # evs)"
  then obtain p where "prefix p (E_write fd d x # evs)" "round_trip fd len p"
    by (auto simp: starts_with_def)
  with assms show False
    by (cases p; cases x) (auto simp: starts_with_def)
qed

lemma worked_Suc:
  assumes "round_trip fd len evs" and "\<not> stop i"
    and "worked fd len stop elapsed (Suc i) (res\<lparr>latencies_us := latencies_us res @ [elapsed i],
      r_requests := r_requests res + 1\<rparr>) res' rounds rest"
  shows "worked fd len stop elapsed i res res' (evs # rounds) rest"
proof -
  have "[i..<i + length (evs # rounds)] = i # [Suc i..<Suc i + length rounds]"
    by (simp add: upt_conv_Cons del: upt_Suc)
  moreover have "\<not> stop (i + k)" if "k < length (evs # rounds)" for k
    using assms that by (cases k) (auto simp: worked_def)
  ultimately show ?thesis
    using assms by (simp add: worked_def add.assoc del: upt_Suc)
qed

lemma worker_loop_trace:
  assumes "worker_loop K fd len stop elapsed i res s = Some (res', s')"
  shows "\<exists>rounds rest. trace s' = trace s @ concat rounds @ rest \<and> transfers (concat rounds @ rest) \<and>
    worked fd len stop elapsed i res res' rounds rest"
proof -
  let ?P = "\<lambda>K fd len stop elapsed i res s (res', s').
    \<exists>rounds rest. trace s' = trace s @ concat rounds @ rest \<and> transfers (concat rounds @ rest) \<and>
      worked fd len stop elapsed i res res' rounds rest"
  have "?P K fd len stop elapsed i res s (res', s')"
  proof (rule worker_loop.raw_induct [where P = ?P, OF _ assms], goal_cases)
    case (1 f K fd len stop elapsed i res s r)
    obtain res' s' where r: "r = (res', s')" by (metis surj_pair)
    note IH = "1"(1) and eq = "1"(2) [unfolded r]
    let ?d = "replicate len CHR ''x''"
    obtain n s1 where wr: "sys_write K fd ?d s = (n, s1)" by (metis surj_pair)
    from sys_write_trace [OF wr] obtain x where x: "trace s1 = trace s @ [E_write fd ?d x]"
      "n = (case x of Inl _ \<Rightarrow> -1 | Inr k \<Rightarrow> int k)" by blast
    obtain full s2 where rd: "read_echo K fd len 0 s1 = (full, s2)" by (metis surj_pair)
    from read_echo_trace [OF rd] obtain evs where evs: "trace s2 = trace s1 @ evs" "transfers evs"
      "if full then 0 \<le> len \<longrightarrow> echo_reads fd len 0 evs
       else \<forall>tail. \<not> starts_with (echo_reads fd len 0) (evs @ tail)"
      unfolding transfers_def by blast
    show ?case
    proof (cases "stop i")
      case True
      with eq have "res' = res" "s' = s" by simp_all
      moreover have "\<not> starts_with (round_trip fd len) [E_call c r]" for c r
        by (auto simp: starts_with_def prefix_Cons)
      ultimately show ?thesis using True
        unfolding r prod.case
        by (intro exI [of _ "[]"]) (simp add: worked_def)
    next
      case go: False
      show ?thesis
      proof (cases "n = int len \<and> full")
        case False
        then have ended: "res' = res \<and> (\<exists>more. trace s' = trace s @ E_write fd ?d x # more \<and>
            transfers more \<and>
            (\<forall>tail. \<not> starts_with (round_trip fd len) (E_write fd ?d x # more @ tail)))"
        proof (cases "n = int len")
          case True
          with False eq go wr rd have "res' = res" "s' = s2" by simp_all
          with False True evs x(1) show ?thesis
            by (auto intro!: exI [of _ evs] not_starts_round)
        next
          case bad: False
          with eq go wr have "res' = res" "s' = s1" by simp_all
          moreover from bad x(2) have "\<not> (\<exists>k. x = Inr k \<and> k = len)" by auto
          ultimately show ?thesis using x(1)
            by (auto intro!: exI [of _ "[]"] not_starts_round)
        qed
        then obtain more where "res' = res" "trace s' = trace s @ E_write fd ?d x # more"
          "transfers more" "\<And>tail. \<not> starts_with (round_trip fd len) (E_write fd ?d x # more @ tail)"
          by blast
        with go show ?thesis
          unfolding r prod.case
          by (intro exI [of _ "[]"] exI [of _ "E_write fd ?d x # more"]) (simp add: worked_def)
      next
        case True
        let ?res = "res\<lparr>latencies_us := latencies_us res @ [elapsed i],
          r_requests := r_requests res + 1\<rparr>"
        from True eq go wr rd have "f K fd len stop elapsed (Suc i) ?res s2 = Some (res', s')" by simp
        from IH [OF this] obtain rounds rest where w: "trace s' = trace s2 @ concat rounds @ rest"
          "transfers (concat rounds @ rest)" "worked fd len stop elapsed (Suc i) ?res res' rounds rest"
          by auto
        from True x(2) have "x = Inr len" by (auto split: sum.splits)
        with True evs(3) have "round_trip fd len (E_write fd ?d x # evs)" by simp
        with w(3) go have "worked fd len stop elapsed i res res' ((E_write fd ?d x # evs) # rounds) rest"
          by (intro worked_Suc)
        moreover have "trace s' = trace s @ concat ((E_write fd ?d x # evs) # rounds) @ rest"
          using w(1) evs(1) x(1) by simp
        moreover have "transfers (concat ((E_write fd ?d x # evs) # rounds) @ rest)"
          using w(2) evs(2) by simp
        ultimately show ?thesis unfolding r prod.case by blast
      qed
    qed
  qed
  then show ?thesis by simp
qed

text \<open>Calls that only connect, and sockets that are closed as often as they are created.\<close>

definition calls_only :: "event list \<Rightarrow> bool" where
  "calls_only evs \<longleftrightarrow> (\<forall>ev \<in> set evs. \<exists>c r. ev = E_call c r)"

definition balanced :: "event list \<Rightarrow> bool" where
  "balanced evs \<longleftrightarrow> mset (concat (map opened_fd evs)) = mset (closes evs)"

lemma connect_tcp_extends:
  assumes "connect_tcp K p error s = ((fd, error'), s')"
  shows "\<exists>evs. extends evs s s' \<and> calls_only evs \<and>
    mset (opens evs) = mset (closes evs) + mset (only_valid fd)"
proof -
  obtain n s1 where so: "call K Sys_socket s = (n, s1)" by fastforce
  from call_trace [OF so] obtain x where x: "trace s1 = trace s @ [E_call Sys_socket x]" "n = c_int x"
    "out s1 = out s" "err s1 = err s" by blast
  obtain m s2 where co: "call K (Sys_connect n INADDR_LOOPBACK p) s1 = (m, s2)" by fastforce
  from call_trace [OF co] obtain y where
    y: "trace s2 = trace s1 @ [E_call (Sys_connect n INADDR_LOOPBACK p) y]"
    "out s2 = out s1" "err s2 = err s1" by blast
  note ev = extends_def closes_def List.map_filter_def calls_only_def only_valid_def
  show ?thesis
  proof (cases "0 \<le> n \<and> m \<noteq> 0")
    case True
    with Socket_destroy_eq [of n K s2] obtain z
      where "extends [E_call (Sys_close n) z] s2 (Socket_destroy K n s2)" by (auto simp: extends_def)
    with True assms so co x y show ?thesis
      by (intro exI [of _ "[E_call Sys_socket x, E_call (Sys_connect n INADDR_LOOPBACK p) y,
            E_call (Sys_close n) z]"])
         (auto simp: connect_tcp_def Socket_valid_def ev)
  next
    case False
    show ?thesis
    proof (cases "0 \<le> n")
      case True
      with False assms so co x y show ?thesis
        by (intro exI [of _ "[E_call Sys_socket x, E_call (Sys_connect n INADDR_LOOPBACK p) y]"])
           (auto simp: connect_tcp_def Socket_valid_def ev)
    next
      case neg: False
      with assms so x show ?thesis
        by (intro exI [of _ "[E_call Sys_socket x]"])
           (auto simp: connect_tcp_def Socket_valid_def ev)
    qed
  qed
qed

lemma worker_trace:
  assumes "worker K opt stop elapsed res s = Some (Inr (res', s'))"
  shows "\<exists>fd pre rounds rest. trace s' = trace s @ pre @ concat rounds @ rest \<and>
    calls_only pre \<and> (\<forall>evs \<in> set rounds. round_trip fd (o_payload opt) evs) \<and>
    \<not> starts_with (round_trip fd (o_payload opt)) rest \<and>
    r_requests res' = r_requests res + of_nat (length rounds) \<and>
    latencies_us res' = latencies_us res @ map elapsed [0..<length rounds] \<and>
    (\<forall>k < length rounds. \<not> stop k) \<and> balanced (pre @ concat rounds @ rest)"
proof -
  obtain fd e s1 where c: "connect_tcp K (o_port opt) (Some []) s = ((fd, e), s1)"
    by (metis prod.exhaust)
  from connect_tcp_extends [OF c] obtain evs where evs: "trace s1 = trace s @ evs" "calls_only evs"
    "mset (concat (map opened_fd evs)) = mset (closes evs) + mset (only_valid fd)"
    by (auto simp: extends_def opens_def)
  show ?thesis
  proof (cases "0 \<le> fd")
    case False
    with assms c have "res' = res" "s' = s1" by (simp_all add: worker_def Socket_valid_def)
    with evs False show ?thesis
      by (intro exI [of _ fd] exI [of _ evs] exI [of _ "[]"])
         (simp add: starts_with_def balanced_def only_valid_def)
  next
    case fd: True
    obtain n s2 where so: "call K (Sys_setsockopt fd TCP_NODELAY) s1 = (n, s2)" by fastforce
    from call_trace [OF so] obtain x where
      x: "trace s2 = trace s1 @ [E_call (Sys_setsockopt fd TCP_NODELAY) x]" by blast
    from assms c fd so obtain s3 where
      w: "worker_loop K fd (o_payload opt) stop elapsed 0 res s2 = Some (res', s3)"
      and s': "s' = Socket_destroy K fd s3"
      by (auto simp: worker_def Socket_valid_def set_nodelay_def Let_def split: if_splits prod.splits)
    from worker_loop_trace [OF w] obtain rounds rest where
      r: "trace s3 = trace s2 @ concat rounds @ rest" "transfers (concat rounds @ rest)"
        "worked fd (o_payload opt) stop elapsed 0 res res' rounds rest" by blast
    from Socket_destroy_eq [OF fd, of K s3] s' obtain y where
      y: "trace s' = trace s3 @ [E_call (Sys_close fd) y]" by auto
    have bal: "balanced ((evs @ [E_call (Sys_setsockopt fd TCP_NODELAY) x]) @ concat rounds @
        rest @ [E_call (Sys_close fd) y])"
      using evs(3) r(2) fd
      by (simp add: balanced_def transfers_def only_valid_def closes_def List.map_filter_def)
    have "calls_only (evs @ [E_call (Sys_setsockopt fd TCP_NODELAY) x])"
      using evs(2) by (simp add: calls_only_def)
    moreover have "trace s' = trace s @ (evs @ [E_call (Sys_setsockopt fd TCP_NODELAY) x]) @
        concat rounds @ rest @ [E_call (Sys_close fd) y]"
      using evs(1) x r(1) y by simp
    ultimately show ?thesis
      using r(3) bal unfolding worked_def add_0 by blast
  qed
qed

lemma list_all_upt: "list_all P [0..<n] \<longleftrightarrow> (\<forall>k < n. P k)"
  by (auto simp: list_all_iff)

text \<open>Every request that a worker of the load generator counts is one full round trip: the
  payload written in one piece, then reads that bring exactly as many bytes, before the next
  request begins. Each has its own latency, none begins after the stop flag was seen, an
  incomplete one at the end is not counted, and the socket is closed exactly once.
\<close>

theorem worker_counts_round_trips:
  assumes "worker K opt stop elapsed res s = Some (Inr (res', s'))"
  shows "\<exists>fd pre rounds rest. trace s' = trace s @ pre @ concat rounds @ rest \<and>
    calls_only pre \<and> list_all (round_trip fd (o_payload opt)) rounds \<and>
    \<not> starts_with (round_trip fd (o_payload opt)) rest \<and>
    r_requests res' = r_requests res + of_nat (length rounds) \<and>
    latencies_us res' = latencies_us res @ map elapsed [0..<length rounds] \<and>
    list_all (\<lambda>k. \<not> stop k) [0..<length rounds] \<and> balanced (pre @ concat rounds @ rest)"
  using worker_trace [OF assms] unfolding list_all_upt unfolding list_all_iff .

definition loadgen_script :: "answer list" where
  "loadgen_script = [A_int 3, A_int 0, A_int 0, A_int 2, A_bytes ''x'', A_bytes ''x'', A_int 2,
     A_bytes [], A_int 0]"

theorem worker_counts_round_trips_witness:
  "\<exists>res' s'. worker scripted (Options_init\<lparr>o_payload := 2\<rparr>) (\<lambda>k. k = 5) of_nat Result_init
      (fresh_os loadgen_script) = Some (Inr (res', s')) \<and> latencies_us res' = [0] \<and>
    (\<exists>fd pre rounds rest. trace s' = trace (fresh_os loadgen_script) @ pre @ concat rounds @ rest \<and>
      calls_only pre \<and>
      list_all (round_trip fd (o_payload (Options_init\<lparr>o_payload := 2\<rparr>))) rounds \<and>
      \<not> starts_with (round_trip fd (o_payload (Options_init\<lparr>o_payload := 2\<rparr>))) rest \<and>
      r_requests res' = r_requests Result_init + of_nat (length rounds) \<and>
      latencies_us res' = latencies_us Result_init @ map of_nat [0..<length rounds] \<and>
      list_all (\<lambda>k. \<not> k = 5) [0..<length rounds] \<and> balanced (pre @ concat rounds @ rest))"
proof -
  have v: "vector_length_ok 1 2" by (simp add: vector_length_ok_def)
  have "\<exists>res' s'. worker scripted (Options_init\<lparr>o_payload := 2\<rparr>) (\<lambda>k. k = 5) of_nat Result_init
      (fresh_os loadgen_script) = Some (Inr (res', s')) \<and> latencies_us res' = [0]"
    by (simp add: worker_def connect_tcp_def set_nodelay_def Socket_valid_def Socket_destroy_def
        Socket_reset_def worker_loop.simps read_echo.simps run_simps loadgen_script_def
        Options_init_def Result_init_def v [unfolded One_nat_def numeral_2_eq_2] numeral_2_eq_2)
  then obtain res' s' where w: "worker scripted (Options_init\<lparr>o_payload := 2\<rparr>) (\<lambda>k. k = 5) of_nat
      Result_init (fresh_os loadgen_script) = Some (Inr (res', s'))" "latencies_us res' = [0]" by blast
  from worker_counts_round_trips [OF w(1)] w show ?thesis
    by (intro exI [of _ res'] exI [of _ s'] conjI)
qed

end
