(* ===== verification/Ev_Load_Threads.thy ===== *)
theory Ev_Load_Threads
  imports Ev_Loadgen Schedule
begin

section \<open>evserver: the threads of the load generator\<close>

text \<open>
  Models \<open>main\<close> of \<open>evserver/bench/loadgen.cpp\<close> with its threads. A worker is \<open>worker\<close> of
  \<^theory_text>\<open>Ev_Loadgen\<close> cut into steps: connecting, a test of the flag, a write, a read, the end of a
  round, the destructor of the socket. \<open>main\<close> starts the workers, sleeps, sets the flag and joins
  them. A run follows a schedule (\<^theory_text>\<open>Schedule\<close>), which also says how long \<open>main\<close> sleeps: until it is
  scheduled again. The clock is a parameter: \<open>elapsed j i\<close> is the time that worker \<open>j\<close> measures for
  its round \<open>i\<close>, in microseconds, and \<open>duration\<close> the seconds that \<open>main\<close> measures.
\<close>

subsection \<open>The steps\<close>

datatype load_phase = L_start | L_check | L_send | L_read nat | L_close | L_done

record load_worker =
  lw_sock :: int
  lw_phase :: load_phase
  lw_result :: Result

definition load_worker_init :: load_worker where
  "load_worker_init = \<lparr>lw_sock = -1, lw_phase = L_start, lw_result = Result_init\<rparr>"

definition load_op ::
  "'w kernel \<Rightarrow> Options \<Rightarrow> (nat \<Rightarrow> rat) \<Rightarrow> bool \<Rightarrow> load_worker \<Rightarrow> 'w os \<Rightarrow> (load_worker \<times> 'w os) cpp" where
  "load_op K opt elapsed stop w s = (case lw_phase w of
     L_start \<Rightarrow>
       (let ((sock, _), s) = connect_tcp K (o_port opt) (Some []) s; w = w\<lparr>lw_sock := sock\<rparr> in
        if \<not> Socket_valid sock then Inr (w\<lparr>lw_phase := L_close\<rparr>, s)
        else let (_, s) = set_nodelay K sock s in
        if \<not> vector_length_ok 1 (o_payload opt) then Inl Length_Error
        else Inr (w\<lparr>lw_phase := L_check\<rparr>, s))
   | L_check \<Rightarrow> Inr (w\<lparr>lw_phase := (if stop then L_close else L_send)\<rparr>, s)
   | L_send \<Rightarrow>
       (let (n, s) = sys_write K (lw_sock w) (replicate (o_payload opt) CHR ''x'') s in
        Inr (w\<lparr>lw_phase := (if n \<noteq> int (o_payload opt) then L_close else L_read 0)\<rparr>, s))
   | L_read got \<Rightarrow>
       (if got < o_payload opt then
          let ((n, _), s) = sys_read K (lw_sock w) (o_payload opt - got) s in
          Inr (w\<lparr>lw_phase := (if n \<le> 0 then L_close else L_read (got + nat n))\<rparr>, s)
        else
          let res = lw_result w in
          Inr (w\<lparr>lw_phase := L_check,
                 lw_result := res\<lparr>latencies_us := latencies_us res @ [elapsed (length (latencies_us res))],
                   r_requests := r_requests res + 1\<rparr>\<rparr>, s))
   | L_close \<Rightarrow> Inr (w\<lparr>lw_phase := L_done\<rparr>, Socket_destroy K (lw_sock w) s)
   | L_done \<Rightarrow> Inr (w, s))"

text \<open>
  Where \<open>main\<close> is: starting workers, asleep, at the join of a worker, past the last join.
\<close>

datatype load_main_phase = G_spawn | G_sleep | G_join nat | G_end

record load_state =
  ls_stop :: bool
  ls_workers :: "load_worker list"
  ls_main :: load_main_phase

definition load_init :: load_state where
  "load_init = \<lparr>ls_stop = False, ls_workers = [], ls_main = G_spawn\<rparr>"

definition load_main_op :: "Options \<Rightarrow> load_state \<Rightarrow> load_state" where
  "load_main_op opt g = (case ls_main g of
     G_spawn \<Rightarrow>
       (if int (length (ls_workers g)) < o_threads opt
        then g\<lparr>ls_workers := ls_workers g @ [load_worker_init]\<rparr>
        else g\<lparr>ls_main := G_sleep\<rparr>)
   | G_sleep \<Rightarrow> g\<lparr>ls_stop := True, ls_main := G_join 0\<rparr>
   | G_join i \<Rightarrow>
       (if i < length (ls_workers g) then
          if lw_phase (ls_workers g ! i) = L_done then g\<lparr>ls_main := G_join (i + 1)\<rparr> else g
        else g\<lparr>ls_main := G_end\<rparr>)
   | G_end \<Rightarrow> g)"

fun load_step ::
  "'w kernel \<Rightarrow> Options \<Rightarrow> (nat \<Rightarrow> nat \<Rightarrow> rat) \<Rightarrow> thread \<Rightarrow> load_state \<times> 'w os \<Rightarrow> (load_state \<times> 'w os) cpp" where
  "load_step K opt elapsed Main (g, s) = Inr (load_main_op opt g, s)"
| "load_step K opt elapsed (Worker j) (g, s) =
     (if j < length (ls_workers g) then
        case load_op K opt (elapsed j) (ls_stop g) (ls_workers g ! j) s of
          Inl e \<Rightarrow> Inl e
        | Inr (w, s) \<Rightarrow> Inr (g\<lparr>ls_workers := (ls_workers g)[j := w]\<rparr>, s)
      else Inr (g, s))"

definition load_ended :: "load_state \<times> 'w os \<Rightarrow> bool" where
  "load_ended c \<longleftrightarrow> ls_main (fst c) = G_end"

text \<open>The results that the workers leave behind.\<close>

definition load_threads ::
  "'w kernel \<Rightarrow> (nat \<Rightarrow> thread) \<Rightarrow> (nat \<Rightarrow> nat \<Rightarrow> rat) \<Rightarrow> Options \<Rightarrow> 'w os \<Rightarrow>
    (Result list \<times> 'w os) cpp option" where
  "load_threads K sched elapsed opt s =
     (case scheduled (load_step K opt elapsed) sched load_ended 0 (load_init, s) of
        None \<Rightarrow> None
      | Some (Inl e) \<Rightarrow> Some (Inl e)
      | Some (Inr (n, g, s)) \<Rightarrow> Some (Inr (map lw_result (ls_workers g), s)))"

text \<open>
  \<open>main\<close>: a negative number of connections or threads is a size that no vector can have. The
  idle sockets are closed when \<open>main\<close> returns.
\<close>

definition size_of_int :: "int \<Rightarrow> nat" where
  "size_of_int n = nat (n mod 2 ^ 64)"

definition loadgen_main ::
  "'w kernel \<Rightarrow> (nat \<Rightarrow> thread) \<Rightarrow> (nat \<Rightarrow> nat \<Rightarrow> rat) \<Rightarrow> rat \<Rightarrow> string list \<Rightarrow> 'w os \<Rightarrow>
    (int cpp \<times> 'w os) option" where
  "loadgen_main K sched elapsed duration args s =
     (case loadgen_options args Options_init s of
        (Inl e, s) \<Rightarrow> Some (Inl e, s)
      | (Inr (Inl status), s) \<Rightarrow> Some (Inr status, s)
      | (Inr (Inr opt), s) \<Rightarrow>
          if \<not> vector_length_ok 4 (size_of_int (o_idle opt)) then Some (Inl Length_Error, s)
          else
            let (idle, s) = open_idle K (o_port opt) (nat (o_idle opt)) 0 [] s;
                s = put_out (loadgen_banner opt (length idle)) s in
            if \<not> vector_length_ok 32 (size_of_int (o_threads opt)) then Some (Inl Length_Error, s)
            else
              (case load_threads K sched elapsed opt s of
                 None \<Rightarrow> None
               | Some (Inl e) \<Rightarrow> Some (Inl e, s)
               | Some (Inr (results, s)) \<Rightarrow>
                   Some (Inr 0, fold (Socket_destroy K) idle (put_out (report results duration) s))))"

text \<open>A negative number of threads is refused, but only after the idle connections were opened.\<close>

lemma negative_refused:
  assumes "loadgen_options args Options_init s = (Inr (Inr opt), s1)"
    and "int_range (o_threads opt)" "o_threads opt < 0" and "0 \<le> o_idle opt" "int_range (o_idle opt)"
    and "open_idle K (o_port opt) (nat (o_idle opt)) 0 [] s1 = (idle, s2)"
  shows "loadgen_main K sched elapsed duration args s =
    Some (Inl Length_Error, put_out (loadgen_banner opt (length idle)) s2)"
proof -
  have "o_threads opt mod 2 ^ 64 = o_threads opt + 2 ^ 64"
    using assms(2,3) mod_add_self2 [of "o_threads opt" "2 ^ 64"]
      mod_pos_pos_trivial [of "o_threads opt + 2 ^ 64" "2 ^ 64"] by (simp add: int_range_def)
  then have "\<not> vector_length_ok 32 (size_of_int (o_threads opt))"
    using assms(2) by (simp add: vector_length_ok_def size_of_int_def int_range_def nat_le_iff)
  moreover have "vector_length_ok 4 (size_of_int (o_idle opt))"
    using assms(4,5) by (simp add: vector_length_ok_def size_of_int_def int_range_def)
  ultimately show ?thesis
    using assms(1,6) by (simp add: loadgen_main_def)
qed

subsection \<open>What a worker has done\<close>

text \<open>Part of the reads of an echo: \<open>got\<close> bytes have arrived.\<close>

definition reading :: "int \<Rightarrow> nat \<Rightarrow> nat \<Rightarrow> event list \<Rightarrow> bool" where
  "reading fd len got reads \<longleftrightarrow> got \<le> len \<and>
     (\<forall>tail. echo_reads fd len 0 (reads @ tail) \<longleftrightarrow> echo_reads fd len got tail) \<and>
     (\<forall>tail. starts_with (echo_reads fd len 0) (reads @ tail) \<longleftrightarrow>
       starts_with (echo_reads fd len got) tail)"

lemma reading_Nil [simp]: "reading fd len 0 []"
  by (simp add: reading_def)

lemma starts_with_read:
  assumes "got < len"
  shows "starts_with (echo_reads fd len got) (E_read fd' m (Inr d) # tail) \<longleftrightarrow>
    fd' = fd \<and> m = len - got \<and> d \<noteq> [] \<and> length d \<le> m \<and>
    starts_with (echo_reads fd len (got + length d)) tail"
proof -
  have "(\<exists>p. prefix p (E_read fd' m (Inr d) # tail) \<and> echo_reads fd len got p) \<longleftrightarrow>
      (\<exists>q. prefix q tail \<and> echo_reads fd len got (E_read fd' m (Inr d) # q))"
    using assms by (auto simp: prefix_Cons)
  then show ?thesis by (auto simp: starts_with_def)
qed

lemma reading_more:
  assumes "reading fd len got reads" and "got < len" and "d \<noteq> []" "length d \<le> len - got"
  shows "reading fd len (got + length d) (reads @ [E_read fd (len - got) (Inr d)])"
  using assms starts_with_read [OF assms(2), of fd fd "len - got" d]
  by (simp add: reading_def le_diff_conv2 add.commute)

lemma reading_broken:
  assumes "reading fd len got reads" and "got < len" and "x = Inl e \<or> x = Inr []"
  shows "\<not> starts_with (echo_reads fd len 0) (reads @ E_read fd m x # tail)"
proof -
  have "\<not> starts_with (echo_reads fd len got) (E_read fd m x # tail)"
    using assms(2,3) by (auto simp: starts_with_def prefix_Cons)
  then show ?thesis using assms(1) by (simp add: reading_def)
qed

lemma reading_full:
  "reading fd len len reads \<Longrightarrow> round_trip fd len (E_write fd (replicate len CHR ''x'') (Inr len) # reads)"
  by (auto simp: reading_def dest: spec [of _ "[]"])

text \<open>
  The calls of a worker so far: connecting, complete rounds, a part of a round. The result
  counts the complete rounds.
\<close>

definition rounds_done ::
  "int \<Rightarrow> nat \<Rightarrow> (nat \<Rightarrow> rat) \<Rightarrow> event list list \<Rightarrow> Result \<Rightarrow> bool" where
  "rounds_done fd len elapsed rounds res \<longleftrightarrow>
     (\<forall>evs \<in> set rounds. round_trip fd len evs) \<and> r_requests res = of_nat (length rounds) \<and>
     latencies_us res = map elapsed [0..<length rounds]"

definition part_ok :: "int \<Rightarrow> nat \<Rightarrow> load_phase \<Rightarrow> event list \<Rightarrow> bool" where
  "part_ok fd len ph part \<longleftrightarrow> (case ph of
     L_start \<Rightarrow> fd = -1 \<and> part = []
   | L_check \<Rightarrow> 0 \<le> fd \<and> part = []
   | L_send \<Rightarrow> 0 \<le> fd \<and> part = []
   | L_read got \<Rightarrow> 0 \<le> fd \<and>
       (\<exists>reads. part = E_write fd (replicate len CHR ''x'') (Inr len) # reads \<and>
         reading fd len got reads)
   | _ \<Rightarrow> \<forall>c r. \<not> starts_with (round_trip fd len) (part @ [E_call c r]))"

definition client_so_far ::
  "nat \<Rightarrow> (nat \<Rightarrow> rat) \<Rightarrow> load_worker \<Rightarrow> event list \<Rightarrow> bool" where
  "client_so_far len elapsed w evs \<longleftrightarrow> (\<exists>pre rounds part post.
     evs = pre @ concat rounds @ part @ post \<and> calls_only pre \<and>
     mset (opens pre) = mset (closes pre) + mset (only_valid (lw_sock w)) \<and>
     (lw_phase w = L_start \<longrightarrow> pre = [] \<and> rounds = []) \<and>
     transfers (concat rounds @ part) \<and> opens post = [] \<and>
     rounds_done (lw_sock w) len elapsed rounds (lw_result w) \<and>
     part_ok (lw_sock w) len (lw_phase w) part \<and>
     (post = [] \<or> (\<exists>c r. post = [E_call c r])) \<and>
     closes post = (if lw_phase w = L_done then only_valid (lw_sock w) else []) \<and>
     (lw_phase w \<noteq> L_done \<longrightarrow> post = []))"

lemma transfers_read [simp]: "transfers [E_read fd m x]"
  by (simp add: transfers_def closes_def List.map_filter_def)

lemma broken_write: "x \<noteq> Inr len \<Longrightarrow> \<not> starts_with (round_trip fd len) (E_write fd d x # tail)"
  by (rule not_starts_round) auto

lemma no_round_call [simp]: "\<not> starts_with (round_trip fd len) [E_call c r]"
  by (auto simp: starts_with_def prefix_Cons)

lemma client_start: "client_so_far len elapsed load_worker_init []"
  unfolding client_so_far_def
  by (intro exI [of _ "[]"]) (simp add: load_worker_init_def rounds_done_def Result_init_def
      part_ok_def calls_only_def only_valid_def transfers_def)

text \<open>A step of a worker keeps this, and prints nothing.\<close>

lemma client_connects:
  assumes c: "client_so_far (o_payload opt) elapsed w evs" and ph: "lw_phase w = L_start"
    and run: "load_op K opt elapsed stop w s = Inr (w', s')"
  shows "\<exists>new. extends new s s' \<and> client_so_far (o_payload opt) elapsed w' (evs @ new)"
proof -
  from c ph have evs: "evs = []"
    and none: "r_requests (lw_result w) = 0" "latencies_us (lw_result w) = []"
    by (auto simp: client_so_far_def part_ok_def rounds_done_def only_valid_def)
  obtain fd e s1 where co: "connect_tcp K (o_port opt) (Some []) s = ((fd, e), s1)"
    by (metis prod.exhaust)
  from connect_tcp_extends [OF co] obtain pre where pre: "extends pre s s1" "calls_only pre"
    "mset (opens pre) = mset (closes pre) + mset (only_valid fd)" by blast
  show ?thesis
  proof (cases "0 \<le> fd")
    case False
    with run ph co have "s' = s1" "w' = w\<lparr>lw_sock := fd, lw_phase := L_close\<rparr>"
      by (simp_all add: load_op_def Socket_valid_def)
    with pre evs none False have "client_so_far (o_payload opt) elapsed w' (evs @ pre)"
      unfolding client_so_far_def
      by (intro exI [of _ pre] exI [of _ "[]"]) (simp add: rounds_done_def part_ok_def)
    with pre(1) \<open>s' = s1\<close> show ?thesis by blast
  next
    case True
    obtain n s2 where so: "call K (Sys_setsockopt fd TCP_NODELAY) s1 = (n, s2)" by fastforce
    from call_extends [OF so] obtain x where
      x: "extends [E_call (Sys_setsockopt fd TCP_NODELAY) x] s1 s2" by blast
    from True run ph co so have "s' = s2" "w' = w\<lparr>lw_sock := fd, lw_phase := L_check\<rparr>"
      by (simp_all add: load_op_def Socket_valid_def set_nodelay_def split: if_splits)
    with pre evs none True
    have "client_so_far (o_payload opt) elapsed w' (evs @ pre @ [E_call (Sys_setsockopt fd TCP_NODELAY) x])"
      unfolding client_so_far_def
      by (intro exI [of _ "pre @ [E_call (Sys_setsockopt fd TCP_NODELAY) x]"] exI [of _ "[]"])
         (simp add: rounds_done_def part_ok_def calls_only_def)
    with extends_trans [OF pre(1) x] \<open>s' = s2\<close> show ?thesis by blast
  qed
qed

text \<open>In the other phases the part of the round that is being made grows.\<close>

lemma client_goes_on:
  assumes c: "client_so_far len elapsed w evs" and ph: "lw_phase w \<notin> {L_start, L_done}"
    and w': "w' = w\<lparr>lw_phase := ph'\<rparr>" "ph' \<notin> {L_start, L_done}" and new: "transfers new"
    and part: "\<And>part. part_ok (lw_sock w) len (lw_phase w) part \<Longrightarrow> part_ok (lw_sock w) len ph' (part @ new)"
  shows "client_so_far len elapsed w' (evs @ new)"
proof -
  from c ph obtain pre rounds part where
    "evs = pre @ concat rounds @ part" "calls_only pre"
    "mset (opens pre) = mset (closes pre) + mset (only_valid (lw_sock w))"
    "transfers (concat rounds @ part)" "rounds_done (lw_sock w) len elapsed rounds (lw_result w)"
    "part_ok (lw_sock w) len (lw_phase w) part"
    by (auto simp: client_so_far_def)
  with w' new part show ?thesis
    unfolding client_so_far_def
    by (intro exI [of _ pre] exI [of _ rounds] exI [of _ "part @ new"] exI [of _ "[]"]) simp
qed

lemma client_round_ends:
  assumes c: "client_so_far len elapsed w evs" and ph: "lw_phase w = L_read got" and got: "\<not> got < len"
    and w': "w' = w\<lparr>lw_phase := L_check, lw_result := (lw_result w)\<lparr>
      latencies_us := latencies_us (lw_result w) @ [elapsed (length (latencies_us (lw_result w)))],
      r_requests := r_requests (lw_result w) + 1\<rparr>\<rparr>"
  shows "client_so_far len elapsed w' evs"
proof -
  from c ph obtain pre rounds reads where
    parts: "evs = pre @ concat rounds @ E_write (lw_sock w) (replicate len CHR ''x'') (Inr len) # reads"
      "calls_only pre" "mset (opens pre) = mset (closes pre) + mset (only_valid (lw_sock w))"
    and tr: "transfers (concat rounds)" "transfers reads"
    and done_: "rounds_done (lw_sock w) len elapsed rounds (lw_result w)"
    and rd: "0 \<le> lw_sock w" "reading (lw_sock w) len got reads"
    by (auto simp: client_so_far_def part_ok_def)
  let ?evs = "E_write (lw_sock w) (replicate len CHR ''x'') (Inr len) # reads"
  have "got = len" using rd(2) got by (simp add: reading_def)
  with rd(2) have "round_trip (lw_sock w) len ?evs" using reading_full by blast
  with done_ have "rounds_done (lw_sock w) len elapsed (rounds @ [?evs]) (lw_result w')"
    by (auto simp: rounds_done_def w')
  with parts tr rd(1) show ?thesis
    unfolding client_so_far_def
    by (intro exI [of _ pre] exI [of _ "rounds @ [?evs]"] exI [of _ "[]"]) (simp add: w' part_ok_def)
qed

lemma client_closes:
  assumes c: "client_so_far len elapsed w evs" and ph: "lw_phase w = L_close"
  shows "\<exists>new. extends new s (Socket_destroy K (lw_sock w) s) \<and>
    client_so_far len elapsed (w\<lparr>lw_phase := L_done\<rparr>) (evs @ new)"
proof -
  from c ph obtain pre rounds part where
    parts: "evs = pre @ concat rounds @ part" "calls_only pre"
      "mset (opens pre) = mset (closes pre) + mset (only_valid (lw_sock w))"
      "transfers (concat rounds @ part)" "rounds_done (lw_sock w) len elapsed rounds (lw_result w)"
      "part_ok (lw_sock w) len L_close part"
    by (auto simp: client_so_far_def)
  show ?thesis
  proof (cases "0 \<le> lw_sock w")
    case False
    with parts have "client_so_far len elapsed (w\<lparr>lw_phase := L_done\<rparr>) (evs @ [])"
      unfolding client_so_far_def
      by (intro exI [of _ pre] exI [of _ rounds] exI [of _ part] exI [of _ "[]"])
         (simp add: part_ok_def only_valid_def)
    with False show ?thesis by (intro exI [of _ "[]"]) simp
  next
    case True
    from Socket_destroy_eq [OF True, of K s] obtain r where
      r: "extends [E_call (Sys_close (lw_sock w)) r] s (Socket_destroy K (lw_sock w) s)"
      by (auto simp: extends_def)
    from parts True
    have "client_so_far len elapsed (w\<lparr>lw_phase := L_done\<rparr>) (evs @ [E_call (Sys_close (lw_sock w)) r])"
      unfolding client_so_far_def
      by (intro exI [of _ pre] exI [of _ rounds] exI [of _ part]
            exI [of _ "[E_call (Sys_close (lw_sock w)) r]"])
         (simp add: part_ok_def only_valid_def)
    with r show ?thesis by blast
  qed
qed

lemma client_step:
  assumes c: "client_so_far (o_payload opt) elapsed w evs"
    and run: "load_op K opt elapsed stop w s = Inr (w', s')"
  shows "\<exists>new. extends new s s' \<and> client_so_far (o_payload opt) elapsed w' (evs @ new)"
proof (cases "lw_phase w")
  case L_start
  from client_connects [OF c this run] show ?thesis .
next
  case L_check
  let ?ph = "if stop then L_close else L_send"
  have "part_ok (lw_sock w) (o_payload opt) ?ph (part @ [])"
    if "part_ok (lw_sock w) (o_payload opt) L_check part" for part
    using that by (simp add: part_ok_def)
  with client_goes_on [OF c, of "w\<lparr>lw_phase := ?ph\<rparr>" ?ph "[]"] L_check
  have "client_so_far (o_payload opt) elapsed (w\<lparr>lw_phase := ?ph\<rparr>) evs" by auto
  moreover from run L_check have "s' = s" "w' = w\<lparr>lw_phase := ?ph\<rparr>" by (simp_all add: load_op_def)
  ultimately show ?thesis by (intro exI [of _ "[]"]) simp
next
  case L_send
  let ?d = "replicate (o_payload opt) CHR ''x''"
  obtain n s1 where wr: "sys_write K (lw_sock w) ?d s = (n, s1)" by fastforce
  from sys_write_extends [OF wr] obtain x where x: "extends [E_write (lw_sock w) ?d x] s s1"
    "n = (case x of Inl _ \<Rightarrow> -1 | Inr k \<Rightarrow> int k)" by blast
  let ?ph = "if n \<noteq> int (o_payload opt) then L_close else L_read 0"
  from run L_send wr have "s' = s1" "w' = w\<lparr>lw_phase := ?ph\<rparr>" by (simp_all add: load_op_def)
  moreover have "part_ok (lw_sock w) (o_payload opt) ?ph [E_write (lw_sock w) ?d x]" if "0 \<le> lw_sock w"
  proof (cases "n = int (o_payload opt)")
    case True
    with x(2) have "x = Inr (o_payload opt)" by (auto split: sum.splits)
    with True that show ?thesis by (simp add: part_ok_def)
  next
    case False
    with x(2) have "x \<noteq> Inr (o_payload opt)" by auto
    with False show ?thesis by (simp add: part_ok_def broken_write)
  qed
  ultimately show ?thesis
    using x(1) client_goes_on [OF c, of w' ?ph "[E_write (lw_sock w) ?d x]"] L_send
    by (intro exI [of _ "[E_write (lw_sock w) ?d x]"]) (auto simp: part_ok_def)
next
  case (L_read got)
  show ?thesis
  proof (cases "got < o_payload opt")
    case False
    with run L_read client_round_ends [OF c L_read False] show ?thesis
      by (intro exI [of _ "[]"]) (auto simp: load_op_def Let_def)
  next
    case True
    let ?m = "o_payload opt - got"
    obtain n d s1 where rd: "sys_read K (lw_sock w) ?m s = ((n, d), s1)" by (metis prod.exhaust)
    from sys_read_extends [OF rd] obtain x where x: "extends [E_read (lw_sock w) ?m x] s s1"
      "(n, d) = filled x" "length d \<le> ?m" by blast
    let ?ph = "if n \<le> 0 then L_close else L_read (got + nat n)"
    from run L_read rd True have "s' = s1" "w' = w\<lparr>lw_phase := ?ph\<rparr>" by (simp_all add: load_op_def)
    moreover have "part_ok (lw_sock w) (o_payload opt) ?ph (part @ [E_read (lw_sock w) ?m x])"
      if "part_ok (lw_sock w) (o_payload opt) (L_read got) part" for part
    proof -
      from that obtain reads where p: "0 \<le> lw_sock w" "reading (lw_sock w) (o_payload opt) got reads"
        "part = E_write (lw_sock w) (replicate (o_payload opt) CHR ''x'') (Inr (o_payload opt)) # reads"
        by (auto simp: part_ok_def)
      show ?thesis
      proof (cases "n \<le> 0")
        case bad: True
        with x(2) have "\<exists>e. x = Inl e \<or> x = Inr []" by (auto simp: filled_def split: sum.splits)
        with reading_broken [OF p(2) True] bad show ?thesis
          by (auto simp: part_ok_def p(3) intro!: not_starts_round)
      next
        case False
        with x(2) have "x = Inr d" "n = int (length d)" "d \<noteq> []"
          by (auto simp: filled_def split: sum.splits)
        with False p x(3) reading_more [OF p(2) True, of d] show ?thesis by (simp add: part_ok_def)
      qed
    qed
    ultimately show ?thesis
      using x(1) client_goes_on [OF c, of w' ?ph "[E_read (lw_sock w) ?m x]"] L_read
      by (intro exI [of _ "[E_read (lw_sock w) ?m x]"]) auto
  qed
next
  case L_close
  from client_closes [OF c this, of s K] run L_close show ?thesis by (auto simp: load_op_def)
next
  case L_done
  with run c show ?thesis by (intro exI [of _ "[]"]) (simp add: load_op_def)
qed

lemma load_op_throws: "load_op K opt elapsed stop w s = Inl e \<Longrightarrow> e = Length_Error"
  by (auto simp: load_op_def Let_def split: load_phase.splits prod.splits if_splits)

subsection \<open>What a run has done\<close>

text \<open>The events of one thread in a history of events with the threads that made them.\<close>

definition own :: "nat \<Rightarrow> (nat \<times> event) list \<Rightarrow> event list" where
  "own j h = map snd (filter (\<lambda>e. fst e = j) h)"

lemma own_append: "own j (h @ h') = own j h @ own j h'"
  by (simp add: own_def)

lemma own_of [simp]: "own j (map (Pair i) evs) = (if j = i then evs else [])"
  by (induction evs) (auto simp: own_def)

lemma own_none: "\<forall>e \<in> set h. fst e < n \<Longrightarrow> own n h = []"
  by (auto simp: own_def filter_empty_conv)

definition joined :: "Options \<Rightarrow> load_state \<Rightarrow> bool" where
  "joined opt g \<longleftrightarrow> length (ls_workers g) \<le> nat (o_threads opt) \<and>
     (case ls_main g of
        G_spawn \<Rightarrow> \<not> ls_stop g
      | G_sleep \<Rightarrow> \<not> ls_stop g \<and> length (ls_workers g) = nat (o_threads opt)
      | G_join i \<Rightarrow> ls_stop g \<and> length (ls_workers g) = nat (o_threads opt) \<and> i \<le> length (ls_workers g) \<and>
          (\<forall>j < i. lw_phase (ls_workers g ! j) = L_done)
      | G_end \<Rightarrow> ls_stop g \<and> length (ls_workers g) = nat (o_threads opt) \<and>
          (\<forall>w \<in> set (ls_workers g). lw_phase w = L_done))"

definition clients :: "Options \<Rightarrow> (nat \<Rightarrow> nat \<Rightarrow> rat) \<Rightarrow> load_worker list \<Rightarrow> (nat \<times> event) list \<Rightarrow> bool" where
  "clients opt elapsed ws h \<longleftrightarrow> (\<forall>e \<in> set h. fst e < length ws) \<and>
     (\<forall>j < length ws. client_so_far (o_payload opt) (elapsed j) (ws ! j) (own j h))"

definition load_inv ::
  "Options \<Rightarrow> (nat \<Rightarrow> nat \<Rightarrow> rat) \<Rightarrow> 'w os \<Rightarrow> load_state \<times> 'w os \<Rightarrow> bool" where
  "load_inv opt elapsed s0 c \<longleftrightarrow> joined opt (fst c) \<and>
     (\<exists>h. extends (map snd h) s0 (snd c) \<and> clients opt elapsed (ls_workers (fst c)) h)"

lemma load_init_inv: "load_inv opt elapsed s (load_init, s)"
  unfolding load_inv_def
  by (intro conjI exI [of _ "[]"]) (simp_all add: load_init_def joined_def clients_def)

lemma clients_spawn:
  assumes "clients opt elapsed ws h"
  shows "clients opt elapsed (ws @ [load_worker_init]) h"
  using assms own_none [of h "length ws"] client_start
  by (auto simp: clients_def nth_append less_Suc_eq)

lemma load_main_inv:
  assumes "load_inv opt elapsed s0 (g, s)"
  shows "load_inv opt elapsed s0 (load_main_op opt g, s)"
proof -
  from assms have j: "joined opt g" by (simp add: load_inv_def)
  then have "joined opt (load_main_op opt g)"
    by (cases "ls_main g") (auto simp: joined_def load_main_op_def less_Suc_eq all_set_conv_all_nth)
  moreover have "ls_workers (load_main_op opt g) \<in> {ls_workers g, ls_workers g @ [load_worker_init]}"
    by (cases "ls_main g") (auto simp: load_main_op_def)
  moreover from assms obtain h where h: "extends (map snd h) s0 s" "clients opt elapsed (ls_workers g) h"
    by (auto simp: load_inv_def)
  ultimately show ?thesis
    unfolding load_inv_def by (intro conjI exI [of _ h]) (auto intro: clients_spawn)
qed

lemma joined_worker:
  assumes j: "joined opt g" and i: "i < length (ls_workers g)"
    and keep: "lw_phase (ls_workers g ! i) = L_done \<Longrightarrow> lw_phase w = L_done"
  shows "joined opt (g\<lparr>ls_workers := (ls_workers g)[i := w]\<rparr>)"
proof -
  have "lw_phase ((ls_workers g)[i := w] ! k) = L_done"
    if "k < length (ls_workers g)" "lw_phase (ls_workers g ! k) = L_done" for k
    using that keep i by (cases "k = i") simp_all
  with j show ?thesis
    by (cases "ls_main g") (auto simp: joined_def all_set_conv_all_nth)
qed

lemma load_op_done: "lw_phase w = L_done \<Longrightarrow> load_op K opt elapsed stop w s = Inr (w, s)"
  by (simp add: load_op_def)

lemma load_worker_inv:
  assumes inv: "load_inv opt elapsed s0 (g, s)" and i: "i < length (ls_workers g)"
    and run: "load_op K opt (elapsed i) stop (ls_workers g ! i) s = Inr (w, s')"
  shows "load_inv opt elapsed s0 (g\<lparr>ls_workers := (ls_workers g)[i := w]\<rparr>, s')"
proof -
  from inv obtain h where h: "extends (map snd h) s0 s" "clients opt elapsed (ls_workers g) h"
    and j: "joined opt g" by (auto simp: load_inv_def)
  from h(2) i have "client_so_far (o_payload opt) (elapsed i) (ls_workers g ! i) (own i h)"
    by (simp add: clients_def)
  from client_step [OF this run] obtain new where new: "extends new s s'"
    "client_so_far (o_payload opt) (elapsed i) w (own i h @ new)" by blast
  have "clients opt elapsed ((ls_workers g)[i := w]) (h @ map (Pair i) new)"
    using h(2) new(2) i by (auto simp: clients_def own_append nth_list_update)
  moreover have "extends (map snd (h @ map (Pair i) new)) s0 s'"
    using extends_trans [OF h(1) new(1)] by (simp add: comp_def)
  moreover have "lw_phase w = L_done" if "lw_phase (ls_workers g ! i) = L_done"
    using run load_op_done [OF that, of K opt "elapsed i" stop s] that by simp
  then have "joined opt (g\<lparr>ls_workers := (ls_workers g)[i := w]\<rparr>)" by (rule joined_worker [OF j i])
  ultimately show ?thesis
    unfolding load_inv_def by (intro conjI exI [of _ "h @ map (Pair i) new"]) simp_all
qed

lemma load_step_inv:
  assumes "load_inv opt elapsed s0 c" and "load_step K opt elapsed t c = Inr c'"
  shows "load_inv opt elapsed s0 c'"
proof (cases t)
  case Main
  with assms load_main_inv show ?thesis by (cases c) auto
next
  case (Worker i)
  obtain g s where c: "c = (g, s)" by (cases c)
  show ?thesis
  proof (cases "i < length (ls_workers g)")
    case False
    with assms Worker c show ?thesis by simp
  next
    case True
    with assms Worker c obtain w s' where
      "load_op K opt (elapsed i) (ls_stop g) (ls_workers g ! i) s = Inr (w, s')"
      "c' = (g\<lparr>ls_workers := (ls_workers g)[i := w]\<rparr>, s')" by (auto split: sum.splits)
    with load_worker_inv [OF _ True] assms(1) c show ?thesis by blast
  qed
qed

lemma load_step_throws: "load_step K opt elapsed t c = Inl e \<Longrightarrow> e = Length_Error"
  by (cases t; cases c) (auto dest: load_op_throws split: if_splits sum.splits)

subsection \<open>Every fair run ends\<close>

text \<open>
  Once the flag is set a worker has only so many steps left: it finishes the round that it is in,
  each read of which brings at least one byte or ends it. Before that, only \<open>main\<close> makes progress.
\<close>

definition steps_left :: "nat \<Rightarrow> load_phase \<Rightarrow> nat" where
  "steps_left len ph = (case ph of
     L_start \<Rightarrow> 3 | L_check \<Rightarrow> 2 | L_send \<Rightarrow> 4 + len | L_read got \<Rightarrow> 3 + (len - got) | L_close \<Rightarrow> 1 | L_done \<Rightarrow> 0)"

definition joins_left :: "load_state \<Rightarrow> nat" where
  "joins_left g = (case ls_main g of G_join i \<Rightarrow> Suc (length (ls_workers g) - i) | _ \<Rightarrow> 0)"

definition load_rank :: "Options \<Rightarrow> load_state \<times> 'w os \<Rightarrow> nat \<times> nat" where
  "load_rank opt c = (let g = fst c in
     if ls_stop g then
       (0, sum_list (map (\<lambda>w. steps_left (o_payload opt) (lw_phase w)) (ls_workers g)) + joins_left g)
     else (case ls_main g of G_spawn \<Rightarrow> 2 + (nat (o_threads opt) - length (ls_workers g)) | _ \<Rightarrow> 1, 0))"

definition load_helps :: "thread \<Rightarrow> load_state \<times> 'w os \<Rightarrow> bool" where
  "load_helps t c \<longleftrightarrow> (let g = fst c in case t of
     Main \<Rightarrow> \<not> ls_stop g \<or> (\<exists>i. ls_main g = G_join i \<and>
       (i < length (ls_workers g) \<longrightarrow> lw_phase (ls_workers g ! i) = L_done))
   | Worker j \<Rightarrow> ls_stop g \<and> j < length (ls_workers g) \<and> lw_phase (ls_workers g ! j) \<noteq> L_done)"

abbreviation (input) rank_order :: "((nat \<times> nat) \<times> nat \<times> nat) set" where
  "rank_order \<equiv> less_than <*lex*> less_than"

lemma load_op_left:
  assumes "load_op K opt elapsed True w s = Inr (w', s')" and "lw_phase w \<noteq> L_done"
  shows "steps_left (o_payload opt) (lw_phase w') < steps_left (o_payload opt) (lw_phase w)"
proof (cases "lw_phase w")
  case (L_read got)
  with assms show ?thesis
    by (cases "sys_read K (lw_sock w) (o_payload opt - got) s")
       (auto simp: load_op_def steps_left_def Let_def split: if_splits)
qed (use assms in \<open>auto simp: load_op_def steps_left_def Let_def split: prod.splits if_splits\<close>)

lemma sum_list_update_less:
  fixes f :: "'a \<Rightarrow> nat"
  shows "i < length xs \<Longrightarrow> f x < f (xs ! i) \<Longrightarrow> sum_list (map f (xs[i := x])) < sum_list (map f xs)"
proof (induction xs arbitrary: i)
  case (Cons y ys)
  then show ?case by (cases i) auto
qed simp

lemma main_rank:
  assumes "joined opt g" and "ls_main g \<noteq> G_end"
  shows "load_main_op opt g = g \<and> \<not> load_helps Main (g, s) \<or>
    (load_rank opt (load_main_op opt g, s'), load_rank opt (g, s)) \<in> rank_order"
  using assms
  by (cases "ls_main g")
     (auto simp: load_main_op_def joined_def load_rank_def joins_left_def load_helps_def)

lemma worker_rank:
  assumes i: "i < length (ls_workers g)"
    and run: "load_op K opt clock (ls_stop g) (ls_workers g ! i) s = Inr (w, s')"
  shows "(if load_helps (Worker i) (g, s)
     then (load_rank opt (g\<lparr>ls_workers := (ls_workers g)[i := w]\<rparr>, s'), load_rank opt (g, s)) \<in> rank_order
     else load_rank opt (g\<lparr>ls_workers := (ls_workers g)[i := w]\<rparr>, s') = load_rank opt (g, s) \<and>
       (ls_stop g \<longrightarrow> w = ls_workers g ! i))"
proof (cases "ls_stop g \<and> lw_phase (ls_workers g ! i) \<noteq> L_done")
  case True
  with run have "steps_left (o_payload opt) (lw_phase w) < steps_left (o_payload opt) (lw_phase (ls_workers g ! i))"
    using load_op_left by fastforce
  from sum_list_update_less [OF i, of "\<lambda>w. steps_left (o_payload opt) (lw_phase w)", OF this] True i
  show ?thesis by (simp add: load_helps_def load_rank_def joins_left_def split: load_main_phase.split)
next
  case False
  have "w = ls_workers g ! i" if "ls_stop g"
    using False that run load_op_done [of "ls_workers g ! i" K opt clock "ls_stop g" s] by simp
  with False show ?thesis by (simp add: load_helps_def load_rank_def split: load_main_phase.split)
qed

lemma load_step_helps:
  assumes "load_inv opt elapsed s0 c" and "\<not> load_ended c" and "load_helps t c"
    and "load_step K opt elapsed t c = Inr c'"
  shows "(load_rank opt c', load_rank opt c) \<in> rank_order"
proof -
  obtain g s where c: "c = (g, s)" by (cases c)
  show ?thesis
  proof (cases t)
    case Main
    with assms main_rank [of opt g s s] c show ?thesis by (auto simp: load_inv_def load_ended_def)
  next
    case (Worker i)
    with assms(3) c have i: "i < length (ls_workers g)" by (simp add: load_helps_def)
    with assms(4) Worker c obtain w s' where
      "load_op K opt (elapsed i) (ls_stop g) (ls_workers g ! i) s = Inr (w, s')"
      "c' = (g\<lparr>ls_workers := (ls_workers g)[i := w]\<rparr>, s')" by (auto split: sum.splits)
    with worker_rank [OF i this(1)] assms(3) c Worker show ?thesis by simp
  qed
qed

lemma load_step_waits:
  assumes inv: "load_inv opt elapsed s0 c" and "\<not> load_ended c" and t: "load_helps t c"
    and step: "load_step K opt elapsed u c = Inr c'"
  shows "(load_rank opt c', load_rank opt c) \<in> rank_order \<or>
    load_rank opt c' = load_rank opt c \<and> load_helps t c'"
proof (cases "load_helps u c")
  case True
  from load_step_helps [OF assms(1,2) this step] show ?thesis by simp
next
  case False
  obtain g s where c: "c = (g, s)" by (cases c)
  show ?thesis
  proof (cases u)
    case Main
    with assms main_rank [of opt g s s] c False show ?thesis by (auto simp: load_inv_def load_ended_def)
  next
    case (Worker i)
    show ?thesis
    proof (cases "i < length (ls_workers g)")
      case False
      with step Worker c t show ?thesis by simp
    next
      case i: True
      with step Worker c obtain w s' where
        op: "load_op K opt (elapsed i) (ls_stop g) (ls_workers g ! i) s = Inr (w, s')"
        and c': "c' = (g\<lparr>ls_workers := (ls_workers g)[i := w]\<rparr>, s')" by (auto split: sum.splits)
      from worker_rank [OF i op] False c Worker have
        "load_rank opt c' = load_rank opt c" "ls_stop g \<longrightarrow> w = ls_workers g ! i" by (simp_all add: c')
      moreover from this(2) t c i have "load_helps t c'"
        by (cases "ls_stop g") (auto simp: load_helps_def c' split: thread.splits)
      ultimately show ?thesis by simp
    qed
  qed
qed

lemma load_some_helps:
  assumes "load_inv opt elapsed s0 c" and "\<not> load_ended c"
  shows "\<exists>t \<in> insert Main (Worker ` {..<nat (o_threads opt)}). load_helps t c"
proof (cases "load_helps Main c")
  case False
  with assms obtain i where i: "ls_stop (fst c)" "ls_main (fst c) = G_join i" "i < length (ls_workers (fst c))"
    "lw_phase (ls_workers (fst c) ! i) \<noteq> L_done"
    by (cases "ls_main (fst c)") (auto simp: load_helps_def load_inv_def joined_def load_ended_def)
  then have "load_helps (Worker i) c" by (simp add: load_helps_def)
  moreover have "i < nat (o_threads opt)" using assms(1) i(2,3) by (auto simp: load_inv_def joined_def)
  ultimately show ?thesis by blast
qed blast

interpretation loadgen: progressing "load_step K opt elapsed" "load_inv opt elapsed s0"
    "\<lambda>e. e = Length_Error" "insert Main (Worker ` {..<nat (o_threads opt)})" load_ended load_helps
    "load_rank opt" "less_than <*lex*> less_than"
  for K :: "'w kernel" and opt elapsed and s0 :: "'w os"
proof (unfold_locales, goal_cases)
  case (1 c t c')
  then show ?case by (rule load_step_inv)
next
  case (2 c t e)
  then show ?case by (auto dest: load_step_throws)
next
  case 3
  show ?case by (intro wf_lex_prod wf_less_than)
next
  case (4 c)
  then show ?case by (rule load_some_helps)
next
  case (5 c t c')
  then show ?case by (rule load_step_helps)
next
  case (6 c t u c')
  then show ?case by (rule load_step_waits)
qed

subsection \<open>Whole runs\<close>

lemma total_requests_latencies:
  assumes "\<And>x. x \<in> set rs \<Longrightarrow> r_requests x = of_nat (length (latencies_us x))"
  shows "total_requests rs = of_nat (length (all_latencies rs))"
proof -
  have "foldl (\<lambda>n r. n + r_requests r) n rs = n + of_nat (length (concat (map latencies_us rs)))" for n
    using assms by (induction rs arbitrary: n) (simp_all add: ac_simps)
  moreover have "foldl (\<lambda>all r. all @ latencies_us r) all rs = all @ concat (map latencies_us rs)" for all
    by (induction rs arbitrary: all) simp_all
  ultimately show ?thesis by (simp add: total_requests_def all_latencies_def)
qed

text \<open>The calls of one client from its connection to its end, and the result that it leaves.\<close>

definition client :: "nat \<Rightarrow> (nat \<Rightarrow> rat) \<Rightarrow> event list \<Rightarrow> Result \<Rightarrow> bool" where
  "client len elapsed evs res \<longleftrightarrow> (\<exists>fd pre rounds rest. evs = pre @ concat rounds @ rest \<and>
     calls_only pre \<and> (\<forall>r \<in> set rounds. round_trip fd len r) \<and>
     \<not> starts_with (round_trip fd len) rest \<and> r_requests res = of_nat (length rounds) \<and>
     latencies_us res = map elapsed [0..<length rounds] \<and> balanced evs)"

lemma starts_with_append: "starts_with P evs \<Longrightarrow> starts_with P (evs @ evs')"
  unfolding starts_with_def by (metis prefix_prefix)

lemma client_finished:
  assumes "client_so_far len elapsed w evs" and "lw_phase w = L_done"
  shows "client len elapsed evs (lw_result w)"
proof -
  from assms obtain pre rounds part post where
    evs: "evs = pre @ concat rounds @ part @ post" "calls_only pre"
      "mset (opens pre) = mset (closes pre) + mset (only_valid (lw_sock w))"
      "transfers (concat rounds @ part)" "opens post = []" "closes post = only_valid (lw_sock w)"
      "rounds_done (lw_sock w) len elapsed rounds (lw_result w)"
    and part: "\<And>c r. \<not> starts_with (round_trip (lw_sock w) len) (part @ [E_call c r])"
      "post = [] \<or> (\<exists>c r. post = [E_call c r])"
    unfolding client_so_far_def part_ok_def by auto
  have "\<not> starts_with (round_trip (lw_sock w) len) (part @ post)"
    using part starts_with_append by fastforce
  moreover have "balanced evs"
    using evs by (simp add: balanced_def transfers_def opens_def)
  ultimately show ?thesis using evs unfolding client_def rounds_done_def
    by (intro exI [of _ "lw_sock w"] exI [of _ pre] exI [of _ rounds] exI [of _ "part @ post"]) simp
qed

text \<open>The descriptors that all threads together opened and closed.\<close>

lemma own_Cons: "own j (e # h) = (if fst e = j then snd e # own j h else own j h)"
  by (simp add: own_def)

lemma sum_own:
  fixes f :: "event \<Rightarrow> 'a multiset"
  assumes "\<forall>e \<in> set h. fst e < n"
  shows "sum_list (map f (map snd h)) = (\<Sum>j<n. sum_list (map f (own j h)))"
  using assms
proof (induction h)
  case Nil
  then show ?case by (simp add: own_def)
next
  case (Cons e h)
  have "(\<Sum>j<n. sum_list (map f (own j (e # h)))) =
      (\<Sum>j<n. (if j = fst e then f (snd e) else {#}) + sum_list (map f (own j h)))"
    by (intro sum.cong) (auto simp: own_Cons)
  also have "\<dots> = f (snd e) + (\<Sum>j<n. sum_list (map f (own j h)))"
    using Cons.prems by (simp add: sum.distrib)
  finally show ?case using Cons by simp
qed

lemma mset_opens: "mset (opens evs) = sum_list (map (\<lambda>ev. mset (opened_fd ev)) evs)"
  by (induction evs) simp_all

lemma mset_closes:
  "mset (closes evs) = sum_list (map (\<lambda>ev. mset (case closed_fd ev of None \<Rightarrow> [] | Some fd \<Rightarrow> [fd])) evs)"
proof (induction evs)
  case Nil
  show ?case by (simp add: closes_def List.map_filter_simps)
next
  case (Cons ev evs)
  then show ?case by simp
qed

lemma balanced_own:
  assumes "\<forall>e \<in> set h. fst e < n" and "\<forall>j < n. balanced (own j h)"
  shows "balanced (map snd h)"
proof -
  have "mset (opens (map snd h)) = (\<Sum>j<n. mset (opens (own j h)))"
    unfolding mset_opens by (rule sum_own [OF assms(1)])
  also have "\<dots> = (\<Sum>j<n. mset (closes (own j h)))"
    using assms(2) by (intro sum.cong) (auto simp: balanced_def opens_def)
  also have "\<dots> = mset (closes (map snd h))"
    by (simp only: mset_closes sum_own [OF assms(1)])
  finally show ?thesis by (simp add: balanced_def opens_def)
qed

lemma load_threads_ran:
  assumes "load_threads K sched elapsed opt s = Some (Inr (results, s'))"
  shows "\<exists>h. extends (map snd h) s s' \<and> length results = nat (o_threads opt) \<and>
    (\<forall>e \<in> set h. fst e < length results) \<and>
    (\<forall>j < length results. client (o_payload opt) (elapsed j) (own j h) (results ! j)) \<and>
    balanced (map snd h)"
proof -
  from assms obtain n g where run: "scheduled (load_step K opt elapsed) sched load_ended 0 (load_init, s) =
      Some (Inr (n, g, s'))" and results: "results = map lw_result (ls_workers g)"
    by (auto simp: load_threads_def split: option.splits sum.splits)
  from loadgen.scheduled_inv [OF run load_init_inv]
  have inv: "load_inv opt elapsed s (g, s')" and fin: "load_ended (g, s')" by simp_all
  from inv obtain h where h: "extends (map snd h) s s'" "clients opt elapsed (ls_workers g) h"
    and j: "joined opt g" by (auto simp: load_inv_def)
  from j fin have all: "length (ls_workers g) = nat (o_threads opt)"
    "\<And>i. i < length (ls_workers g) \<Longrightarrow> lw_phase (ls_workers g ! i) = L_done"
    by (simp_all add: joined_def load_ended_def)
  have cl: "client (o_payload opt) (elapsed i) (own i h) (lw_result (ls_workers g ! i))"
    if "i < length (ls_workers g)" for i
    using client_finished [OF _ all(2) [OF that]] h(2) that unfolding clients_def by blast
  have "balanced (own i h)" if "i < length (ls_workers g)" for i
    using cl [OF that] unfolding client_def by blast
  moreover have "\<forall>e \<in> set h. fst e < length (ls_workers g)" using h(2) unfolding clients_def by blast
  ultimately have "balanced (map snd h)" by (blast intro: balanced_own)
  moreover have "\<forall>e \<in> set h. fst e < length results" using h(2) by (simp add: results clients_def)
  moreover have "\<forall>j < length results. client (o_payload opt) (elapsed j) (own j h) (results ! j)"
    using cl by (simp add: results)
  ultimately show ?thesis using h(1) all(1) results by (intro exI [of _ h]) simp
qed

text \<open>The idle connections.\<close>

lemma open_idle_opened:
  assumes "open_idle K p k i idle s = (idle', s')"
  shows "\<exists>evs more msg. trace s' = trace s @ evs \<and> out s' = out s \<and> err s' = err s @ msg \<and>
    idle' = idle @ more \<and> length more \<le> k \<and> (\<forall>fd \<in> set more. 0 \<le> fd) \<and>
    mset (opens evs) = mset (closes evs) + mset more \<and> (length more = k \<longrightarrow> msg = [])"
  using assms
proof (induction k arbitrary: i idle s)
  case 0
  then show ?case by (auto simp: closes_def List.map_filter_simps intro!: exI [of _ "[]"])
next
  case (Suc k)
  obtain fd e s1 where co: "connect_tcp K p (Some []) s = ((fd, e), s1)" by (metis prod.exhaust)
  from connect_tcp_extends [OF co] obtain evs where evs: "extends evs s s1"
    "mset (opens evs) = mset (closes evs) + mset (only_valid fd)" by blast
  show ?case
  proof (cases "0 \<le> fd")
    case False
    define msg where "msg = ''idle connection '' @ to_string i @ '' failed: '' @ the e @ newline"
    from False Suc.prems co have "idle' = idle" "s' = put_err msg s1"
      by (simp_all add: Socket_valid_def msg_def)
    with evs False show ?thesis
      by (intro exI [of _ evs] exI [of _ "[]"] exI [of _ msg]) (simp add: extends_def only_valid_def)
  next
    case True
    with Suc.prems co have "open_idle K p k (i + 1) (idle @ [fd]) s1 = (idle', s')"
      by (simp add: Socket_valid_def)
    from Suc.IH [OF this] obtain evs' tail msg where
      ih: "trace s' = trace s1 @ evs'" "out s' = out s1" "err s' = err s1 @ msg"
        "idle' = (idle @ [fd]) @ tail" "length tail \<le> k" "\<forall>fd \<in> set tail. 0 \<le> fd"
        "mset (opens evs') = mset (closes evs') + mset tail" "length tail = k \<longrightarrow> msg = []" by blast
    with evs True show ?thesis
      by (intro exI [of _ "evs @ evs'"] exI [of _ "fd # tail"] exI [of _ msg])
         (simp add: extends_def only_valid_def)
  qed
qed

lemma close_idle:
  "\<forall>fd \<in> set idle. 0 \<le> fd \<Longrightarrow> opened_closed [] idle s (fold (Socket_destroy K) idle s)"
proof (induction idle arbitrary: s)
  case Nil
  then show ?case by simp
next
  case (Cons fd idle)
  then have "opened_closed [] [fd] s (Socket_destroy K fd s)"
    using Socket_destroy_closed [of fd s K] by (simp add: only_valid_def)
  from opened_closed_trans [OF this Cons.IH] Cons.prems show ?case by simp
qed

lemma loadgen_options_result:
  "loadgen_options args opt s = (r, s') \<Longrightarrow>
    (case r of Inl e \<Rightarrow> e = Invalid_Argument \<or> e = Out_Of_Range
     | Inr (Inl n) \<Rightarrow> n = 2 | Inr (Inr opt') \<Rightarrow> s' = s)"
  by (induction args opt s rule: loadgen_options.induct)
     (auto dest: sto_throws split: if_splits sum.splits)

subsection \<open>Properties\<close>

text \<open>C14: A whole run of the load generator that ends with status 0, for every schedule of its
  threads and every kernel. It opens at most the idle connections that were asked for (all of
  them, or it says so on stderr), prints the banner, and runs as many clients as it was asked to
  have threads. The calls of all of them are interleaved in one trace, but those of each single
  client are a connection, then complete round trips (the payload written in one piece, then
  reads that bring exactly as many bytes), then at most an incomplete one, which is not counted.
  The number of requests that it prints is the number of latencies that the percentiles are taken
  from, one for each round trip of any client, modulo 2^64. At the end every descriptor that any
  thread opened was closed exactly once.\<close>

theorem loadgen_run:
  assumes "loadgen_main K sched elapsed duration args s = Some (Inr 0, s')"
  shows "\<exists>opt idle pre h post results msg. loadgen_options args Options_init s = (Inr (Inr opt), s) \<and>
    trace s' = trace s @ pre @ map snd h @ post \<and> length results = nat (o_threads opt) \<and>
    list_all (\<lambda>j. client (o_payload opt) (elapsed j) (own j h) (results ! j)) [0..<length results] \<and>
    list_all (\<lambda>e. fst e < length results) h \<and>
    total_requests results = of_nat (length (all_latencies results)) \<and>
    out s' = out s @ loadgen_banner opt idle @ report results duration \<and>
    err s' = err s @ msg \<and> idle \<le> nat (o_idle opt) \<and> (idle \<noteq> nat (o_idle opt) \<or> msg = []) \<and>
    balanced (pre @ map snd h @ post)"
proof -
  obtain r s1 where o1: "loadgen_options args Options_init s = (r, s1)" by (metis surj_pair)
  from loadgen_options_result [OF o1] assms o1 obtain opt where
    opt: "loadgen_options args Options_init s = (Inr (Inr opt), s)"
    by (auto simp: loadgen_main_def split: sum.splits)
  obtain idle s2 where idle: "open_idle K (o_port opt) (nat (o_idle opt)) 0 [] s = (idle, s2)"
    by (metis surj_pair)
  let ?s3 = "put_out (loadgen_banner opt (length idle)) s2"
  from assms opt idle obtain results s4 where
    run: "load_threads K sched elapsed opt ?s3 = Some (Inr (results, s4))"
    and s': "s' = fold (Socket_destroy K) idle (put_out (report results duration) s4)"
    by (auto simp: loadgen_main_def Let_def split: if_splits option.splits sum.splits)
  from open_idle_opened [OF idle] obtain pre msg where
    pre: "trace s2 = trace s @ pre" "out s2 = out s" "err s2 = err s @ msg" "length idle \<le> nat (o_idle opt)"
      "\<forall>fd \<in> set idle. 0 \<le> fd" "mset (opens pre) = mset (closes pre) + mset idle"
      "length idle = nat (o_idle opt) \<longrightarrow> msg = []" by auto
  from load_threads_ran [OF run] obtain h where
    h: "extends (map snd h) ?s3 s4" "length results = nat (o_threads opt)"
      "\<forall>e \<in> set h. fst e < length results"
      "\<forall>j < length results. client (o_payload opt) (elapsed j) (own j h) (results ! j)"
      "balanced (map snd h)" by blast
  from close_idle [OF pre(5), of "put_out (report results duration) s4" K] obtain post where
    post: "extends post (put_out (report results duration) s4) s'" "opens post = []" "closes post = idle"
    by (auto simp: opened_closed_def s')
  have "trace s' = trace s @ pre @ map snd h @ post" "err s' = err s @ msg"
    "out s' = out s @ loadgen_banner opt (length idle) @ report results duration"
    using pre(1-3) h(1) post(1) by (simp_all add: extends_def)
  moreover have "balanced (pre @ map snd h @ post)"
    using pre(6) h(5) post(2,3) by (simp add: balanced_def opens_def [symmetric])
  moreover have "r_requests x = of_nat (length (latencies_us x))" if "x \<in> set results" for x
    using h(4) that by (auto simp: client_def in_set_conv_nth)
  then have "total_requests results = of_nat (length (all_latencies results))"
    by (rule total_requests_latencies)
  ultimately show ?thesis using opt h(2-4) pre(4,7)
    by (intro exI [of _ opt] exI [of _ "length idle"] exI [of _ pre] exI [of _ h] exI [of _ post]
          exI [of _ results] exI [of _ msg]) (simp add: list_all_upt, simp add: list_all_iff)
qed

text \<open>C26: The load generator always ends: when the schedule is fair to \<open>main\<close> and to the threads that
  were asked for - each is always scheduled again - then a run returns (or ends with the
  exception of a payload or a number of threads that is too large), whatever the kernel answers. Before the
  flag is set only \<open>main\<close> has to go on; afterwards each client finishes at most the round trip that
  it is in, because every read brings a byte or ends it, and then the joins go through.\<close>

theorem loadgen_ends:
  assumes "\<And>opt. loadgen_options args Options_init s = (Inr (Inr opt), s) \<Longrightarrow>
    fair (insert Main (Worker ` {..<nat (o_threads opt)})) sched"
  shows "\<exists>r s'. loadgen_main K sched elapsed duration args s = Some (r, s') \<and>
    (case r of Inl e \<Rightarrow> e \<in> {Invalid_Argument, Out_Of_Range, Length_Error} | Inr n \<Rightarrow> n = 0 \<or> n = 2)"
proof (cases "loadgen_options args Options_init s")
  case (Pair r s1)
  show ?thesis
  proof (cases "\<exists>opt. r = Inr (Inr opt)")
    case False
    with loadgen_options_result [OF Pair] Pair show ?thesis
      by (auto simp: loadgen_main_def split: sum.splits)
  next
    case True
    with loadgen_options_result [OF Pair] Pair obtain opt where
      opt: "loadgen_options args Options_init s = (Inr (Inr opt), s)" by auto
    obtain idle s2 where idle: "open_idle K (o_port opt) (nat (o_idle opt)) 0 [] s = (idle, s2)"
      by (metis surj_pair)
    let ?s3 = "put_out (loadgen_banner opt (length idle)) s2"
    from loadgen.fair_returns [OF assms [OF opt] load_init_inv] obtain x where
      x: "scheduled (load_step K opt elapsed) sched load_ended 0 (load_init, ?s3) = Some x" by blast
    from loadgen.scheduled_inv [OF x load_init_inv] have "\<forall>e. x = Inl e \<longrightarrow> e = Length_Error" by auto
    with opt idle x show ?thesis
      by (cases x) (auto simp: loadgen_main_def load_threads_def Let_def split: prod.splits)
  qed
qed

subsection \<open>A run\<close>

text \<open>Two clients whose round trips overlap, next to an idle connection.\<close>

definition sample_opt :: Options where
  "sample_opt = Options_init\<lparr>o_threads := 2, o_idle := 1, o_payload := 2\<rparr>"

definition sample_order :: "nat \<Rightarrow> thread" where
  "sample_order n = (let order = [Main, Main, Main, Worker 0, Worker 1, Worker 0, Worker 0, Worker 1,
     Worker 1, Worker 0, Worker 1, Worker 0, Worker 0, Worker 1, Main, Worker 0, Worker 1, Worker 0, Worker 1]
     in if n < length order then order ! n else Main)"

definition sample_answers :: "answer list" where
  "sample_answers = [A_int 3, A_int 0, A_int 0, A_int 4, A_int 0, A_int 0, A_int 2, A_int 2, A_bytes ''x'',
     A_bytes ''xx'', A_bytes ''x'', A_int 0, A_int 0]"

lemma sample_load:
  assumes "world s = sample_answers"
  shows "\<exists>results s'. load_threads scripted sample_order (\<lambda>j i. 1) sample_opt s = Some (Inr (results, s')) \<and>
    map (\<lambda>r. length (latencies_us r)) results = [1, 1] \<and> world s' = [] \<and> out s' = out s"
proof -
  have "vector_length_ok (Suc 0) 2" by (simp add: vector_length_ok_def)
  with assms have "\<exists>n g s'. scheduled_upto 40 (load_step scripted sample_opt (\<lambda>j i. 1)) sample_order load_ended 0
      (load_init, s) = Some (Inr (n, g, s')) \<and>
    map (\<lambda>w. length (latencies_us (lw_result w))) (ls_workers g) = [1, 1] \<and> world s' = [] \<and> out s' = out s"
    unfolding sample_opt_def sample_answers_def
    by (simp add: scheduled_upto.simps load_ended_def load_init_def load_main_op_def load_op_def
        load_worker_init_def Options_init_def Result_init_def sample_order_def connect_tcp_def
        set_nodelay_def Socket_valid_def Socket_destroy_def Socket_reset_def run_simps
        numeral_2_eq_2 [symmetric])
  then show ?thesis by (auto simp: load_threads_def comp_def dest!: scheduled_upto_run)
qed

abbreviation sample_args :: "string list" where
  "sample_args \<equiv> [''--threads=2'', ''--idle=1'', ''--payload=2'']"

lemma sample_options: "loadgen_options sample_args Options_init s = (Inr (Inr sample_opt), s)"
proof -
  have "stoi ''2'' = Inr 2" "stoi ''1'' = Inr 1" by code_simp+
  moreover have "strto_subject 10 ''2'' = (False, ''2'')" "value_of 10 ''2'' = 2" by code_simp+
  then have "stoul ''2'' = Inr 2" by (simp add: stoul_def ull_max_def)
  ultimately show ?thesis by (simp add: sample_opt_def Options_init_def)
qed

lemma sample_loadgen_main:
  "\<exists>s'. loadgen_main scripted sample_order (\<lambda>j i. 1) 5 sample_args
    (fresh_os (A_int 9 # A_int 0 # sample_answers)) = Some (Inr 0, s')"
proof -
  let ?s = "fresh_os (A_int 9 # A_int 0 # sample_answers)"
  have opt: "o_threads sample_opt = 2" "nat (o_idle sample_opt) = 1" "o_idle sample_opt = 1"
    by (simp_all add: sample_opt_def)
  have "\<exists>s1. open_idle scripted (o_port sample_opt) 1 0 [] ?s = ([9], s1) \<and> world s1 = sample_answers"
    by (simp add: connect_tcp_def Socket_valid_def run_simps)
  then obtain s1 where idle: "open_idle scripted (o_port sample_opt) 1 0 [] ?s = ([9], s1)"
    and w: "world s1 = sample_answers" by blast
  from sample_load [of "put_out (loadgen_banner sample_opt 1) s1"] w obtain results s2 where
    "load_threads scripted sample_order (\<lambda>j i. 1) sample_opt (put_out (loadgen_banner sample_opt 1) s1) =
      Some (Inr (results, s2))" by auto
  moreover have "vector_length_ok 4 (size_of_int 1)" "vector_length_ok 32 (size_of_int 2)"
    by (simp_all add: vector_length_ok_def size_of_int_def)
  ultimately show ?thesis
    using idle opt sample_options [of ?s] by (simp add: loadgen_main_def)
qed

lemma loadgen_run_witness:
  "\<exists>s' pre h post results. loadgen_main scripted sample_order (\<lambda>j i. 1) 5 sample_args
      (fresh_os (A_int 9 # A_int 0 # sample_answers)) = Some (Inr 0, s') \<and>
    trace s' = [] @ pre @ map snd h @ post \<and> length results = 2 \<and>
    client 2 (\<lambda>i. 1) (own 0 h) (results ! 0) \<and> client 2 (\<lambda>i. 1) (own 1 h) (results ! 1) \<and>
    balanced (pre @ map snd h @ post)"
proof -
  let ?s = "fresh_os (A_int 9 # A_int 0 # sample_answers)"
  obtain s' where run: "loadgen_main scripted sample_order (\<lambda>j i. 1) 5 sample_args ?s = Some (Inr 0, s')"
    using sample_loadgen_main by blast
  from loadgen_run [OF run] obtain pre h post results opt where
    r: "trace s' = [] @ pre @ map snd h @ post" "loadgen_options sample_args Options_init ?s = (Inr (Inr opt), ?s)"
      "length results = nat (o_threads opt)" "balanced (pre @ map snd h @ post)"
      "list_all (\<lambda>j. client (o_payload opt) (\<lambda>i. 1) (own j h) (results ! j)) [0..<length results]"
    by (auto simp del: append_assoc)
  from r(2) sample_options [of ?s] have "opt = sample_opt" by simp
  with r have "length results = 2" "list_all (\<lambda>j. client 2 (\<lambda>i. 1) (own j h) (results ! j)) [0..<2]"
    by (simp_all add: sample_opt_def)
  then show ?thesis using run r(1,4)
    by (intro exI [of _ s'] exI [of _ pre] exI [of _ h] exI [of _ post] exI [of _ results])
       (simp add: list_all_upt)
qed

lemma loadgen_ends_witness:
  "\<exists>r s'. loadgen_main scripted (round_robin 2) (\<lambda>j i. 1) 5 sample_args (fresh_os sample_answers) = Some (r, s')"
proof -
  have "fair (insert Main (Worker ` {..<nat (o_threads opt)})) (round_robin 2)"
    if "loadgen_options sample_args Options_init (fresh_os sample_answers) = (Inr (Inr opt), fresh_os sample_answers)"
    for opt
    using that sample_options [of "fresh_os sample_answers"] round_robin_fair [of 2]
    by (auto simp: sample_opt_def)
  from loadgen_ends [OF this, where K = scripted and elapsed = "\<lambda>j i. 1" and duration = 5] show ?thesis by blast
qed

end
