(* ===== verification/Mc_Util.thy ===== *)
theory Mc_Util
  imports Procmon_Util Doubles
begin

section \<open>minicontainer: files, sizes, and steps that must all succeed\<close>

text \<open>
  Models \<open>minicontainer/src/util.cpp\<close>: \<open>write_file\<close>, \<open>read_file\<close>, \<open>namespace_id\<close>,
  \<open>parse_size\<close> and \<open>human_bytes\<close>. The read loop of \<open>read_file\<close> is the same as procmon's
  and its model is shared. A path is a byte list without zero bytes (it comes from a literal
  or from \<open>argv\<close>), so \<open>c_str()\<close> passes all of it. The last section states the contract of
  the setup functions: a list of calls that are made in order until one fails.
\<close>

subsection \<open>Files\<close>

definition errno_message :: "'w kernel \<Rightarrow> string \<Rightarrow> 'w os \<Rightarrow> string" where
  "errno_message K what s = what @ '': '' @ strerror K (errno s)"

text \<open>The result is the \<open>bool\<close> returned and what \<open>error\<close> points to.\<close>

definition write_file ::
  "'w kernel \<Rightarrow> string \<Rightarrow> string \<Rightarrow> string option \<Rightarrow> 'w os \<Rightarrow> (bool \<times> string option) \<times> 'w os" where
  "write_file K path value error s =
     (let (fd, s) = call K (Sys_open path [O_WRONLY, O_CLOEXEC]) s in
      if fd < 0 then ((False, set_error (errno_message K (''open '' @ path) s) error), s)
      else
        let (written, s) = sys_write K fd value s;
            saved = errno s;
            s = snd (call K (Sys_close fd) s)
        in if written \<noteq> int (length value) then
             let s = s\<lparr>errno := saved\<rparr> in
             ((False, set_error (errno_message K (''write '' @ path) s) error), s)
           else ((True, error), s))"

text \<open>\<open>while (!out.empty() && (out.back() == ...)) out.pop_back()\<close>\<close>

definition ends_blank :: "string \<Rightarrow> bool" where
  "ends_blank tx \<longleftrightarrow> tx \<noteq> [] \<and> (last tx = CHR 0x0A \<or> last tx = CHR '' '')"

function strip_trailing :: "string \<Rightarrow> string" where
  "strip_trailing tx = (if ends_blank tx then strip_trailing (butlast tx) else tx)"
  by pat_completeness auto
termination
  by (relation "measure length") (auto simp: ends_blank_def)

declare strip_trailing.simps [simp del]

definition read_file :: "'w kernel \<Rightarrow> string \<Rightarrow> 'w os \<Rightarrow> (string option \<times> 'w os) option" where
  "read_file K path s =
     (let (fd, s) = call K (Sys_open path [O_RDONLY, O_CLOEXEC]) s in
      if fd < 0 then Some (None, s)
      else do {
        ((n, content), s) \<leftarrow> read_loop K fd [] s;
        Some (Some (strip_trailing content), snd (call K (Sys_close fd) s))
      })"

text \<open>\<open>buf[n] = 0\<close>, and the string that starts at \<open>buf\<close>.\<close>

definition c_string :: "string \<Rightarrow> string" where
  "c_string buf = takeWhile (\<lambda>c. c \<noteq> CHR 0x00) buf"

definition namespace_id :: "'w kernel \<Rightarrow> string \<Rightarrow> string \<Rightarrow> 'w os \<Rightarrow> string option \<times> 'w os" where
  "namespace_id K pid ns s =
     (let path = ''/proc/'' @ pid @ ''/ns/'' @ ns;
          ((n, buf), s) = sys_readlink K path 127 s
      in if n < 0 then (None, s) else (Some (c_string buf), s))"

subsection \<open>Sizes\<close>

text \<open>
  The loop \<open>value = value * 10 + (text[i] - '0')\<close>: both the product and the sum are
  \<open>long long\<close> arithmetic. The result is \<open>i\<close> and \<open>value\<close>.
\<close>

function size_digits :: "string \<Rightarrow> nat \<Rightarrow> int \<Rightarrow> (nat \<times> int) cpp" where
  "size_digits tx i v =
     (if i < length tx \<and> isdigit (tx ! i) then
        cbind (ll_checked (v * 10)) (\<lambda>v10.
        cbind (ll_checked (v10 + int (ord (tx ! i) - 48))) (\<lambda>v'. size_digits tx (Suc i) v'))
      else Inr (i, v))"
  by pat_completeness auto
termination
  by (relation "measure (\<lambda>(tx, i, v). length tx - i)") auto

declare size_digits.simps [simp del]

definition mul_1024 :: "int \<Rightarrow> int cpp" where
  "mul_1024 v = ll_checked (v * 1024)"

definition parse_size :: "string \<Rightarrow> int option cpp" where
  "parse_size tx =
     (if tx = [] then Inr None
      else cbind (size_digits tx 0 0) (\<lambda>(i, v).
        if i = 0 then Inr None
        else if i = length tx then Inr (Some v)
        else if i + 1 \<noteq> length tx then Inr None
        else let c = toupper (tx ! i) in
          if c = CHR ''K'' then cbind (mul_1024 v) (\<lambda>v. Inr (Some v))
          else if c = CHR ''M'' then
            cbind (mul_1024 v) (\<lambda>v. cbind (mul_1024 v) (\<lambda>v. Inr (Some v)))
          else if c = CHR ''G'' then
            cbind (mul_1024 v) (\<lambda>v. cbind (mul_1024 v) (\<lambda>v. cbind (mul_1024 v)
              (\<lambda>v. Inr (Some v))))
          else Inr None))"

definition units :: "string list" where
  "units = [''B'', ''K'', ''M'', ''G'']"

definition human_bytes :: "int \<Rightarrow> string" where
  "human_bytes bytes = (if bytes < 0 then ''max'' else scaled_text units bytes)"

subsection \<open>What a size means\<close>

text \<open>
  The reference: the digits at the front, and the power of 1024 that the rest names. The result
  exists when the product fits \<open>long long\<close>.
\<close>

fun size_exponent :: "string \<Rightarrow> nat option" where
  "size_exponent [] = Some 0"
| "size_exponent [c] =
     (if c \<in> {CHR ''k'', CHR ''K''} then Some 1
      else if c \<in> {CHR ''m'', CHR ''M''} then Some 2
      else if c \<in> {CHR ''g'', CHR ''G''} then Some 3 else None)"
| "size_exponent _ = None"

definition size_spec :: "string \<Rightarrow> int option cpp" where
  "size_spec tx =
     (let ds = takeWhile isdigit tx; v = int (value_of 10 ds) in
      if ds = [] then Inr None
      else if v \<ge> 2 ^ 63 then Inl Undefined_Behaviour
      else case size_exponent (dropWhile isdigit tx) of
        None \<Rightarrow> Inr None
      | Some k \<Rightarrow>
          if v * 1024 ^ k < 2 ^ 63 then Inr (Some (v * 1024 ^ k)) else Inl Undefined_Behaviour)"

definition value_from :: "nat \<Rightarrow> string \<Rightarrow> nat" where
  "value_from n ds = foldl (\<lambda>acc c. acc * 10 + digit_val c) n ds"

lemma value_from_Cons [simp]:
  "value_from n [] = n" "value_from n (c # ds) = value_from (n * 10 + digit_val c) ds"
  by (simp_all add: value_from_def)

lemma value_from_ge: "n \<le> value_from n ds"
proof (induction ds arbitrary: n)
  case Nil
  then show ?case by simp
next
  case (Cons c ds)
  have "n \<le> n * 10 + digit_val c" by simp
  also have "\<dots> \<le> value_from (n * 10 + digit_val c) ds" by (rule Cons)
  finally show ?case by simp
qed

lemma digit_val_isdigit: "isdigit c \<Longrightarrow> digit_val c = ord c - 48"
  by (simp add: digit_val_def digit_value_def)

text \<open>The loop fails exactly when the value of the digits does not fit.\<close>

lemma size_digits_eq:
  assumes "int n < 2 ^ 63"
  shows "size_digits tx i (int n) =
    (let ds = takeWhile isdigit (drop i tx); m = value_from n ds in
     if int m < 2 ^ 63 then Inr (i + length ds, int m) else Inl Undefined_Behaviour)"
  using assms
proof (induction "length tx - i" arbitrary: i n)
  case 0
  then show ?case by (simp add: size_digits.simps [of tx i])
next
  case (Suc k)
  then have i: "i < length tx" "drop i tx = tx ! i # drop (Suc i) tx"
    by (simp_all add: Cons_nth_drop_Suc)
  show ?case
  proof (cases "isdigit (tx ! i)")
    case False
    with i Suc.prems show ?thesis by (simp add: size_digits.simps [of tx i])
  next
    case True
    let ?n = "n * 10 + digit_val (tx ! i)"
    have d: "int n * 10 + int (ord (tx ! i) - 48) = int ?n"
      using True by (simp add: digit_val_isdigit)
    have tw: "takeWhile isdigit (drop i tx) = tx ! i # takeWhile isdigit (drop (Suc i) tx)"
      using i(2) True by simp
    have unfold: "size_digits tx i (int n) = cbind (ll_checked (int n * 10))
      (\<lambda>v10. cbind (ll_checked (v10 + int (ord (tx ! i) - 48))) (\<lambda>v'. size_digits tx (Suc i) v'))"
      using i(1) True by (simp add: size_digits.simps [of tx i])
    show ?thesis
    proof (cases "int ?n < 2 ^ 63")
      case True
      then have "ll_checked (int n * 10) = Inr (int n * 10)"
        "ll_checked (int n * 10 + int (ord (tx ! i) - 48)) = Inr (int ?n)"
        unfolding d by (simp_all add: ll_range_def)
      then have "size_digits tx i (int n) = size_digits tx (Suc i) (int ?n)"
        by (simp only: unfold cbind.simps)
      also have "\<dots> = (let ds = takeWhile isdigit (drop (Suc i) tx); m = value_from ?n ds in
          if int m < 2 ^ 63 then Inr (Suc i + length ds, int m) else Inl Undefined_Behaviour)"
        by (rule Suc.hyps(1)) (use Suc.hyps(2) True in auto)
      finally show ?thesis by (simp add: tw Let_def)
    next
      case False
      have "?n \<le> value_from ?n ds" for ds by (rule value_from_ge)
      then have "\<not> int (value_from ?n ds) < 2 ^ 63" for ds using False
        by (meson le_less_trans of_nat_mono)
      moreover have "size_digits tx i (int n) = Inl Undefined_Behaviour"
      proof (cases "ll_range (int n * 10)")
        case True
        moreover have "\<not> ll_range (int n * 10 + int (ord (tx ! i) - 48))"
          unfolding d using False by (simp add: ll_range_def)
        ultimately show ?thesis unfolding unfold by (simp add: ll_checked_def)
      next
        case False
        then show ?thesis unfolding unfold by (simp add: ll_checked_def)
      qed
      ultimately show ?thesis by (simp add: tw Let_def)
    qed
  qed
qed

lemma mul_1024_eq: "0 \<le> v \<Longrightarrow>
    mul_1024 v = (if v * 1024 < 2 ^ 63 then Inr (v * 1024) else Inl Undefined_Behaviour)"
  by (simp add: mul_1024_def ll_checked_def ll_range_def)

lemma toupper_eq:
  "toupper c = CHR ''K'' \<longleftrightarrow> c \<in> {CHR ''k'', CHR ''K''}"
  "toupper c = CHR ''M'' \<longleftrightarrow> c \<in> {CHR ''m'', CHR ''M''}"
  "toupper c = CHR ''G'' \<longleftrightarrow> c \<in> {CHR ''g'', CHR ''G''}"
  unfolding insert_iff empty_iff of_char_eq_iff [where 'a = nat, symmetric]
  by (auto simp: toupper_def)

lemma parse_size_spec: "parse_size tx = size_spec tx"
proof (cases "takeWhile isdigit tx = []")
  case True
  moreover from this have "size_digits tx 0 0 = Inr (0, 0)"
    using size_digits_eq [of 0 tx 0] by (simp add: Let_def)
  ultimately show ?thesis by (simp add: parse_size_def size_spec_def)
next
  case digits: False
  define ds v rest where defs: "ds = takeWhile isdigit tx" "v = int (value_of 10 ds)"
    "rest = dropWhile isdigit tx"
  have tx: "tx = ds @ rest" "ds \<noteq> []" "tx \<noteq> []" "0 \<le> v" using digits by (auto simp: defs)
  have len: "length tx = length ds + length rest" using tx(1) by (metis length_append)
  have "value_from 0 ds = value_of 10 ds" by (simp add: value_from_def value_of_def)
  then have loop: "size_digits tx 0 0 =
      (if v < 2 ^ 63 then Inr (length ds, v) else Inl Undefined_Behaviour)"
    using size_digits_eq [of 0 tx 0] by (simp add: defs Let_def)
  have spec: "size_spec tx = (if v \<ge> 2 ^ 63 then Inl Undefined_Behaviour
    else case size_exponent rest of None \<Rightarrow> Inr None
      | Some k \<Rightarrow>
          if v * 1024 ^ k < 2 ^ 63 then Inr (Some (v * 1024 ^ k)) else Inl Undefined_Behaviour)"
    unfolding defs using digits by (simp add: size_spec_def Let_def)
  show ?thesis
  proof (cases "v < 2 ^ 63")
    case False
    with loop tx(3) show ?thesis by (simp add: parse_size_def spec)
  next
    case True
    consider "rest = []" | c where "rest = [c]" | c d cs where "rest = c # d # cs"
      by (cases rest rule: size_exponent.cases) auto
    then show ?thesis
    proof cases
      case 1
      with loop tx(2,3) True len show ?thesis by (simp add: parse_size_def spec)
    next
      case 2
      then have "tx ! length ds = c" using tx(1) by (metis nth_append_length)
      with loop tx(2-4) len True 2 show ?thesis
        by (simp add: parse_size_def spec Let_def toupper_eq mul_1024_eq)
    next
      case 3
      with loop tx(2,3) True len show ?thesis by (simp add: parse_size_def spec)
    qed
  qed
qed

text \<open>C33: \<open>parse_size\<close> on any text: a number with an optional K, M or G (either case) at the end
  of the text is that number of bytes; text without digits at the front or with anything else
  after them has no value; and a number whose digits, or whose product with the unit, exceed
  the largest \<open>long long\<close> is not rejected but overflows, which is undefined behaviour.\<close>

theorem parse_size_correct: "parse_size tx = size_spec tx"
  by (rule parse_size_spec)

subsection \<open>What a printed size means\<close>

text \<open>C37: \<open>human_bytes\<close> of any count below \<open>2 ^ 53\<close>: below 1024 it is the count itself with a B;
  otherwise it is a number of tenths of the unit (1024, \<open>1024 ^ 2\<close> or \<open>1024 ^ 3\<close> bytes) that is the
  largest one not above the count, at most half a tenth off, never truncated by the buffer.\<close>

theorem human_bytes_accurate:
  assumes "0 \<le> n" and "n < 2 ^ 53"
  shows "if n < 1024 then human_bytes n = to_string n @ ''B''
    else \<exists>u m. u < 4 \<and> 0 < u \<and>
      human_bytes n = digits 10 (m div 10) @ ''.'' @ digits 10 (m mod 10) @ units ! u \<and>
      1024 ^ u \<le> n \<and> (u < 3 \<longrightarrow> n < 1024 ^ Suc u) \<and>
      \<bar>of_nat m / 10 - of_int n / 1024 ^ u\<bar> \<le> (1 / 20 :: rat)"
proof -
  have h: "human_bytes n = scaled_text units n" using assms(1) by (simp add: human_bytes_def)
  have l: "length units = 4" "units ! 0 = ''B''" "units \<noteq> []" "\<forall>x \<in> set units. length x = 1"
    by (simp_all add: units_def)
  have three: "Suc u < 4 \<longleftrightarrow> u < 3" for u :: nat by linarith
  from scaled_text_accurate [OF assms l(3,4)] show ?thesis
    unfolding l(1,2) h three by simp
qed

lemma human_bytes_accurate_witness:
  "\<exists>u m. u < 4 \<and> 0 < u \<and>
    human_bytes 1048575 = digits 10 (m div 10) @ ''.'' @ digits 10 (m mod 10) @ units ! u \<and>
    1024 ^ u \<le> (1048575 :: int) \<and> (u < 3 \<longrightarrow> (1048575 :: int) < 1024 ^ Suc u) \<and>
    \<bar>of_nat m / 10 - of_int 1048575 / 1024 ^ u\<bar> \<le> (1 / 20 :: rat)"
  using human_bytes_accurate [of 1048575, unfolded if_not_P [of "(1048575 :: int) < 1024", simplified]]
  by simp

text \<open>The unit is chosen before the rounding, so a count just below one unit reads 1024.0.\<close>

lemma human_bytes_round_up: "human_bytes 1048575 = ''1024.0K''"
proof -
  have d: "to_double (of_int 1048575) = 1048575" by (subst to_double_of_int) simp_all
  have sc: "scale_loop 3 1048575 0 = (1048575 / 1024, 1)"
    by (subst scale_loop.simps, simp, subst scale_loop.simps, simp)
  have "\<lfloor>1048575 / 1024 * 10 :: rat\<rfloor> = 10239" by (rule floor_unique) simp_all
  then have r: "round_half_even (1048575 / 1024 * 10) = 10240"
    unfolding round_half_even_def Let_def by simp
  have dg: "digits 10 1024 = ''1024''" "digits 10 0 = ''0''"
    by (simp_all add: digits.simps digit_char_def char_of_def bit_simps)
  have fx: "format_fixed 1 (1048575 / 1024) = ''1024.0''"
    unfolding format_fixed_def power_one_right r Let_def by (simp add: dg pad_zeros_def)
  have k: "length units - 1 = 3" by (simp add: units_def)
  show ?thesis
    unfolding human_bytes_def scaled_text_def d k sc by (simp add: fx [unfolded One_nat_def] units_def)
qed

subsection \<open>What the file functions do to the trace\<close>

text \<open>
  The events of one call of \<open>write_file\<close>: the open alone when it fails, otherwise open, one write
  of the whole value, close. It succeeds when the kernel took all of the value.
\<close>

definition file_write :: "string \<Rightarrow> string \<Rightarrow> bool \<Rightarrow> event list \<Rightarrow> bool" where
  "file_write path v ok evs \<longleftrightarrow> (\<exists>r.
     c_int r < 0 \<and> \<not> ok \<and> evs = [E_call (Sys_open path [O_WRONLY, O_CLOEXEC]) r] \<or>
     0 \<le> c_int r \<and> (\<exists>w c. (ok \<longleftrightarrow> w = Inr (length v)) \<and>
       evs = [E_call (Sys_open path [O_WRONLY, O_CLOEXEC]) r, E_write (c_int r) v w,
         E_call (Sys_close (c_int r)) c]))"

lemma file_write_closes_own: "file_write path v ok evs \<Longrightarrow> closes_own evs"
  by (auto simp: file_write_def closes_own_def c_int_pos)

lemma write_file_trace:
  assumes "write_file K path v error s = ((ok, error'), s')"
  shows "\<exists>evs. extends evs s s' \<and> file_write path v ok evs \<and> (ok \<longrightarrow> error' = error)"
proof -
  obtain fd s1 where op: "call K (Sys_open path [O_WRONLY, O_CLOEXEC]) s = (fd, s1)"
    by (metis surj_pair)
  obtain n s2 where wr: "sys_write K fd v s1 = (n, s2)" by (metis surj_pair)
  obtain m s3 where cl: "call K (Sys_close fd) s2 = (m, s3)" by (metis surj_pair)
  from call_trace [OF op] sys_write_trace [OF wr] call_trace [OF cl] obtain r w c where
    tr: "trace s1 = trace s @ [E_call (Sys_open path [O_WRONLY, O_CLOEXEC]) r]" "fd = c_int r"
      "trace s2 = trace s1 @ [E_write fd v w]" "trace s3 = trace s2 @ [E_call (Sys_close fd) c]"
    and n: "n = (case w of Inl _ \<Rightarrow> -1 | Inr k \<Rightarrow> int k)"
    and streams: "out s3 = out s" "err s3 = err s" "out s1 = out s" "err s1 = err s" by auto
  show ?thesis
  proof (cases "fd < 0")
    case True
    with assms op tr streams show ?thesis
      by (auto simp: write_file_def file_write_def extends_def intro!: exI [of _ r])
  next
    case False
    let ?evs = "[E_call (Sys_open path [O_WRONLY, O_CLOEXEC]) r, E_write fd v w,
      E_call (Sys_close fd) c]"
    have "n = int (length v) \<longleftrightarrow> w = Inr (length v)" using n by (cases w) auto
    with False assms op wr cl have res: "ok = (w = Inr (length v))" "ok \<longrightarrow> error' = error"
      "trace s' = trace s3" "out s' = out s3" "err s' = err s3"
      by (auto simp: write_file_def Let_def split: if_splits)
    then have "file_write path v ok ?evs"
      unfolding file_write_def using False tr(2) by (intro exI [of _ r]) simp
    with res tr streams show ?thesis by (intro exI [of _ ?evs]) (simp add: extends_def)
  qed
qed

text \<open>Values that were written, in this order, among other events.\<close>

definition performed :: "(string \<times> string) list \<Rightarrow> event list \<Rightarrow> bool" where
  "performed ws evs \<longleftrightarrow>
     (\<exists>bs. list_all2 (\<lambda>(p, v). file_write p v True) ws bs \<and> subseq (concat bs) evs)"

lemma performed_Nil [simp]: "performed [] evs"
  by (auto simp: performed_def intro!: exI [of _ "[]"])

lemma performed_write: "file_write p v True evs \<Longrightarrow> performed [(p, v)] evs"
  by (auto simp: performed_def intro!: exI [of _ "[evs]"])

lemma write_file_performed:
  assumes "write_file K path v error s = ((ok, error'), s')"
  shows "\<exists>evs. extends evs s s' \<and> closes_own evs \<and>
    (ok \<longrightarrow> performed [(path, v)] evs \<and> error' = error)"
  using write_file_trace [OF assms]
  by (cases ok) (auto dest: performed_write file_write_closes_own)

lemma write_file_quiet: "write_file K path v error s = ((ok, error'), s') \<Longrightarrow> quiet s s'"
  by (auto dest!: write_file_trace intro: quietI file_write_closes_own)

lemma performed_append:
  assumes "performed ws evs" and "performed ws' evs'"
  shows "performed (ws @ ws') (evs @ evs')"
proof -
  from assms obtain bs bs' where "list_all2 (\<lambda>(p, v). file_write p v True) ws bs"
    "subseq (concat bs) evs" "list_all2 (\<lambda>(p, v). file_write p v True) ws' bs'"
    "subseq (concat bs') evs'" by (auto simp: performed_def)
  then show ?thesis unfolding performed_def
    by (intro exI [of _ "bs @ bs'"]) (simp add: list_all2_appendI list_emb_append_mono)
qed

lemma performed_more: "performed ws evs \<Longrightarrow> performed ws (xs @ evs @ ys)"
  using performed_append [OF performed_Nil [of xs] performed_append [of ws evs "[]" ys]] by simp

text \<open>The loop strips the longest blank end; nothing else changes.\<close>

lemma strip_trailing_prefix: "\<exists>rest. tx = strip_trailing tx @ rest \<and> set rest \<subseteq> {CHR 0x0A, CHR '' ''}"
proof (induction tx rule: strip_trailing.induct)
  case (1 tx)
  show ?case
  proof (cases "ends_blank tx")
    case True
    with 1 obtain rest where rest: "butlast tx = strip_trailing (butlast tx) @ rest"
      "set rest \<subseteq> {CHR 0x0A, CHR '' ''}" by blast
    from True have tx: "tx = butlast tx @ [last tx]" and c: "last tx \<in> {CHR 0x0A, CHR '' ''}"
      by (auto simp: ends_blank_def)
    have "strip_trailing tx = strip_trailing (butlast tx)"
      using True by (simp add: strip_trailing.simps [of tx])
    then have "tx = strip_trailing tx @ (rest @ [last tx])" using rest(1) tx
      by (metis append_assoc)
    with rest(2) c show ?thesis by (intro exI [of _ "rest @ [last tx]"]) auto
  next
    case False
    then show ?thesis by (simp add: strip_trailing.simps [of tx])
  qed
qed

text \<open>The events of one call of \<open>read_file\<close>: the open alone, or open, reads, close.\<close>

definition file_read :: "string \<Rightarrow> event list \<Rightarrow> bool" where
  "file_read path evs \<longleftrightarrow> (\<exists>r.
     c_int r < 0 \<and> evs = [E_call (Sys_open path [O_RDONLY, O_CLOEXEC]) r] \<or>
     0 \<le> c_int r \<and> (\<exists>rds c. (\<forall>ev \<in> set rds. \<exists>q. ev = E_read (c_int r) 4096 q) \<and>
       evs = E_call (Sys_open path [O_RDONLY, O_CLOEXEC]) r # rds @ [E_call (Sys_close (c_int r)) c]))"

lemma file_read_closes_own:
  assumes "file_read path evs"
  shows "closes_own evs"
proof -
  have rds: "closes_from fds rds" if "\<forall>ev \<in> set rds. \<exists>q. ev = E_read fd 4096 q" for fds fd rds
    using that by (intro closes_from_quiet) auto
  from assms show ?thesis
    by (auto simp: file_read_def closes_own_def c_int_pos closes_from_append) (rule rds, assumption)
qed

lemma read_file_trace:
  assumes "read_file K path s = Some (res, s')"
  shows "\<exists>evs. extends evs s s' \<and> file_read path evs"
proof -
  obtain fd s1 where op: "call K (Sys_open path [O_RDONLY, O_CLOEXEC]) s = (fd, s1)"
    by (metis surj_pair)
  from call_trace [OF op] obtain r where
    r: "trace s1 = trace s @ [E_call (Sys_open path [O_RDONLY, O_CLOEXEC]) r]" "fd = c_int r"
    "out s1 = out s" "err s1 = err s" by blast
  show ?thesis
  proof (cases "fd < 0")
    case True
    with assms op r show ?thesis
      by (auto simp: read_file_def file_read_def extends_def intro!: exI [of _ r])
  next
    case False
    with assms op obtain n tx s2 where loop: "read_loop K fd [] s1 = Some ((n, tx), s2)"
      and res: "s' = snd (call K (Sys_close fd) s2)"
      by (auto simp: read_file_def bind_eq_Some_conv)
    from read_loop_only_reads [OF loop] obtain rds where rds: "trace s2 = trace s1 @ rds"
      "\<forall>ev \<in> set rds. \<exists>q. ev = E_read fd 4096 q" "out s2 = out s1" "err s2 = err s1" by auto
    obtain m s3 where cl: "call K (Sys_close fd) s2 = (m, s3)" by (metis surj_pair)
    from call_trace [OF cl] obtain c where
      c: "trace s3 = trace s2 @ [E_call (Sys_close fd) c]" "out s3 = out s2" "err s3 = err s2"
      by blast
    let ?evs = "E_call (Sys_open path [O_RDONLY, O_CLOEXEC]) r # rds @ [E_call (Sys_close fd) c]"
    have "file_read path ?evs"
      unfolding file_read_def using False rds(2) r(2) by (intro exI [of _ r]) auto
    with res c rds r cl show ?thesis by (intro exI [of _ ?evs]) (simp add: extends_def)
  qed
qed

lemma read_file_quiet: "read_file K path s = Some (res, s') \<Longrightarrow> quiet s s'"
  by (auto dest!: read_file_trace intro: quietI file_read_closes_own)

subsection \<open>Calls in order\<close>

text \<open>
  The contract of a function that sets something up: the calls of a list are made in order, each
  with the error it tolerates and the name under which its failure is reported; the first
  failure ends the function.
\<close>

type_synonym step = "syscall \<times> (errno \<Rightarrow> bool) \<times> string"

fun perform ::
  "'w kernel \<Rightarrow> step list \<Rightarrow> string option \<Rightarrow> 'w os \<Rightarrow> (bool \<times> string option) \<times> 'w os" where
  "perform K [] error s = ((True, error), s)"
| "perform K ((c, tolerated, what) # ps) error s =
     (let (n, s) = call K c s in
      if n \<noteq> 0 \<and> \<not> tolerated (errno s) then
        ((False, set_error (errno_message K what s) error), s)
      else perform K ps error s)"

abbreviation strict :: "errno \<Rightarrow> bool" where
  "strict e \<equiv> False"

abbreviation may_exist :: "errno \<Rightarrow> bool" where
  "may_exist e \<equiv> e = EEXIST"

definition passed :: "step \<Rightarrow> event \<Rightarrow> bool" where
  "passed st ev \<longleftrightarrow> (case st of (c, tolerated, what) \<Rightarrow>
     \<exists>r. ev = E_call c r \<and> (\<forall>e. r = Inl e \<longrightarrow> tolerated e))"

lemma perform_append:
  "perform K (ps @ qs) error s =
     (case perform K ps error s of
        ((ok, error), s) \<Rightarrow> if ok then perform K qs error s else ((False, error), s))"
  by (induction K ps error s rule: perform.induct) (auto simp: Let_def split: prod.splits)

text \<open>
  The step that failed, with its report; the events of a list of steps up to the failing one.
\<close>

definition failed_at ::
  "'w kernel \<Rightarrow> string option \<Rightarrow> string option \<Rightarrow> step \<Rightarrow> event \<Rightarrow> bool" where
  "failed_at K error error' st ev \<longleftrightarrow> (case st of (c, tolerated, what) \<Rightarrow>
     \<exists>r. ev = E_call c r \<and> r \<noteq> Inr 0 \<and> (\<forall>e. r = Inl e \<longrightarrow> \<not> tolerated e \<and>
       error' = set_error (what @ '': '' @ strerror K e) error))"

fun broke_off ::
  "'w kernel \<Rightarrow> string option \<Rightarrow> string option \<Rightarrow> step list \<Rightarrow> event list \<Rightarrow> bool" where
  "broke_off K error error' (st # sts) (ev # evs) \<longleftrightarrow>
     evs = [] \<and> failed_at K error error' st ev \<or>
     passed st ev \<and> broke_off K error error' sts evs"
| "broke_off K error error' _ _ \<longleftrightarrow> False"

lemma perform_result:
  assumes "perform K ps error s = ((ok, error'), s')"
  shows "\<exists>evs. extends evs s s' \<and>
    (if ok then error' = error \<and> list_all2 passed ps evs else broke_off K error error' ps evs)"
  using assms
proof (induction K ps error s rule: perform.induct)
  case (1 K error s)
  then show ?case by auto
next
  case (2 K c tolerated what ps error s)
  obtain n s1 where step: "call K c s = (n, s1)" by (metis surj_pair)
  from call_extends [OF step] obtain r where
    r: "extends [E_call c r] s s1" "n = c_int r" "\<forall>e. r = Inl e \<longrightarrow> errno s1 = e" by blast
  show ?case
  proof (cases "n \<noteq> 0 \<and> \<not> tolerated (errno s1)")
    case True
    with "2.prems" step have res: "\<not> ok" "s' = s1" "error' = set_error (errno_message K what s1) error"
      by auto
    have "failed_at K error error' (c, tolerated, what) (E_call c r)"
      unfolding failed_at_def res(3) using True r(2,3) by (auto simp: errno_message_def c_int_zero)
    with res r show ?thesis by (intro exI [of _ "[E_call c r]"]) simp
  next
    case False
    with "2.prems" step have "perform K ps error s1 = ((ok, error'), s')" by simp
    from "2.IH" [OF step [symmetric] refl False this] obtain evs where
      evs: "extends evs s1 s'" and ps: "if ok then error' = error \<and> list_all2 passed ps evs
        else broke_off K error error' ps evs"
      by blast
    have "passed (c, tolerated, what) (E_call c r)"
      using False r(2,3) by (cases r) (simp_all add: passed_def)
    with ps have "if ok then error' = error \<and>
        list_all2 passed ((c, tolerated, what) # ps) (E_call c r # evs)
      else broke_off K error error' ((c, tolerated, what) # ps) (E_call c r # evs)"
      by (cases ok) simp_all
    with extends_trans [OF r(1) evs] show ?thesis
      by (intro exI [of _ "E_call c r # evs"]) simp
  qed
qed

end
