(* ===== verification/Mc_Cgroup.thy ===== *)
theory Mc_Cgroup
  imports Mc_Util
begin

section \<open>minicontainer: cgroup v2\<close>

text \<open>
  Models \<open>minicontainer/src/cgroup.cpp\<close>. A \<open>Cgroup\<close> object is its member \<open>path_\<close>, empty until
  \<open>create\<close> has succeeded; a method that changes it returns the new one. An operation that reads
  a file may not return (when the file never ends), so it is a value of \<open>option\<close>. The mode of
  a new directory is 493, octal 755.
\<close>

definition kRoot :: string where
  "kRoot = ''/sys/fs/cgroup''"

definition kParent :: string where
  "kParent = ''/sys/fs/cgroup/minicontainer''"

definition kCgroup2Magic :: "32 word" where
  "kCgroup2Magic = 0x63677270"

subsection \<open>Emptying the root group\<close>

text \<open>The loop over the text of \<open>cgroup.procs\<close>: one write per line that is not empty.\<close>

function vacate_loop :: "'w kernel \<Rightarrow> string \<Rightarrow> string \<Rightarrow> nat \<Rightarrow> 'w os \<Rightarrow> 'w os" where
  "vacate_loop K leaf procs start s =
     (if start < length procs then
        let stop = (case find_from (CHR 0x0A) procs start of None \<Rightarrow> length procs | Some e \<Rightarrow> e);
            pid = substr procs start (stop - start);
            s = (if pid \<noteq> [] then snd (write_file K (leaf @ ''/cgroup.procs'') pid None s) else s)
        in vacate_loop K leaf procs (stop + 1) s
      else s)"
  by pat_completeness auto
termination
  by (relation "measure (\<lambda>(K, leaf, procs, start, s). length procs - start)")
     (auto simp: find_from_def dest: find_char_Some split: option.splits)

declare vacate_loop.simps [simp del]

definition vacate_root ::
  "'w kernel \<Rightarrow> string option \<Rightarrow> 'w os \<Rightarrow> ((bool \<times> string option) \<times> 'w os) option" where
  "vacate_root K error s = do {
     (procs, s) \<leftarrow> read_file K (kRoot @ ''/cgroup.procs'') s;
     (case procs of
        None \<Rightarrow> Some ((True, error), s)
      | Some procs \<Rightarrow>
          if procs = [] then Some ((True, error), s)
          else
            let leaf = kRoot @ ''/init'';
                (r, s) = call K (Sys_mkdir leaf 493) s
            in if r \<noteq> 0 \<and> errno s \<noteq> EEXIST then
                 Some ((False, set_error (errno_message K (''mkdir '' @ leaf) s) error), s)
               else Some ((True, error), vacate_loop K leaf procs 0 s))
   }"

subsection \<open>Enabling controllers\<close>

definition contains :: "string \<Rightarrow> string \<Rightarrow> bool" where
  "contains tx p \<longleftrightarrow> find_str p tx \<noteq> None"

definition busy_hint :: string where
  "busy_hint = newline @ ''  (cgroup v2 forbids enabling controllers while this cgroup '' @
     ''still has processes in it; try --cgroupns=private)''"

definition enable_controllers ::
  "'w kernel \<Rightarrow> string \<Rightarrow> string option \<Rightarrow> 'w os \<Rightarrow> ((bool \<times> string option) \<times> 'w os) option" where
  "enable_controllers K dir error s = do {
     (available, s) \<leftarrow> read_file K (dir @ ''/cgroup.controllers'') s;
     Some (case available of
       None \<Rightarrow>
         ((False, set_error (''cannot read '' @ dir @ ''/cgroup.controllers'') error), s)
     | Some available \<Rightarrow>
         let enable = (if contains available ''memory'' then ''+memory '' else []);
             enable = (if contains available ''pids'' then enable @ ''+pids'' else enable)
         in if enable = [] then
              ((False, set_error (''neither memory nor pids controller is available in '' @ dir)
                  error), s)
            else
              let ((ok, write_error), s) =
                    write_file K (dir @ ''/cgroup.subtree_control'') enable (Some []) s
              in if \<not> ok then
                   let error = set_error (the write_error) error;
                       error = (if errno s = EBUSY
                         then map_option (\<lambda>e. e @ busy_hint) error else error)
                   in ((False, error), s)
                 else ((True, error), s))
   }"

subsection \<open>The class\<close>

text \<open>The result of \<open>statfs\<close> is cast to \<open>unsigned int\<close>.\<close>

definition cgroup_v2_available :: "'w kernel \<Rightarrow> 'w os \<Rightarrow> bool \<times> 'w os" where
  "cgroup_v2_available K s =
     (let ((r, f_type), s) = call_value K (Sys_statfs kRoot) s in
      if r \<noteq> 0 then (False, s) else (word_of_int f_type = kCgroup2Magic, s))"

definition Cgroup_valid :: "string \<Rightarrow> bool" where
  "Cgroup_valid path \<longleftrightarrow> path \<noteq> []"

definition Cgroup_destroy :: "'w kernel \<Rightarrow> string \<Rightarrow> 'w os \<Rightarrow> 'w os" where
  "Cgroup_destroy K path s = (if path \<noteq> [] then snd (call K (Sys_rmdir path) s) else s)"

text \<open>The result, \<open>*error\<close> and \<open>path_\<close>.\<close>

definition Cgroup_create ::
  "'w kernel \<Rightarrow> string \<Rightarrow> string \<Rightarrow> string option \<Rightarrow> 'w os \<Rightarrow>
     ((bool \<times> string option \<times> string) \<times> 'w os) option" where
  "Cgroup_create K path name error s =
     (let (available, s) = cgroup_v2_available K s in
      if \<not> available then
        Some ((False, set_error (kRoot @
          '' is not a cgroup2 filesystem (this build only supports cgroup v2)'') error, path), s)
      else do {
        ((ok, error), s) \<leftarrow> vacate_root K error s;
        if \<not> ok then Some ((False, error, path), s)
        else do {
          ((ok, error), s) \<leftarrow> enable_controllers K kRoot error s;
          if \<not> ok then Some ((False, error, path), s)
          else
            let (r, s) = call K (Sys_mkdir kParent 493) s in
            if r \<noteq> 0 \<and> errno s \<noteq> EEXIST then
              Some ((False, set_error (errno_message K (''mkdir '' @ kParent) s) error, path), s)
            else do {
              ((ok, error), s) \<leftarrow> enable_controllers K kParent error s;
              if \<not> ok then Some ((False, error, path), s)
              else
                let dir = kParent @ ''/'' @ name;
                    (r, s) = call K (Sys_mkdir dir 493) s
                in if r \<noteq> 0 \<and> errno s \<noteq> EEXIST then
                     Some ((False, set_error (errno_message K (''mkdir '' @ dir) s) error, path), s)
                   else Some ((True, error, dir), s)
            }
        }
      })"

definition set_memory_limit ::
  "'w kernel \<Rightarrow> string \<Rightarrow> int \<Rightarrow> string option \<Rightarrow> 'w os \<Rightarrow> (bool \<times> string option) \<times> 'w os" where
  "set_memory_limit K path bytes error s =
     (let ((ok, error), s) = write_file K (path @ ''/memory.max'') (to_string bytes) error s in
      if \<not> ok then ((False, error), s)
      else ((True, error), snd (write_file K (path @ ''/memory.swap.max'') ''0'' None s)))"

definition set_pids_limit ::
  "'w kernel \<Rightarrow> string \<Rightarrow> int \<Rightarrow> string option \<Rightarrow> 'w os \<Rightarrow> (bool \<times> string option) \<times> 'w os" where
  "set_pids_limit K path n error s =
     write_file K (path @ ''/pids.max'') (to_string n) error s"

definition add_process ::
  "'w kernel \<Rightarrow> string \<Rightarrow> int \<Rightarrow> string option \<Rightarrow> 'w os \<Rightarrow> (bool \<times> string option) \<times> 'w os" where
  "add_process K path pid error s =
     write_file K (path @ ''/cgroup.procs'') (to_string pid) error s"

text \<open>\<open>strtoll\<close> reads a C string: up to a zero byte, if the file has one.\<close>

definition oom_kill_count :: "'w kernel \<Rightarrow> string \<Rightarrow> 'w os \<Rightarrow> (int \<times> 'w os) option" where
  "oom_kill_count K path s = do {
     (events, s) \<leftarrow> read_file K (path @ ''/memory.events'') s;
     Some (case events of
       None \<Rightarrow> (-1, s)
     | Some events \<Rightarrow>
         (case find_str ''oom_kill '' events of
            None \<Rightarrow> (-1, s)
          | Some pos \<Rightarrow> (strtoll 10 (c_string (drop (pos + 9) events)), s)))
   }"

definition current_memory :: "'w kernel \<Rightarrow> string \<Rightarrow> 'w os \<Rightarrow> (int \<times> 'w os) option" where
  "current_memory K path s = do {
     (current, s) \<leftarrow> read_file K (path @ ''/memory.current'') s;
     Some (case current of
       None \<Rightarrow> (-1, s)
     | Some current \<Rightarrow> (strtoll 10 (c_string current), s))
   }"

subsection \<open>What the operations do\<close>

text \<open>The loop over the text is a loop over its lines.\<close>

definition move_to :: "'w kernel \<Rightarrow> string \<Rightarrow> 'w os \<Rightarrow> string \<Rightarrow> 'w os" where
  "move_to K leaf s pid =
     (if pid \<noteq> [] then snd (write_file K (leaf @ ''/cgroup.procs'') pid None s) else s)"

lemma vacate_loop_eq:
  "vacate_loop K leaf procs start s = foldl (move_to K leaf) s (split_lines (drop start procs))"
proof (induction "length procs - start" arbitrary: start s rule: less_induct)
  case less
  let ?rest = "drop start procs"
  show ?case
  proof (cases "start < length procs")
    case False
    then show ?thesis by (simp add: vacate_loop.simps [of K leaf procs start s])
  next
    case True
    show ?thesis
    proof (cases "find_char (CHR 0x0A) ?rest")
      case None
      then have "find_from (CHR 0x0A) procs start = None" "CHR 0x0A \<notin> set ?rest"
        by (simp_all add: find_from_def find_char_None)
      moreover from this have "split_lines ?rest = [?rest]"
        using True by (simp add: split_lines_last)
      ultimately show ?thesis using True
        by (simp add: vacate_loop.simps [of K leaf procs start s] substr_def move_to_def
            vacate_loop.simps [of K leaf procs "Suc (length procs)"] Let_def)
    next
      case (Some i)
      with True have found: "find_from (CHR 0x0A) procs start = Some (start + i)"
        by (simp add: find_from_def)
      have "vacate_loop K leaf procs start s =
          vacate_loop K leaf procs (Suc (start + i)) (move_to K leaf s (take i ?rest))"
        using True found
        by (subst vacate_loop.simps) (simp add: substr_def move_to_def Let_def)
      also have "\<dots> = foldl (move_to K leaf) (move_to K leaf s (take i ?rest))
          (split_lines (drop (Suc (start + i)) procs))"
        using True by (intro less) simp
      also have "\<dots> = foldl (move_to K leaf) s (split_lines ?rest)"
        using find_char_takeWhile [OF Some] True
        by (simp add: split_lines_nonempty [of ?rest] drop_Suc tl_drop add.commute)
      finally show ?thesis .
    qed
  qed
qed

lemma foldl_move_to:
  "\<exists>blocks. extends (concat blocks) s (foldl (move_to K leaf) s ls) \<and>
    list_all2 (\<lambda>pid b. \<exists>ok. file_write (leaf @ ''/cgroup.procs'') pid ok b)
      (filter (\<lambda>l. l \<noteq> []) ls) blocks"
proof (induction ls arbitrary: s)
  case Nil
  then show ?case by (auto intro!: exI [of _ "[]"])
next
  case (Cons l ls)
  show ?case
  proof (cases "l = []")
    case True
    with Cons show ?thesis by (simp add: move_to_def)
  next
    case False
    obtain ok e s1 where wr: "write_file K (leaf @ ''/cgroup.procs'') l None s = ((ok, e), s1)"
      by (metis surj_pair)
    from write_file_trace [OF wr] obtain b where
      b: "extends b s s1" "file_write (leaf @ ''/cgroup.procs'') l ok b" by blast
    from Cons obtain blocks where blocks: "extends (concat blocks) s1 (foldl (move_to K leaf) s1 ls)"
      "list_all2 (\<lambda>pid b. \<exists>ok. file_write (leaf @ ''/cgroup.procs'') pid ok b)
        (filter (\<lambda>l. l \<noteq> []) ls) blocks" by blast
    have "foldl (move_to K leaf) s (l # ls) = foldl (move_to K leaf) s1 ls"
      using wr False by (simp add: move_to_def)
    with b blocks False extends_trans [OF b(1) blocks(1)] show ?thesis
      by (intro exI [of _ "b # blocks"]) auto
  qed
qed

lemma vacate_loop_writes:
  "\<exists>blocks. extends (concat blocks) s (vacate_loop K leaf procs 0 s) \<and>
    list_all2 (\<lambda>pid b. \<exists>ok. file_write (leaf @ ''/cgroup.procs'') pid ok b)
      (filter (\<lambda>l. l \<noteq> []) (lines_of procs)) blocks"
  using foldl_move_to [of s K leaf "split_lines procs"] by (simp add: vacate_loop_eq lines_of_eq)

text \<open>C34: \<open>vacate_root\<close> moves the processes of the root group one by one: when the list of pids
  could be read, is not empty and the leaf group exists or was made, there is exactly one open
  and at most one write per line of the list, in order, each write to the leaf's
  \<open>cgroup.procs\<close> with the whole pid and nothing else; a process that cannot be moved does not
  stop the loop and is not an error.\<close>

theorem vacate_root_moves:
  assumes read: "read_file K (kRoot @ ''/cgroup.procs'') s = Some (Some procs, s1)"
    and procs: "procs \<noteq> []"
    and mk: "call K (Sys_mkdir (kRoot @ ''/init'') 493) s1 = (r, s2)" "r = 0 \<or> errno s2 = EEXIST"
  shows "\<exists>s' blocks. vacate_root K error s = Some ((True, error), s') \<and>
    extends (concat blocks) s2 s' \<and>
    list_all2 (\<lambda>pid b. \<exists>ok. file_write (kRoot @ ''/init/cgroup.procs'') pid ok b)
      (filter (\<lambda>l. l \<noteq> []) (lines_of procs)) blocks"
proof -
  have "vacate_root K error s = Some ((True, error), vacate_loop K (kRoot @ ''/init'') procs 0 s2)"
    using assms by (auto simp: vacate_root_def)
  moreover have "(kRoot @ ''/init'') @ ''/cgroup.procs'' = kRoot @ ''/init/cgroup.procs''" by simp
  ultimately show ?thesis using vacate_loop_writes [of s2 K "kRoot @ ''/init''" procs] by auto
qed

lemma vacate_loop_quiet: "quiet s (vacate_loop K leaf procs 0 s)"
proof -
  from vacate_loop_writes [of s K leaf procs] obtain blocks where
    "extends (concat blocks) s (vacate_loop K leaf procs 0 s)" and
    b: "list_all2 (\<lambda>pid b. \<exists>ok. file_write (leaf @ ''/cgroup.procs'') pid ok b)
      (filter (\<lambda>l. l \<noteq> []) (lines_of procs)) blocks" by blast
  moreover from b have "\<forall>x \<in> set blocks. closes_own x"
    by (auto simp: list_all2_conv_all_nth in_set_conv_nth dest!: file_write_closes_own)
  ultimately show ?thesis by (blast intro: quietI closes_own_concat)
qed

lemma vacate_root_quiet:
  assumes "vacate_root K error s = Some ((ok, error'), s')"
  shows "quiet s s' \<and> (ok \<longrightarrow> error' = error)"
proof -
  from assms obtain procs s1 where rd: "read_file K (kRoot @ ''/cgroup.procs'') s = Some (procs, s1)"
    by (auto simp: vacate_root_def bind_eq_Some_conv)
  note q1 = read_file_quiet [OF rd]
  show ?thesis
  proof (cases "procs = None \<or> procs = Some []")
    case True
    with assms rd q1 show ?thesis by (auto simp: vacate_root_def)
  next
    case False
    then obtain p where p: "procs = Some p" "p \<noteq> []" by auto
    obtain r s2 where mk: "call K (Sys_mkdir (kRoot @ ''/init'') 493) s1 = (r, s2)"
      by (metis surj_pair)
    note q2 = quiet_trans [OF q1 call_quiet [OF mk, simplified]]
    note q3 = quiet_trans [OF q2 vacate_loop_quiet [of s2 K "kRoot @ ''/init''" p]]
    from q2 q3 assms rd p mk show ?thesis
      by (auto simp: vacate_root_def Let_def split: if_splits)
  qed
qed

lemma enable_controllers_quiet:
  assumes "enable_controllers K dir error s = Some ((ok, error'), s')"
  shows "quiet s s' \<and> (ok \<longrightarrow> error' = error)"
proof -
  from assms obtain av s1 where rd: "read_file K (dir @ ''/cgroup.controllers'') s = Some (av, s1)"
    by (auto simp: enable_controllers_def bind_eq_Some_conv)
  note q1 = read_file_quiet [OF rd]
  show ?thesis
  proof (cases av)
    case None
    with assms rd q1 show ?thesis by (auto simp: enable_controllers_def)
  next
    case (Some tx)
    define en where "en = (if contains tx ''pids''
      then (if contains tx ''memory'' then ''+memory '' else []) @ ''+pids''
      else (if contains tx ''memory'' then ''+memory '' else []))"
    obtain k e s2 where wr: "write_file K (dir @ ''/cgroup.subtree_control'') en (Some []) s1 = ((k, e), s2)"
      by (metis surj_pair)
    note q2 = quiet_trans [OF q1 write_file_quiet [OF wr]]
    have "(ok \<longrightarrow> error' = error) \<and> (s' = s1 \<or> s' = s2)"
      using assms rd wr Some
      by (simp add: enable_controllers_def Let_def en_def [symmetric] split: if_splits)
    with q1 q2 show ?thesis by blast
  qed
qed

lemma cgroup_v2_available_quiet: "cgroup_v2_available K s = (v, s') \<Longrightarrow> quiet s s'"
  by (auto simp: cgroup_v2_available_def dest!: call_value_quiet split: prod.splits if_splits)

text \<open>A stage of \<open>create\<close>: a step that may fail, then the rest.\<close>

lemma stageE:
  assumes "m \<bind> (\<lambda>((ok, error), s). if \<not> ok then Some ((False, error, path), s) else f error s) = Some r"
  obtains (fails) e s1 where "m = Some ((False, e), s1)" and "r = ((False, e, path), s1)"
    | (works) e s1 where "m = Some ((True, e), s1)" and "f e s1 = Some r"
  using assms by (cases m) (auto split: if_splits)

text \<open>A \<open>mkdir\<close> that may find its directory, then the rest.\<close>

lemma mkdirE:
  assumes "(case call K (Sys_mkdir dir mode) s of (r, s) \<Rightarrow>
      if r \<noteq> 0 \<and> errno s \<noteq> EEXIST then Some ((False, msg s, path), s) else f s) = Some r"
  obtains (fails) s1 where "quiet s s1" and "r = ((False, msg s1, path), s1)"
    | (works) s1 where "quiet s s1" and "f s1 = Some r"
  using assms call_quiet [of K "Sys_mkdir dir mode" s]
  by (cases "call K (Sys_mkdir dir mode) s") (auto split: if_splits)

lemma Cgroup_create_result:
  assumes "Cgroup_create K path name error s = Some ((ok, error', path'), s')"
  shows "quiet s s' \<and>
    (if ok then error' = error \<and> path' = kParent @ ''/'' @ name else path' = path)"
proof -
  obtain v s1 where av: "cgroup_v2_available K s = (v, s1)" by (metis surj_pair)
  note q1 = cgroup_v2_available_quiet [OF av]
  show ?thesis
  proof (cases v)
    case False
    with assms av q1 show ?thesis by (auto simp: Cgroup_create_def)
  next
    case True
    with av have av: "cgroup_v2_available K s = (True, s1)" by simp
    note run = assms [unfolded Cgroup_create_def Let_def av split_conv not_True_eq_False if_False]
    from run q1 show ?thesis
      by (elim stageE mkdirE)
         (auto dest!: vacate_root_quiet enable_controllers_quiet, (blast intro: quiet_trans)+)
  qed
qed

text \<open>A limit that was set was written completely; the swap limit follows the memory limit.\<close>

lemma set_memory_limit_result:
  assumes "set_memory_limit K path n error s = ((ok, error'), s')"
  shows "\<exists>evs. extends evs s s' \<and> closes_own evs \<and>
    (ok \<longrightarrow> performed [(path @ ''/memory.max'', to_string n)] evs \<and> error' = error)"
proof -
  obtain k e s1 where wr: "write_file K (path @ ''/memory.max'') (to_string n) error s = ((k, e), s1)"
    by (metis surj_pair)
  obtain k' e' s2 where sw: "write_file K (path @ ''/memory.swap.max'') ''0'' None s1 = ((k', e'), s2)"
    by (metis surj_pair)
  from write_file_performed [OF wr] obtain e1 where e1: "extends e1 s s1" "closes_own e1"
    "k \<longrightarrow> performed [(path @ ''/memory.max'', to_string n)] e1 \<and> e = error" by blast
  from write_file_performed [OF sw] obtain e2 where e2: "extends e2 s1 s2" "closes_own e2" by blast
  show ?thesis
  proof (cases k)
    case False
    with assms wr e1 show ?thesis by (auto simp: set_memory_limit_def)
  next
    case True
    with e1 have "performed [(path @ ''/memory.max'', to_string n)] (e1 @ e2)"
      using performed_more [of _ e1 "[]" e2] by simp
    with True assms wr sw e1 e2 extends_trans [OF e1(1) e2(1)] show ?thesis
      by (intro exI [of _ "e1 @ e2"]) (auto simp: set_memory_limit_def)
  qed
qed

lemma set_pids_limit_result:
  assumes "set_pids_limit K path n error s = ((ok, error'), s')"
  shows "\<exists>evs. extends evs s s' \<and> closes_own evs \<and>
    (ok \<longrightarrow> performed [(path @ ''/pids.max'', to_string n)] evs \<and> error' = error)"
  using assms [unfolded set_pids_limit_def] by (rule write_file_performed)

lemma add_process_result:
  assumes "add_process K path pid error s = ((ok, error'), s')"
  shows "\<exists>evs. extends evs s s' \<and> closes_own evs \<and>
    (ok \<longrightarrow> performed [(path @ ''/cgroup.procs'', to_string pid)] evs \<and> error' = error)"
  using assms [unfolded add_process_def] by (rule write_file_performed)

lemma oom_kill_count_quiet: "oom_kill_count K path s = Some (n, s') \<Longrightarrow> quiet s s'"
  by (auto simp: oom_kill_count_def bind_eq_Some_conv dest!: read_file_quiet split: option.splits)

lemma Cgroup_destroy_quiet: "quiet s (Cgroup_destroy K path s)"
  by (cases "call K (Sys_rmdir path) s") (auto simp: Cgroup_destroy_def dest!: call_quiet)

lemma vacate_root_moves_witness:
  "\<exists>s' blocks. vacate_root scripted (Some []) (fresh_os [A_int 3, A_bytes ''1'', A_fail EINTR, A_int 0,
      A_fail EEXIST, A_int 4, A_int 1, A_int 0]) = Some ((True, Some []), s') \<and>
    list_all2 (\<lambda>pid b. \<exists>ok. file_write (kRoot @ ''/init/cgroup.procs'') pid ok b) [''1''] blocks"
proof -
  let ?s = "fresh_os [A_int 3, A_bytes ''1'', A_fail EINTR, A_int 0, A_fail EEXIST, A_int 4, A_int 1,
    A_int 0] :: answer list os"
  have "\<not> isspace CHR ''1''" "strip_trailing ''1'' = ''1''"
    by (simp_all add: isspace_def strip_trailing.simps ends_blank_def)
  then have "\<exists>s1. read_file scripted (kRoot @ ''/cgroup.procs'') ?s = Some (Some ''1'', s1) \<and>
      world s1 = [A_fail EEXIST, A_int 4, A_int 1, A_int 0]"
    by (simp add: read_file_def read_loop.simps run_simps)
  then obtain s1 where rd: "read_file scripted (kRoot @ ''/cgroup.procs'') ?s = Some (Some ''1'', s1)"
    and w: "world s1 = [A_fail EEXIST, A_int 4, A_int 1, A_int 0]" by blast
  obtain r s2 where mk: "call scripted (Sys_mkdir (kRoot @ ''/init'') 493) s1 = (r, s2)"
    by (metis surj_pair)
  with w have "errno s2 = EEXIST" by (auto simp: call_def)
  then have "r = 0 \<or> errno s2 = EEXIST" by simp
  from vacate_root_moves [OF rd _ mk this, of "Some []"] show ?thesis
    by (auto simp: lines_of_eq split_lines_last)
qed

end
