(* ===== verification/Mc_Container.thy ===== *)
theory Mc_Container
  imports Mc_Cgroup
begin

section \<open>minicontainer: running a container\<close>

text \<open>
  Models \<open>minicontainer/src/container.cpp\<close>. The child that \<open>clone\<close> makes has its own memory and
  descriptor table, so \<open>child_main\<close> is a function of its own state; parent and child meet only
  in the kernel. The history of both is a merge of their traces, in which the pipe between them
  is a hypothesis. A directory's mode is the decimal of its octal number.
\<close>

record ContainerConfig =
  rootfs :: string
  hostname :: string
  memory_limit :: int
  pids_limit :: int
  isolate_network :: bool
  command :: "string list"

definition ContainerConfig_init :: ContainerConfig where
  "ContainerConfig_init = \<lparr>rootfs = [], hostname = ''container'', memory_limit = -1,
     pids_limit = -1, isolate_network = True, command = []\<rparr>"

subsection \<open>Setting up the file system\<close>

definition setup_rootfs ::
  "'w kernel \<Rightarrow> string \<Rightarrow> string option \<Rightarrow> 'w os \<Rightarrow> (bool \<times> string option) \<times> 'w os" where
  "setup_rootfs K dir error s =
     (let (r, s) = call K (Sys_mount None ''/'' None [MS_REC, MS_PRIVATE]) s in
      if r \<noteq> 0 then
        ((False, set_error (errno_message K ''mount(/, MS_REC|MS_PRIVATE)'' s) error), s)
      else let (r, s) = call K (Sys_mount (Some dir) dir None [MS_BIND, MS_REC]) s in
      if r \<noteq> 0 then
        ((False, set_error (errno_message K (''bind mount '' @ dir) s) error), s)
      else let put_old = dir @ ''/old_root''; (r, s) = call K (Sys_mkdir put_old 448) s in
      if r \<noteq> 0 \<and> errno s \<noteq> EEXIST then
        ((False, set_error (errno_message K (''mkdir '' @ put_old) s) error), s)
      else let (r, s) = call K (Sys_pivot_root dir put_old) s in
      if r \<noteq> 0 then
        ((False, set_error (errno_message K ''pivot_root'' s) error), s)
      else let (r, s) = call K (Sys_chdir ''/'') s in
      if r \<noteq> 0 then
        ((False, set_error (errno_message K ''chdir(/)'' s) error), s)
      else let (r, s) = call K (Sys_umount2 ''/old_root'' MNT_DETACH) s in
      if r \<noteq> 0 then
        ((False, set_error (errno_message K ''umount2(/old_root)'' s) error), s)
      else let s = snd (call K (Sys_rmdir ''/old_root'') s) in ((True, error), s))"

definition mount_proc ::
  "'w kernel \<Rightarrow> string option \<Rightarrow> 'w os \<Rightarrow> (bool \<times> string option) \<times> 'w os" where
  "mount_proc K error s =
     (let (r, s) = call K (Sys_mkdir ''/proc'' 365) s in
      if r \<noteq> 0 \<and> errno s \<noteq> EEXIST then
        ((False, set_error (errno_message K ''mkdir /proc'' s) error), s)
      else let (r, s) = call K (Sys_mount (Some ''proc'') ''/proc'' (Some ''proc'') []) s in
      if r \<noteq> 0 then
        ((False, set_error (errno_message K ''mount /proc'' s) error), s)
      else ((True, error), s))"

subsection \<open>The child\<close>

text \<open>The barrier: \<open>while (::read(fd, &byte, 1) < 0 && errno == EINTR)\<close>.\<close>

partial_function (option) barrier_loop :: "'w kernel \<Rightarrow> int \<Rightarrow> 'w os \<Rightarrow> 'w os option" where
  "barrier_loop K fd s =
     (let ((n, buf), s) = sys_read K fd 1 s in
      if n < 0 \<and> errno s = EINTR then barrier_loop K fd s else Some s)"

text \<open>How the child ends: it has become the command, or it exits.\<close>

datatype child_end = Exec | Exit int

text \<open>\<open>execvp\<close> returns only when it failed. An empty command makes \<open>argv[0]\<close> null.\<close>

definition child_main ::
  "'w kernel \<Rightarrow> ContainerConfig \<Rightarrow> int \<Rightarrow> int \<Rightarrow> 'w os \<Rightarrow> (child_end cpp \<times> 'w os) option" where
  "child_main K cfg ready_read_fd ready_write_fd s =
     (let s = snd (call K (Sys_close ready_write_fd) s) in do {
        s \<leftarrow> barrier_loop K ready_read_fd s;
        let s = snd (call K (Sys_close ready_read_fd) s);
        let (r, s) = call K (Sys_sethostname (hostname cfg)) s;
        Some (if r \<noteq> 0 then
          (Inr (Exit 1), put_err (''minicontainer: '' @ errno_message K ''sethostname'' s @ newline) s)
        else
          let ((ok, error), s) =
            (if rootfs cfg \<noteq> [] then setup_rootfs K (rootfs cfg) (Some []) s else ((True, Some []), s))
          in if \<not> ok then
            (Inr (Exit 1), put_err (''minicontainer: '' @ the error @ newline) s)
          else let ((ok, error), s) = mount_proc K error s in
          if \<not> ok then
            (Inr (Exit 1), put_err (''minicontainer: '' @ the error @ newline) s)
          else if command cfg = [] then (Inl Undefined_Behaviour, s)
          else let (n, s) = call K (Sys_execvp (command cfg)) s in
          if n \<noteq> -1 then (Inr Exec, s)
          else (Inr (Exit 127), put_err (''minicontainer: '' @
            errno_message K (''exec '' @ hd (command cfg)) s @ newline) s))
      })"

subsection \<open>The parent\<close>

definition namespace_kinds :: "string list" where
  "namespace_kinds = [''pid'', ''mnt'', ''net'', ''uts'', ''ipc'', ''cgroup'', ''user'']"

definition pad_right :: "nat \<Rightarrow> string \<Rightarrow> string" where
  "pad_right n tx = tx @ replicate (n - length tx) CHR '' ''"

definition print_namespace :: "'w kernel \<Rightarrow> string \<Rightarrow> 'w os \<Rightarrow> string \<Rightarrow> 'w os" where
  "print_namespace K pid s kind =
     (let (ns, s) = namespace_id K pid kind s in
      put_out (''    '' @ pad_right 7 kind @ '' '' @
        (case ns of None \<Rightarrow> ''(unavailable)'' | Some x \<Rightarrow> x) @ newline) s)"

definition print_namespaces :: "'w kernel \<Rightarrow> string \<Rightarrow> string \<Rightarrow> 'w os \<Rightarrow> 'w os" where
  "print_namespaces K pid label s =
     foldl (print_namespace K pid) (put_out (''  '' @ label @ newline) s) namespace_kinds"

definition clone_flags :: "ContainerConfig \<Rightarrow> flag list" where
  "clone_flags cfg = [CLONE_NEWPID, CLONE_NEWNS, CLONE_NEWUTS, CLONE_NEWIPC, SIGCHLD] @
     (if isolate_network cfg then [CLONE_NEWNET] else [])"

text \<open>
  \<open>struct ChildArgs\<close>, which \<open>clone\<close> takes the address of: the configuration and the two ends of
  the pipe. The child has a copy of this memory, so \<open>child_main\<close> has them as its arguments.
\<close>

definition child_args :: "ContainerConfig \<Rightarrow> int \<Rightarrow> int \<Rightarrow> datum" where
  "child_args cfg ready_read_fd ready_write_fd = D_list [
     D_list [D_string (rootfs cfg), D_string (hostname cfg), D_int (memory_limit cfg),
       D_int (pids_limit cfg), D_bool (isolate_network cfg), D_list (map D_string (command cfg))],
     D_int ready_read_fd, D_int ready_write_fd]"

text \<open>Nothing of it is lost: what the child is given determines the configuration.\<close>

lemma child_args_inject:
  "child_args cfg rfd wfd = child_args cfg' rfd' wfd' \<longleftrightarrow> cfg = cfg' \<and> rfd = rfd' \<and> wfd = wfd'"
proof -
  have "map D_string xs = map D_string ys \<longleftrightarrow> xs = ys" for xs ys
    by (simp add: inj_map_eq_map inj_def)
  then show ?thesis by (cases cfg; cases cfg') (auto simp: child_args_def)
qed

text \<open>A failed call prints its message on \<open>std::cerr\<close>.\<close>

definition complain :: "bool \<times> string option \<Rightarrow> 'w os \<Rightarrow> 'w os" where
  "complain res s =
     (if fst res then s else put_err (''minicontainer: '' @ the (snd res) @ newline) s)"

text \<open>The limits, when any is asked for: the group's path and the state.\<close>

definition apply_limits ::
  "'w kernel \<Rightarrow> ContainerConfig \<Rightarrow> int \<Rightarrow> 'w os \<Rightarrow> (string \<times> 'w os) option" where
  "apply_limits K cfg pid s = do {
     ((ok, cgroup_error, path), s) \<leftarrow> Cgroup_create K [] (''mc-'' @ to_string pid) (Some []) s;
     Some (if \<not> ok then
       (path, put_err (''minicontainer: cgroup setup failed: '' @ the cgroup_error @ newline) s)
     else
       let (e, s) =
             (if 0 < memory_limit cfg then
                let (res, s) = set_memory_limit K path (memory_limit cfg) cgroup_error s
                in (snd res, complain res s)
              else (cgroup_error, s));
           (e, s) =
             (if 0 < pids_limit cfg then
                let (res, s) = set_pids_limit K path (pids_limit cfg) e s
                in (snd res, complain res s)
              else (e, s));
           (res, s) = add_process K path pid e s
       in (path, complain res s))
   }"

partial_function (option) wait_loop :: "'w kernel \<Rightarrow> int \<Rightarrow> 'w os \<Rightarrow> (int option \<times> 'w os) option" where
  "wait_loop K pid s =
     (let ((r, status), s) = sys_waitpid K pid s in
      if r < 0 then
        if errno s \<noteq> EINTR then Some (None, s) else wait_loop K pid s
      else Some (Some status, s))"

text \<open>The macros of \<open>sys/wait.h\<close> on a status word.\<close>

definition wtermsig :: "int \<Rightarrow> int" where
  "wtermsig status = status mod 128"

definition wifexited :: "int \<Rightarrow> bool" where
  "wifexited status \<longleftrightarrow> wtermsig status = 0"

definition wexitstatus :: "int \<Rightarrow> int" where
  "wexitstatus status = status div 256 mod 256"

definition wifsignaled :: "int \<Rightarrow> bool" where
  "wifsignaled status \<longleftrightarrow> wtermsig status \<noteq> 0 \<and> wtermsig status \<noteq> 127"

text \<open>The end of \<open>run_container\<close>; \<open>strsignal\<close> is the C library's table of names.\<close>

definition report_status :: "(int \<Rightarrow> string) \<Rightarrow> int \<Rightarrow> 'w os \<Rightarrow> int \<times> 'w os" where
  "report_status strsignal status s =
     (if wifexited status then (wexitstatus status, s)
      else if wifsignaled status then
        let sig = wtermsig status in
        (128 + sig, put_out (''  container killed by signal '' @ to_string sig @ '' ('' @
          strsignal sig @ '')'' @ newline) s)
      else (-1, s))"

definition report_oom :: "'w kernel \<Rightarrow> string \<Rightarrow> 'w os \<Rightarrow> 'w os option" where
  "report_oom K path s =
     (if Cgroup_valid path then do {
        (oom, s) \<leftarrow> oom_kill_count K path s;
        Some (if 0 < oom then put_out (newline @ ''  cgroup OOM kills: '' @ to_string oom @
          ''  (the memory limit was enforced)'' @ newline) s else s)
      } else Some s)"

definition run_container ::
  "'w kernel \<Rightarrow> (int \<Rightarrow> string) \<Rightarrow> ContainerConfig \<Rightarrow> string option \<Rightarrow> 'w os \<Rightarrow>
     ((int \<times> string option) \<times> 'w os) option" where
  "run_container K strsignal cfg error s =
     (let ((r, ready_read_fd, ready_write_fd), s) = sys_pipe K s in
      if r \<noteq> 0 then Some ((-1, set_error (errno_message K ''pipe'' s) error), s)
      else let (pid, s) = call K (Sys_clone (clone_flags cfg) (child_args cfg ready_read_fd ready_write_fd)) s in
      if pid < 0 then Some ((-1, set_error (errno_message K ''clone'' s) error), s)
      else let s = snd (call K (Sys_close ready_read_fd) s) in do {
        (path, s) \<leftarrow>
          (if 0 < memory_limit cfg \<or> 0 < pids_limit cfg then apply_limits K cfg pid s
           else Some ([], s));
        let s = put_out (''  container pid on host   '' @ to_string pid @ newline) s;
        let s = print_namespaces K (to_string pid) ''container namespaces'' s;
        let s = put_out newline s;
        let s = snd (call K (Sys_close ready_write_fd) s);
        (status, s) \<leftarrow> wait_loop K pid s;
        (case status of
           None \<Rightarrow>
             Some ((-1, set_error (errno_message K ''waitpid'' s) error), Cgroup_destroy K path s)
         | Some status \<Rightarrow> do {
             s \<leftarrow> report_oom K path s;
             let (code, s) = report_status strsignal status s;
             Some ((code, error), Cgroup_destroy K path s)
           })
      })"

subsection \<open>The setup is a list of steps\<close>

definition rootfs_steps :: "string \<Rightarrow> step list" where
  "rootfs_steps dir =
     [(Sys_mount None ''/'' None [MS_REC, MS_PRIVATE], strict, ''mount(/, MS_REC|MS_PRIVATE)''),
      (Sys_mount (Some dir) dir None [MS_BIND, MS_REC], strict, ''bind mount '' @ dir),
      (Sys_mkdir (dir @ ''/old_root'') 448, may_exist, ''mkdir '' @ dir @ ''/old_root''),
      (Sys_pivot_root dir (dir @ ''/old_root''), strict, ''pivot_root''),
      (Sys_chdir ''/'', strict, ''chdir(/)''),
      (Sys_umount2 ''/old_root'' MNT_DETACH, strict, ''umount2(/old_root)''),
      (Sys_rmdir ''/old_root'', \<lambda>_. True, [])]"

definition proc_steps :: "step list" where
  "proc_steps =
     [(Sys_mkdir ''/proc'' 365, may_exist, ''mkdir /proc''),
      (Sys_mount (Some ''proc'') ''/proc'' (Some ''proc'') [], strict, ''mount /proc'')]"

definition child_steps :: "ContainerConfig \<Rightarrow> step list" where
  "child_steps cfg = (Sys_sethostname (hostname cfg), strict, ''sethostname'') #
     (if rootfs cfg \<noteq> [] then rootfs_steps (rootfs cfg) else []) @ proc_steps"

lemma setup_rootfs_eq: "setup_rootfs K dir error s = perform K (rootfs_steps dir) error s"
  by (simp add: setup_rootfs_def rootfs_steps_def Let_def case_prod_beta cong: if_cong)

lemma mount_proc_eq: "mount_proc K error s = perform K proc_steps error s"
  by (simp add: mount_proc_def proc_steps_def Let_def case_prod_beta cong: if_cong)

text \<open>After the barrier, the child performs its steps and then executes the command.\<close>

definition exec_command ::
  "'w kernel \<Rightarrow> ContainerConfig \<Rightarrow> 'w os \<Rightarrow> child_end cpp \<times> 'w os" where
  "exec_command K cfg s =
     (if command cfg = [] then (Inl Undefined_Behaviour, s)
      else let (n, s) = call K (Sys_execvp (command cfg)) s in
      if n \<noteq> -1 then (Inr Exec, s)
      else (Inr (Exit 127), put_err (''minicontainer: '' @
        errno_message K (''exec '' @ hd (command cfg)) s @ newline) s))"

definition child_setup ::
  "'w kernel \<Rightarrow> ContainerConfig \<Rightarrow> 'w os \<Rightarrow> child_end cpp \<times> 'w os" where
  "child_setup K cfg s =
     (case perform K (child_steps cfg) (Some []) s of
        ((ok, error), s) \<Rightarrow>
          if \<not> ok then (Inr (Exit 1), put_err (''minicontainer: '' @ the error @ newline) s)
          else exec_command K cfg s)"

lemma child_main_eq:
  "child_main K cfg rfd wfd s = do {
     s \<leftarrow> barrier_loop K rfd (snd (call K (Sys_close wfd) s));
     Some (child_setup K cfg (snd (call K (Sys_close rfd) s)))
   }"
proof (cases "barrier_loop K rfd (snd (call K (Sys_close wfd) s))")
  case None
  then show ?thesis by (simp add: child_main_def Let_def)
next
  case (Some s1)
  define s2 where "s2 = snd (call K (Sys_close rfd) s1)"
  obtain r s3 where host: "call K (Sys_sethostname (hostname cfg)) s2 = (r, s3)" by (metis surj_pair)
  show ?thesis
  proof (cases "r = 0")
    case False
    with Some host show ?thesis
      by (simp add: child_main_def child_setup_def child_steps_def s2_def [symmetric] Let_def)
  next
    case r: True
    show ?thesis
    proof (cases "rootfs cfg = []")
      case True
      with Some host r show ?thesis
        by (simp add: child_main_def child_setup_def child_steps_def s2_def [symmetric] Let_def
            mount_proc_eq exec_command_def split: prod.split)
    next
      case False
      with Some host r show ?thesis
        by (simp add: child_main_def child_setup_def child_steps_def s2_def [symmetric] Let_def
            setup_rootfs_eq mount_proc_eq exec_command_def perform_append split: prod.split)
    qed
  qed
qed

subsection \<open>The loops\<close>

text \<open>Reads of the barrier: all interrupted but the last.\<close>

definition barrier_reads :: "int \<Rightarrow> event list \<Rightarrow> bool" where
  "barrier_reads fd evs \<longleftrightarrow> (\<exists>rs q. evs = rs @ [E_read fd 1 q] \<and>
     (\<forall>ev \<in> set rs. ev = E_read fd 1 (Inl EINTR)) \<and> q \<noteq> Inl EINTR)"

lemma barrier_loop_reads:
  assumes "barrier_loop K fd s = Some s'"
  shows "\<exists>evs. extends evs s s' \<and> barrier_reads fd evs"
proof (rule barrier_loop.raw_induct
    [where P = "\<lambda>K fd s s'. \<exists>evs. extends evs s s' \<and> barrier_reads fd evs", OF _ assms], goal_cases)
  case (1 f K fd s s')
  obtain n buf s1 where rd: "sys_read K fd 1 s = ((n, buf), s1)" by (metis surj_pair)
  from sys_read_trace [OF rd] obtain q where q: "extends [E_read fd 1 q] s s1"
    "(n, buf) = filled q" "\<forall>e. q = Inl e \<longrightarrow> errno s1 = e" by (auto simp: extends_def)
  show ?case
  proof (cases "n < 0 \<and> errno s1 = EINTR")
    case True
    with 1(2) rd have "f K fd s1 = Some s'" by simp
    from 1(1) [OF this] obtain evs where evs: "extends evs s1 s'" "barrier_reads fd evs" by blast
    from True q(2,3) have "q = Inl EINTR" by (cases q) (auto simp: filled_def)
    with evs(2) have "barrier_reads fd (E_read fd 1 q # evs)"
      unfolding barrier_reads_def by (metis append_Cons set_ConsD)
    with extends_trans [OF q(1) evs(1)] show ?thesis by auto
  next
    case False
    with 1(2) rd have "s' = s1" by (auto split: if_splits)
    moreover have "q \<noteq> Inl EINTR" using False q(2,3) by (auto simp: filled_def)
    ultimately show ?thesis using q(1)
      by (intro exI [of _ "[E_read fd 1 q]"]) (auto simp: barrier_reads_def)
  qed
qed

text \<open>The barrier opens when a read is not interrupted; it has no other way to go on.\<close>

fun barrier_opens :: "'w kernel \<Rightarrow> int \<Rightarrow> nat \<Rightarrow> 'w \<Rightarrow> bool" where
  "barrier_opens K fd 0 w = False"
| "barrier_opens K fd (Suc m) w =
     (case k_read K fd 1 w of
        (r, w') \<Rightarrow> if r = Inl EINTR then barrier_opens K fd m w' else True)"

lemma barrier_loop_returns:
  "barrier_opens K fd m (world s) \<Longrightarrow> \<exists>s'. barrier_loop K fd s = Some s'"
proof (induction m arbitrary: s)
  case 0
  then show ?case by simp
next
  case (Suc m)
  obtain r w where step: "k_read K fd 1 (world s) = (r, w)" by (metis surj_pair)
  show ?case
  proof (cases "r = Inl EINTR")
    case True
    with Suc.prems step have "barrier_opens K fd m w" by simp
    with True step Suc.IH show ?thesis
      by (simp add: barrier_loop.simps [of K fd s] run_simps)
  next
    case False
    with step show ?thesis
      by (cases r) (simp_all add: barrier_loop.simps [of K fd s] run_simps)
  qed
qed

lemma wait_loop_waits:
  assumes "wait_loop K pid s = Some r" and "0 \<le> pid"
  shows "\<exists>evs q. extends (evs @ [E_waitpid pid q]) s (snd r) \<and>
    (\<forall>ev \<in> set evs. ev = E_waitpid pid (Inl EINTR)) \<and>
    (case q of Inl e \<Rightarrow> e \<noteq> EINTR \<and> fst r = None \<and> errno (snd r) = e | Inr st \<Rightarrow> fst r = Some st)"
proof -
  let ?P = "\<lambda>K pid s r. 0 \<le> pid \<longrightarrow> (\<exists>evs q. extends (evs @ [E_waitpid pid q]) s (snd r) \<and>
    (\<forall>ev \<in> set evs. ev = E_waitpid pid (Inl EINTR)) \<and>
    (case q of Inl e \<Rightarrow> e \<noteq> EINTR \<and> fst r = None \<and> errno (snd r) = e | Inr st \<Rightarrow> fst r = Some st))"
  have "?P K pid s r"
  proof (rule wait_loop.raw_induct [where P = ?P, OF _ assms(1)], goal_cases)
    case (1 f K pid s r)
    obtain n st s1 where rd: "sys_waitpid K pid s = ((n, st), s1)" by (metis surj_pair)
    from sys_waitpid_trace [OF rd] obtain q where q: "extends [E_waitpid pid q] s s1"
      "(n, st) = (case q of Inl _ \<Rightarrow> (-1, 0) | Inr st \<Rightarrow> (pid, st))" "\<forall>e. q = Inl e \<longrightarrow> errno s1 = e"
      by (auto simp: extends_def)
    show ?case
    proof (intro impI, cases q)
      case (Inr x)
      assume "0 \<le> pid"
      with Inr q 1(2) rd have "r = (Some x, s1)" by simp
      with Inr q(1) show "\<exists>evs q. extends (evs @ [E_waitpid pid q]) s (snd r) \<and>
          (\<forall>ev \<in> set evs. ev = E_waitpid pid (Inl EINTR)) \<and>
          (case q of Inl e \<Rightarrow> e \<noteq> EINTR \<and> fst r = None \<and> errno (snd r) = e
            | Inr st \<Rightarrow> fst r = Some st)"
        by (intro exI [of _ "[]"] exI [of _ q]) simp
    next
      case (Inl e)
      assume pid: "0 \<le> pid"
      show "\<exists>evs q. extends (evs @ [E_waitpid pid q]) s (snd r) \<and>
          (\<forall>ev \<in> set evs. ev = E_waitpid pid (Inl EINTR)) \<and>
          (case q of Inl e \<Rightarrow> e \<noteq> EINTR \<and> fst r = None \<and> errno (snd r) = e
            | Inr st \<Rightarrow> fst r = Some st)"
      proof (cases "e = EINTR")
        case False
        with Inl q 1(2) rd have "r = (None, s1)" by simp
        with False Inl q show ?thesis by (intro exI [of _ "[]"] exI [of _ q]) simp
      next
        case True
        with Inl q 1(2) rd have "f K pid s1 = Some r" by simp
        from 1(1) [OF this] pid obtain evs q' where evs: "extends (evs @ [E_waitpid pid q']) s1 (snd r)"
          "\<forall>ev \<in> set evs. ev = E_waitpid pid (Inl EINTR)"
          "case q' of Inl e \<Rightarrow> e \<noteq> EINTR \<and> fst r = None \<and> errno (snd r) = e | Inr st \<Rightarrow> fst r = Some st"
          by blast
        with True Inl extends_trans [OF q(1) evs(1)] show ?thesis
          by (intro exI [of _ "E_waitpid pid q # evs"] exI [of _ q']) simp
      qed
    qed
  qed
  with assms(2) show ?thesis by blast
qed

subsection \<open>What the child does\<close>

lemma exec_command_result:
  assumes "exec_command K cfg s = (res, s')" and "command cfg \<noteq> []"
  shows "\<exists>q msg. trace s' = trace s @ [E_call (Sys_execvp (command cfg)) q] \<and> out s' = out s \<and>
    err s' = err s @ msg \<and>
    (if c_int q \<noteq> -1 then res = Inr Exec \<and> msg = []
     else res = Inr (Exit 127) \<and> (\<forall>e. q = Inl e \<longrightarrow> msg = ''minicontainer: exec '' @
       hd (command cfg) @ '': '' @ strerror K e @ newline))"
proof -
  obtain n s1 where c: "call K (Sys_execvp (command cfg)) s = (n, s1)" by (metis surj_pair)
  from call_extends [OF c] obtain q where
    q: "n = c_int q" "extends [E_call (Sys_execvp (command cfg)) q] s s1"
      "\<forall>e. q = Inl e \<longrightarrow> errno s1 = e" by blast
  let ?msg = "if c_int q \<noteq> -1 then [] else ''minicontainer: '' @
    errno_message K (''exec '' @ hd (command cfg)) s1 @ newline"
  from q assms c have "res = (if c_int q \<noteq> -1 then Inr Exec else Inr (Exit 127))"
    "s' = put_err ?msg s1"
    by (auto simp: exec_command_def put_err_def split: if_splits)
  with q show ?thesis
    by (intro exI [of _ q] exI [of _ ?msg]) (auto simp: extends_def errno_message_def)
qed

text \<open>
  How a child that passed the barrier can end: it became the command after all of its steps,
  the command could not be executed, or a step failed and it reported that step.
\<close>

definition child_ended ::
  "'w kernel \<Rightarrow> ContainerConfig \<Rightarrow> child_end cpp \<Rightarrow> event list \<Rightarrow> string \<Rightarrow> bool" where
  "child_ended K cfg res evs msg \<longleftrightarrow>
     res = Inr (Exit 1) \<and> (\<exists>report. broke_off K (Some []) (Some report) (child_steps cfg) evs \<and>
       msg = ''minicontainer: '' @ report @ newline) \<or>
     (\<exists>done_steps q. evs = done_steps @ [E_call (Sys_execvp (command cfg)) q] \<and>
       list_all2 passed (child_steps cfg) done_steps \<and>
       (if c_int q \<noteq> -1 then res = Inr Exec \<and> msg = []
        else res = Inr (Exit 127) \<and> (\<forall>e. q = Inl e \<longrightarrow> msg =
          ''minicontainer: exec '' @ hd (command cfg) @ '': '' @ strerror K e @ newline)))"

lemma perform_error:
  assumes "perform K ps (Some x) s = ((ok, error'), s')"
  shows "\<exists>y. error' = Some y"
  using assms
  by (induction K ps "Some x" s rule: perform.induct) (auto simp: Let_def split: prod.splits if_splits)

lemma child_setup_result:
  assumes run: "child_setup K cfg s = (res, s')" and cmd: "command cfg \<noteq> []"
  shows "\<exists>evs msg. trace s' = trace s @ evs \<and> out s' = out s \<and> err s' = err s @ msg \<and>
    child_ended K cfg res evs msg"
proof -
  obtain ok e s1 where p: "perform K (child_steps cfg) (Some []) s = ((ok, e), s1)"
    by (metis surj_pair)
  from perform_error [OF p] obtain report where e: "e = Some report" by blast
  from perform_result [OF p] obtain evs where evs: "extends evs s s1"
    "if ok then e = Some [] \<and> list_all2 passed (child_steps cfg) evs
     else broke_off K (Some []) e (child_steps cfg) evs" by blast
  show ?thesis
  proof (cases ok)
    case False
    with run p e have "res = Inr (Exit 1)" "s' = put_err (''minicontainer: '' @ report @ newline) s1"
      by (auto simp: child_setup_def)
    with False evs e show ?thesis
      by (intro exI [of _ evs]) (auto simp: child_ended_def extends_def)
  next
    case True
    with run p have "exec_command K cfg s1 = (res, s')" by (simp add: child_setup_def)
    from exec_command_result [OF this cmd] obtain q msg where
      q: "trace s' = trace s1 @ [E_call (Sys_execvp (command cfg)) q]" "out s' = out s1"
        "err s' = err s1 @ msg"
      and r: "if c_int q \<noteq> -1 then res = Inr Exec \<and> msg = []
        else res = Inr (Exit 127) \<and> (\<forall>e. q = Inl e \<longrightarrow> msg = ''minicontainer: exec '' @
          hd (command cfg) @ '': '' @ strerror K e @ newline)" by blast
    let ?evs = "evs @ [E_call (Sys_execvp (command cfg)) q]"
    have "list_all2 passed (child_steps cfg) evs" using evs(2) True by simp
    with r have "child_ended K cfg res ?evs msg" unfolding child_ended_def by blast
    with evs(1) q show ?thesis
      by (intro exI [of _ ?evs] exI [of _ msg]) (simp add: extends_def)
  qed
qed

lemma child_main_result:
  assumes run: "child_main K cfg rfd wfd s = Some (res, s')" and cmd: "command cfg \<noteq> []"
  shows "\<exists>c1 reads c2 evs msg. trace s' = trace s @ E_call (Sys_close wfd) c1 # reads @
      E_call (Sys_close rfd) c2 # evs \<and> barrier_reads rfd reads \<and>
    child_ended K cfg res evs msg \<and> out s' = out s \<and> err s' = err s @ msg"
proof -
  obtain n s1 where c1: "call K (Sys_close wfd) s = (n, s1)" by (metis surj_pair)
  from run c1 obtain s2 where loop: "barrier_loop K rfd s1 = Some s2"
    by (auto simp: child_main_eq bind_eq_Some_conv)
  obtain m s3 where c2: "call K (Sys_close rfd) s2 = (m, s3)" by (metis surj_pair)
  from run c1 loop c2 have "child_setup K cfg s3 = (res, s')" by (simp add: child_main_eq)
  from child_setup_result [OF this cmd] obtain evs msg where
    e: "trace s' = trace s3 @ evs" "out s' = out s3" "err s' = err s3 @ msg"
      "child_ended K cfg res evs msg" by blast
  from barrier_loop_reads [OF loop] obtain reads where
    r: "extends reads s1 s2" "barrier_reads rfd reads" by blast
  from call_extends [OF c1] obtain q1 where q1: "extends [E_call (Sys_close wfd) q1] s s1" by blast
  from call_extends [OF c2] obtain q2 where q2: "extends [E_call (Sys_close rfd) q2] s2 s3" by blast
  from e q1 q2 r show ?thesis
    by (intro exI [of _ q1] exI [of _ reads] exI [of _ q2] exI [of _ evs] exI [of _ msg])
       (simp add: extends_def)
qed

subsection \<open>What the parent does\<close>

text \<open>A run with its events, which close only what they open, and what it prints on \<open>std::cerr\<close>.\<close>

definition says :: "event list \<Rightarrow> string \<Rightarrow> 'w os \<Rightarrow> 'w os \<Rightarrow> bool" where
  "says evs msg s s' \<longleftrightarrow>
     trace s' = trace s @ evs \<and> err s' = err s @ msg \<and> closes_own evs"

lemma says_refl [simp]: "says [] [] s s"
  by (simp add: says_def)

lemma says_trans: "says evs msg s s1 \<Longrightarrow> says evs' msg' s1 s' \<Longrightarrow> says (evs @ evs') (msg @ msg') s s'"
  by (simp add: says_def)

lemma extends_says: "extends evs s s' \<Longrightarrow> closes_own evs \<Longrightarrow> says evs [] s s'"
  by (simp add: extends_def says_def)

lemma quiet_says: "quiet s s' \<Longrightarrow> \<exists>evs. says evs [] s s'"
  by (auto simp: quiet_def dest: extends_says)

lemma put_out_says: "says [] [] s (put_out x s)"
  by (simp add: says_def)

text \<open>A step that complains when it failed, and writes \<open>ws\<close> when it did not.\<close>

definition complains_unless :: "(string \<times> string) list \<Rightarrow> 'w os \<Rightarrow> 'w os \<Rightarrow> bool" where
  "complains_unless ws s s' \<longleftrightarrow>
     (\<exists>evs msg. says evs msg s s' \<and> (msg = [] \<longrightarrow> performed ws evs))"

lemma complains_refl: "complains_unless [] s s"
  unfolding complains_unless_def by (intro exI [of _ "[]"]) simp

lemma complains_trans:
  "complains_unless ws s s1 \<Longrightarrow> complains_unless ws' s1 s' \<Longrightarrow> complains_unless (ws @ ws') s s'"
  unfolding complains_unless_def
  by (elim exE conjE) (intro exI conjI, rule says_trans, auto intro: performed_append)

lemma complain_unless:
  assumes "\<exists>evs. extends evs s s1 \<and> closes_own evs \<and> (ok \<longrightarrow> performed ws evs \<and> e' = e)"
  shows "complains_unless ws s (complain (ok, e') s1)"
  using assms
  by (cases ok) (fastforce simp: complains_unless_def complain_def says_def extends_def)+

text \<open>The values that put a process under its limits.\<close>

definition group_of :: "int \<Rightarrow> string" where
  "group_of pid = kParent @ ''/mc-'' @ to_string pid"

definition limit_writes :: "ContainerConfig \<Rightarrow> int \<Rightarrow> (string \<times> string) list" where
  "limit_writes cfg pid =
     (if 0 < memory_limit cfg
      then [(group_of pid @ ''/memory.max'', to_string (memory_limit cfg))] else []) @
     (if 0 < pids_limit cfg
      then [(group_of pid @ ''/pids.max'', to_string (pids_limit cfg))] else []) @
     [(group_of pid @ ''/cgroup.procs'', to_string pid)]"

lemma apply_limits_result:
  assumes "apply_limits K cfg pid s = Some (path, s')"
  shows "complains_unless (limit_writes cfg pid) s s' \<and>
    (path = [] \<longrightarrow> (\<exists>evs msg. says evs msg s s' \<and> msg \<noteq> [])) \<and> path \<in> {[], group_of pid}"
proof -
  from assms obtain ok e1 p s1 where
    cr: "Cgroup_create K [] (''mc-'' @ to_string pid) (Some []) s = Some ((ok, e1, p), s1)"
    by (auto simp: apply_limits_def bind_eq_Some_conv)
  from Cgroup_create_result [OF cr] have q: "quiet s s1"
    and p: "p = (if ok then group_of pid else [])"
    by (auto simp: group_of_def split: if_splits)
  from quiet_says [OF q] obtain e0 where e0: "says e0 [] s s1" by blast
  show ?thesis
  proof (cases ok)
    case False
    define msg where "msg = ''minicontainer: cgroup setup failed: '' @ the e1 @ newline"
    from False assms cr p have "path = []" "s' = put_err msg s1"
      by (auto simp: apply_limits_def msg_def)
    then have "says e0 msg s s'" using e0 by (simp add: says_def)
    moreover have "msg \<noteq> []" by (simp add: msg_def)
    ultimately show ?thesis using \<open>path = []\<close> by (auto simp: complains_unless_def)
  next
    case True
    obtain e2 s2 where m: "(if 0 < memory_limit cfg then
          let (res, s) = set_memory_limit K p (memory_limit cfg) e1 s1 in (snd res, complain res s)
        else (e1, s1)) = (e2, s2)" by (rule prod.exhaust)
    obtain e3 s3 where l: "(if 0 < pids_limit cfg then
          let (res, s) = set_pids_limit K p (pids_limit cfg) e2 s2 in (snd res, complain res s)
        else (e2, s2)) = (e3, s3)" by (rule prod.exhaust)
    obtain k e4 s4 where a: "add_process K p pid e3 s3 = ((k, e4), s4)" by (metis surj_pair)
    have let_pair: "(let (x, y) = (a, b) in f x y) = f a b" for a b and f :: "_ \<Rightarrow> _ \<Rightarrow> 'b"
      by simp
    have "apply_limits K cfg pid s = Some (p, complain (k, e4) s4)"
      unfolding apply_limits_def cr
      by (simp only: bind.simps split_conv True not_True_eq_False if_False m l a let_pair)
    with assms have res: "path = p" "s' = complain (k, e4) s4" by simp_all
    have path: "p = group_of pid" using p True by simp
    have 1: "complains_unless (if 0 < memory_limit cfg
        then [(group_of pid @ ''/memory.max'', to_string (memory_limit cfg))] else []) s1 s2"
    proof (cases "0 < memory_limit cfg")
      case False
      with m show ?thesis by (simp add: complains_refl)
    next
      case True
      obtain k e s5 where r: "set_memory_limit K p (memory_limit cfg) e1 s1 = ((k, e), s5)"
        by (metis surj_pair)
      with m True have "s2 = complain (k, e) s5" by auto
      with complain_unless [OF set_memory_limit_result [OF r]] True path show ?thesis by simp
    qed
    have 2: "complains_unless (if 0 < pids_limit cfg
        then [(group_of pid @ ''/pids.max'', to_string (pids_limit cfg))] else []) s2 s3"
    proof (cases "0 < pids_limit cfg")
      case False
      with l show ?thesis by (simp add: complains_refl)
    next
      case True
      obtain k e s5 where r: "set_pids_limit K p (pids_limit cfg) e2 s2 = ((k, e), s5)"
        by (metis surj_pair)
      with l True have "s3 = complain (k, e) s5" by auto
      with complain_unless [OF set_pids_limit_result [OF r]] True path show ?thesis by simp
    qed
    have 3: "complains_unless [(group_of pid @ ''/cgroup.procs'', to_string pid)] s3 s'"
      using complain_unless [OF add_process_result [OF a]] res path by simp
    have 0: "complains_unless [] s s1" using e0 by (auto simp: complains_unless_def)
    from complains_trans [OF 0 complains_trans [OF 1 complains_trans [OF 2 3]]]
    have "complains_unless (limit_writes cfg pid) s s'" by (simp add: limit_writes_def)
    moreover have "group_of pid \<noteq> []" by (simp add: group_of_def kParent_def)
    ultimately show ?thesis using res path by simp
  qed
qed

text \<open>Printing the namespaces of a process reads one link per kind, and nothing else.\<close>

definition namespace_reads :: "string \<Rightarrow> string list \<Rightarrow> event list \<Rightarrow> bool" where
  "namespace_reads pid kinds evs \<longleftrightarrow>
     list_all2 (\<lambda>k ev. \<exists>q. ev = E_readlink (''/proc/'' @ pid @ ''/ns/'' @ k) 127 q) kinds evs"

lemma print_namespace_says:
  "\<exists>ev. says [ev] [] s (print_namespace K pid s kind) \<and> namespace_reads pid [kind] [ev]"
proof -
  obtain n buf s1 where r:
    "sys_readlink K (''/proc/'' @ pid @ ''/ns/'' @ kind) 127 s = ((n, buf), s1)" by (metis surj_pair)
  then obtain q where "says [E_readlink (''/proc/'' @ pid @ ''/ns/'' @ kind) 127 q] [] s s1"
    by (auto simp: sys_readlink_def Let_def says_def closes_own_def split: prod.splits)
  with r show ?thesis
    by (intro exI [of _ "E_readlink (''/proc/'' @ pid @ ''/ns/'' @ kind) 127 q"])
       (auto simp: print_namespace_def namespace_id_def says_def namespace_reads_def)
qed

lemma foldl_namespaces_says:
  "\<exists>evs. says evs [] s (foldl (print_namespace K pid) s ks) \<and> namespace_reads pid ks evs"
proof (induction ks arbitrary: s)
  case Nil
  show ?case by (auto simp: namespace_reads_def intro: says_refl)
next
  case (Cons k ks)
  from print_namespace_says obtain ev where
    e1: "says [ev] [] s (print_namespace K pid s k)" "namespace_reads pid [k] [ev]" by blast
  from Cons obtain e2 where
    e2: "says e2 [] (print_namespace K pid s k) (foldl (print_namespace K pid) (print_namespace K pid s k) ks)"
    "namespace_reads pid ks e2" by blast
  from says_trans [OF e1(1) e2(1)] e1(2) e2(2) show ?case
    by (intro exI [of _ "ev # e2"]) (simp add: namespace_reads_def)
qed

lemma print_namespaces_says:
  "\<exists>evs. says evs [] s (print_namespaces K pid label s) \<and> namespace_reads pid namespace_kinds evs"
  using foldl_namespaces_says [of "put_out (''  '' @ label @ newline) s" K pid namespace_kinds]
  by (simp add: print_namespaces_def says_def)

lemma report_oom_says: "report_oom K path s = Some s' \<Longrightarrow> \<exists>evs. says evs [] s s'"
  by (auto simp: report_oom_def bind_eq_Some_conv says_def dest!: oom_kill_count_quiet quiet_says
      split: if_splits)

lemma report_status_says: "says [] [] s (snd (report_status strsignal st s))"
  by (simp add: report_status_def says_def Let_def)

text \<open>The exit status that stands for a status word.\<close>

definition container_code :: "int \<Rightarrow> int" where
  "container_code st =
     (if st mod 128 = 0 then st div 256 mod 256
      else if st mod 128 = 127 then -1 else 128 + st mod 128)"

lemma report_status_code: "fst (report_status strsignal st s) = container_code st"
  by (simp add: report_status_def container_code_def Let_def wifexited_def wifsignaled_def wexitstatus_def
      wtermsig_def)

lemma container_code_range: "-1 \<le> container_code st \<and> container_code st \<le> 255"
proof -
  have "0 \<le> st mod 128 \<and> st mod 128 < 128 \<and> 0 \<le> st div 256 mod 256 \<and> st div 256 mod 256 < 256"
    by simp
  then show ?thesis by (smt (verit) container_code_def)
qed

text \<open>
  What a parent does between making the child and its return: the read end is closed, then
  whatever comes before the barrier opens, then the write end is closed, which opens it, then
  the child is waited for until the wait is not interrupted, then the rest.
\<close>

definition parent_run ::
  "int \<Rightarrow> int \<Rightarrow> int \<Rightarrow> event list \<Rightarrow> event list \<Rightarrow> errno + int \<Rightarrow> event list \<Rightarrow> bool" where
  "parent_run rfd wfd pid evs before status after \<longleftrightarrow> (\<exists>c1 c2 waits.
     evs = E_call (Sys_close rfd) c1 # before @ E_call (Sys_close wfd) c2 # waits @
       E_waitpid pid status # after \<and>
     (\<forall>ev \<in> set waits. ev = E_waitpid pid (Inl EINTR)) \<and> status \<noteq> Inl EINTR \<and>
     closes_own before \<and> closes_own after)"

lemma waited_run:
  assumes wait: "wait_loop K pid s1 = Some (st, s2)" and pid: "0 \<le> pid"
    and run: "(case st of
        None \<Rightarrow> Some ((-1, set_error (errno_message K ''waitpid'' s2) error), Cgroup_destroy K path s2)
      | Some status \<Rightarrow> do {
          s \<leftarrow> report_oom K path s2;
          (case report_status strsignal status s of
            (code, s) \<Rightarrow> Some ((code, error), Cgroup_destroy K path s))
        }) = Some ((code, error'), s')"
  shows "\<exists>waits q after. trace s' = trace s1 @ waits @ E_waitpid pid q # after \<and>
    (\<forall>ev \<in> set waits. ev = E_waitpid pid (Inl EINTR)) \<and> q \<noteq> Inl EINTR \<and> closes_own after \<and>
    err s' = err s1 \<and>
    (path \<noteq> [] \<longrightarrow> (\<exists>evs c. after = evs @ [E_call (Sys_rmdir path) c])) \<and>
    code = (case q of Inl e \<Rightarrow> -1 | Inr st \<Rightarrow> container_code st)"
proof -
  from wait_loop_waits [OF wait pid, unfolded fst_conv snd_conv] obtain waits q where
    w: "extends (waits @ [E_waitpid pid q]) s1 s2" "\<forall>ev \<in> set waits. ev = E_waitpid pid (Inl EINTR)"
      "case q of Inl e \<Rightarrow> e \<noteq> EINTR \<and> st = None \<and> errno s2 = e | Inr x \<Rightarrow> st = Some x" by blast
  have destroy: "\<exists>evs c. trace (Cgroup_destroy K path s) = trace s @ evs \<and>
      err (Cgroup_destroy K path s) = err s \<and> closes_own evs \<and>
      (path \<noteq> [] \<longrightarrow> evs = [E_call (Sys_rmdir path) c])" for s
  proof (cases "path = []")
    case True
    then show ?thesis by (simp add: Cgroup_destroy_def)
  next
    case False
    obtain n t where c: "call K (Sys_rmdir path) s = (n, t)" by (metis surj_pair)
    from call_trace [OF c] False c show ?thesis
      by (auto simp: Cgroup_destroy_def closes_own_def)
  qed
  show ?thesis
  proof (cases q)
    case (Inl e)
    with w have "st = None" by simp
    with run have s': "s' = Cgroup_destroy K path s2" "code = -1" by auto
    from destroy [of s2] obtain evs c where "trace s' = trace s2 @ evs" "err s' = err s2"
      "closes_own evs" "path \<noteq> [] \<longrightarrow> evs = [E_call (Sys_rmdir path) c]" using s' by auto
    with w Inl s' show ?thesis
      by (intro exI [of _ waits] exI [of _ q] exI [of _ evs]) (auto simp: extends_def)
  next
    case (Inr x)
    with w run obtain s3 where oom: "report_oom K path s2 = Some s3"
      and s': "code = fst (report_status strsignal x s3)"
        "s' = Cgroup_destroy K path (snd (report_status strsignal x s3))"
      by (auto simp: bind_eq_Some_conv case_prod_beta)
    from report_oom_says [OF oom] obtain e1 where e1: "says e1 [] s2 s3" by blast
    from says_trans [OF e1 report_status_says [of s3 strsignal x]]
    have e2: "says e1 [] s2 (snd (report_status strsignal x s3))" by simp
    from destroy [of "snd (report_status strsignal x s3)"] s' obtain evs c where
      e3: "trace s' = trace (snd (report_status strsignal x s3)) @ evs"
        "err s' = err (snd (report_status strsignal x s3))"
        "closes_own evs" "path \<noteq> [] \<longrightarrow> evs = [E_call (Sys_rmdir path) c]" by auto
    with e2 w Inr s' show ?thesis
      by (intro exI [of _ waits] exI [of _ q] exI [of _ "e1 @ evs"])
         (auto simp: extends_def says_def report_status_code)
  qed
qed

text \<open>A run that made a child; the limits are in place before it goes on, or it said otherwise.\<close>

definition container_run ::
  "ContainerConfig \<Rightarrow> 'w os \<Rightarrow> 'w os \<Rightarrow> int \<Rightarrow> int \<Rightarrow> int \<Rightarrow> int \<Rightarrow> event list \<Rightarrow> event list \<Rightarrow> bool" where
  "container_run cfg s s' code rfd wfd pid evs before \<longleftrightarrow> 0 \<le> pid \<and>
     prefix (err s) (err s') \<and>
     trace s' = trace s @ E_pipe (Inr (rfd, wfd)) # E_call (Sys_clone (clone_flags cfg) (child_args cfg rfd wfd)) (Inr pid) # evs \<and>
     (\<exists>status after. parent_run rfd wfd pid evs before status after \<and>
       code = (case status of Inl e \<Rightarrow> -1 | Inr st \<Rightarrow> container_code st) \<and>
       (err s' = err s \<and> (0 < memory_limit cfg \<or> 0 < pids_limit cfg) \<longrightarrow>
         performed (limit_writes cfg pid) before \<and>
         (\<exists>evs' c. after = evs' @ [E_call (Sys_rmdir (group_of pid)) c])))"

lemma run_container_trace:
  assumes run: "run_container K strsignal cfg error s = Some ((code, error'), s')"
  shows "code = -1 \<and> (\<exists>q. trace s' = trace s @ [E_pipe (Inl q)]) \<or>
    code = -1 \<and> (\<exists>rfd wfd q. c_int q < 0 \<and>
      trace s' = trace s @ [E_pipe (Inr (rfd, wfd)), E_call (Sys_clone (clone_flags cfg) (child_args cfg rfd wfd)) q]) \<or>
    (\<exists>rfd wfd pid evs before. container_run cfg s s' code rfd wfd pid evs before)"
proof -
  obtain r rfd wfd s1 where pipe: "sys_pipe K s = ((r, rfd, wfd), s1)" by (metis surj_pair)
  from sys_pipe_trace [OF pipe] obtain q1 where q1: "trace s1 = trace s @ [E_pipe q1]" "err s1 = err s"
    "(r, rfd, wfd) = (case q1 of Inl _ \<Rightarrow> (-1, -1, -1) | Inr (a, b) \<Rightarrow> (0, a, b))" by blast
  show ?thesis
  proof (cases q1)
    case (Inl e)
    with q1 pipe run have "code = -1 \<and> s' = s1" by (auto simp: run_container_def)
    with Inl q1 show ?thesis by auto
  next
    case (Inr ab)
    then have q1': "q1 = Inr (rfd, wfd)" "r = 0" using q1(3) by (auto split: prod.splits)
    obtain pid s2 where clone: "call K (Sys_clone (clone_flags cfg) (child_args cfg rfd wfd)) s1 = (pid, s2)" by (metis surj_pair)
    from call_extends [OF clone] obtain q2 where
      q2: "pid = c_int q2" "extends [E_call (Sys_clone (clone_flags cfg) (child_args cfg rfd wfd)) q2] s1 s2" by blast
    show ?thesis
    proof (cases "pid < 0")
      case True
      with run pipe q1' clone have "code = -1 \<and> s' = s2" by (auto simp: run_container_def)
      with True q1 q1' q2 show ?thesis by (auto simp: extends_def)
    next
      case False
      with q2 have pid: "0 \<le> pid" "q2 = Inr pid" by (auto simp: c_int_pos not_less)
      obtain n3 s3 where cl: "call K (Sys_close rfd) s2 = (n3, s3)" by (metis surj_pair)
      from call_extends [OF cl] obtain q3 where q3: "extends [E_call (Sys_close rfd) q3] s2 s3" by blast
      from run pipe q1'(2) clone cl False obtain path s4 where
        lim: "(if 0 < memory_limit cfg \<or> 0 < pids_limit cfg then apply_limits K cfg pid s3
          else Some ([], s3)) = Some (path, s4)"
        by (auto simp: run_container_def bind_eq_Some_conv)
      define s5 where "s5 = put_out newline (print_namespaces K (to_string pid)
        ''container namespaces'' (put_out (''  container pid on host   '' @ to_string pid @ newline) s4))"
      obtain n6 s6 where cw: "call K (Sys_close wfd) s5 = (n6, s6)" by (metis surj_pair)
      from call_extends [OF cw] obtain q6 where q6: "extends [E_call (Sys_close wfd) q6] s5 s6" by blast
      have "wait_loop K pid s6 \<bind> (\<lambda>(st, s). case st of
          None \<Rightarrow> Some ((-1, set_error (errno_message K ''waitpid'' s) error), Cgroup_destroy K path s)
        | Some status \<Rightarrow> report_oom K path s \<bind> (\<lambda>s. case report_status strsignal status s of
            (code, s) \<Rightarrow> Some ((code, error), Cgroup_destroy K path s))) = Some ((code, error'), s')"
        using run False unfolding run_container_def pipe split_conv q1'(2) clone snd_conv cl
          Let_def lim bind.simps s5_def [symmetric] cw by simp
      then obtain st s7 where wait: "wait_loop K pid s6 = Some (st, s7)" and
        fin: "(case st of
          None \<Rightarrow> Some ((-1, set_error (errno_message K ''waitpid'' s7) error), Cgroup_destroy K path s7)
        | Some status \<Rightarrow> report_oom K path s7 \<bind> (\<lambda>s. case report_status strsignal status s of
            (code, s) \<Rightarrow> Some ((code, error), Cgroup_destroy K path s))) = Some ((code, error'), s')"
        by (cases "wait_loop K pid s6") auto
      from waited_run [OF wait pid(1) fin] obtain waits q after where
        w: "trace s' = trace s6 @ waits @ E_waitpid pid q # after"
          "\<forall>ev \<in> set waits. ev = E_waitpid pid (Inl EINTR)" "q \<noteq> Inl EINTR" "closes_own after"
          "err s' = err s6" "path \<noteq> [] \<longrightarrow> (\<exists>evs c. after = evs @ [E_call (Sys_rmdir path) c])"
          "code = (case q of Inl e \<Rightarrow> -1 | Inr st \<Rightarrow> container_code st)" by blast
      have "\<exists>evs msg. says evs msg s3 s4 \<and>
          ((0 < memory_limit cfg \<or> 0 < pids_limit cfg) \<and> msg = [] \<longrightarrow>
            performed (limit_writes cfg pid) evs \<and> path = group_of pid)"
      proof (cases "0 < memory_limit cfg \<or> 0 < pids_limit cfg")
        case True
        with lim have "apply_limits K cfg pid s3 = Some (path, s4)" by simp
        from apply_limits_result [OF this] show ?thesis
          by (auto simp: complains_unless_def says_def)
      next
        case False
        with lim show ?thesis by (auto intro!: exI [of _ "[]"])
      qed
      then obtain e4 msg where e4: "says e4 msg s3 s4"
        "(0 < memory_limit cfg \<or> 0 < pids_limit cfg) \<and> msg = [] \<longrightarrow>
          performed (limit_writes cfg pid) e4 \<and> path = group_of pid" by blast
      from print_namespaces_says [of "put_out (''  container pid on host   '' @ to_string pid @ newline) s4"
          K "to_string pid" "''container namespaces''"]
      obtain e5 where e5: "says e5 [] s4 s5" by (auto simp: s5_def says_def)
      let ?before = "e4 @ e5" and ?evs = "E_call (Sys_close rfd) q3 # e4 @ e5 @
        E_call (Sys_close wfd) q6 # waits @ E_waitpid pid q # after"
      note both = says_trans [OF e4(1) e5]
      have pr: "parent_run rfd wfd pid ?evs ?before q after"
        using both w unfolding parent_run_def says_def
        by (intro exI [of _ q3] exI [of _ q6] exI [of _ waits]) simp
      have tr: "trace s' = trace s @ E_pipe (Inr (rfd, wfd)) #
          E_call (Sys_clone (clone_flags cfg) (child_args cfg rfd wfd)) (Inr pid) # ?evs"
        using q1 q1' q2 q3 q6 both w pid by (simp add: extends_def says_def)
      have "err s' = err s @ msg"
        using q1 q2 q3 q6 both w by (simp add: extends_def says_def)
      moreover have "group_of pid \<noteq> []" by (simp add: group_of_def kParent_def)
      moreover have "performed (limit_writes cfg pid) ?before"
        if "performed (limit_writes cfg pid) e4" using performed_more [OF that, of "[]" e5] by simp
      ultimately have "err s' = err s \<and> (0 < memory_limit cfg \<or> 0 < pids_limit cfg) \<longrightarrow>
          performed (limit_writes cfg pid) ?before \<and>
          (\<exists>evs' c. after = evs' @ [E_call (Sys_rmdir (group_of pid)) c])"
        using e4(2) w(6) by auto
      moreover have "prefix (err s) (err s')" using \<open>err s' = err s @ msg\<close> by simp
      ultimately show ?thesis using pid(1) tr pr w(7) unfolding container_run_def by blast
    qed
  qed
qed

subsection \<open>Properties\<close>

text \<open>C12: The child's order of work. When the barrier opens (a read of the pipe that is not
  interrupted comes), the child closes its own write end, waits, closes the read end, and then
  sets the host name, enters the new root (if one is given: private mounts, bind, mkdir, pivot,
  chdir, detach of the old root, in this order) and mounts /proc. It becomes the command only
  after every step passed; the first step that fails ends it with status 1 and that step's
  name and error, and nothing after it is called; a failed \<open>execvp\<close> ends it with status 127.\<close>

theorem child_runs_in_order:
  assumes cmd: "command cfg \<noteq> []"
    and opens: "barrier_opens K rfd m (world (snd (call K (Sys_close wfd) s)))"
  shows "\<exists>res s' c1 reads c2 evs msg. child_main K cfg rfd wfd s = Some (res, s') \<and>
    trace s' = trace s @ E_call (Sys_close wfd) c1 # reads @ E_call (Sys_close rfd) c2 # evs \<and>
    barrier_reads rfd reads \<and> child_ended K cfg res evs msg \<and> err s' = err s @ msg"
proof -
  from barrier_loop_returns [OF opens] obtain res s' where
    run: "child_main K cfg rfd wfd s = Some (res, s')"
    by (cases "child_setup K cfg (snd (call K (Sys_close rfd)
      (the (barrier_loop K rfd (snd (call K (Sys_close wfd) s))))))") (auto simp: child_main_eq)
  from child_main_result [OF run cmd] run show ?thesis by blast
qed

text \<open>Every run of \<open>run_container\<close> that returns does one of three things. The pipe or the clone
  fails, and it returns -1. Or it made a child with the flags the configuration asks for, closed
  its read end, did the setup, closed its write end, waited until the wait was not interrupted,
  and then only cleaned up; the result is -1 when the wait failed, otherwise the exit status
  (0 to 255) or 128 plus the number of the signal, taken from the status word it waited for.\<close>

theorem run_container_result:
  assumes run: "run_container K strsignal cfg error s = Some ((code, error'), s')"
  shows "code = -1 \<and> (\<exists>q. trace s' = trace s @ [E_pipe (Inl q)]) \<or>
    code = -1 \<and> (\<exists>rfd wfd q. c_int q < 0 \<and>
      trace s' = trace s @ [E_pipe (Inr (rfd, wfd)), E_call (Sys_clone (clone_flags cfg) (child_args cfg rfd wfd)) q]) \<or>
    (\<exists>rfd wfd pid evs before status after. 0 \<le> pid \<and>
      trace s' = trace s @ E_pipe (Inr (rfd, wfd)) # E_call (Sys_clone (clone_flags cfg) (child_args cfg rfd wfd)) (Inr pid) # evs \<and>
      parent_run rfd wfd pid evs before status after \<and>
      code = (case status of Inl e \<Rightarrow> -1 | Inr st \<Rightarrow> container_code st) \<and> -1 \<le> code \<and> code \<le> 255)"
proof -
  have case_range: "-1 \<le> (case q of Inl e \<Rightarrow> -1 | Inr st \<Rightarrow> container_code st) \<and>
      (case q of Inl e \<Rightarrow> -1 | Inr st \<Rightarrow> container_code st) \<le> 255" for q :: "errno + int"
    using container_code_range by (cases q) simp_all
  from run_container_trace [OF run] show ?thesis
    unfolding container_run_def using case_range by blast
qed

lemma child_runs_in_order_witness:
  "\<exists>res s' c1 reads c2 evs msg. child_main scripted (ContainerConfig_init\<lparr>command := [''sh'']\<rparr>) 3 4
      (fresh_os [A_int 0, A_fail EINTR, A_bytes [], A_int 0, A_fail 1]) = Some (res, s') \<and>
    trace s' = [] @ E_call (Sys_close 4) c1 # reads @ E_call (Sys_close 3) c2 # evs \<and>
    barrier_reads 3 reads \<and>
    child_ended scripted (ContainerConfig_init\<lparr>command := [''sh'']\<rparr>) res evs msg \<and> err s' = [] @ msg"
  using child_runs_in_order [where K = scripted and rfd = 3 and wfd = 4 and m = 2
      and cfg = "ContainerConfig_init\<lparr>command := [''sh'']\<rparr>"
      and s = "fresh_os [A_int 0, A_fail EINTR, A_bytes [], A_int 0, A_fail 1]"]
  by (simp add: call_def numeral_2_eq_2)

text \<open>States of a run against the scripted kernel.\<close>

abbreviation snap :: "answer list \<Rightarrow> errno \<Rightarrow> event list \<Rightarrow> string \<Rightarrow> answer list os" where
  "snap w e tr x \<equiv> \<lparr>world = w, errno = e, trace = tr, out = x, err = []\<rparr>"

lemma wait_snap:
  "wait_loop scripted pid (snap (A_int st # as) e tr x) =
    (if pid < 0 then if e = EINTR then wait_loop scripted pid (snap as e (tr @ [E_waitpid pid (Inr st)]) x)
       else Some (None, snap as e (tr @ [E_waitpid pid (Inr st)]) x)
     else Some (Some st, snap as e (tr @ [E_waitpid pid (Inr st)]) x))"
  by (subst wait_loop.simps) (simp add: run_simps finish_def)

abbreviation no_namespaces :: "string \<Rightarrow> event list" where
  "no_namespaces pid \<equiv>
     map (\<lambda>k. E_readlink (''/proc/'' @ pid @ ''/ns/'' @ k) 127 (Inl 2)) namespace_kinds"

lemma namespaces_snap:
  "print_namespaces scripted pid l (snap (A_fail 2 # A_fail 2 # A_fail 2 # A_fail 2 #
      A_fail 2 # A_fail 2 # A_fail 2 # as) e tr x) = snap as 2 (tr @ no_namespaces pid)
    (x @ ''  '' @ l @ newline @ concat (map (\<lambda>k. ''    '' @ pad_right 7 k @ '' (unavailable)'' @
      newline) namespace_kinds))"
proof -
  have "print_namespace scripted pid (snap (A_fail 2 # as) e tr x) k =
      snap as 2 (tr @ [E_readlink (''/proc/'' @ pid @ ''/ns/'' @ k) 127 (Inl 2)])
        (x @ ''    '' @ pad_right 7 k @ '' (unavailable)'' @ newline)" for as e tr x k
    by (simp add: print_namespace_def namespace_id_def run_simps finish_def put_out_def)
  then show ?thesis by (simp add: print_namespaces_def namespace_kinds_def put_out_def)
qed

lemma run_container_result_witness:
  "\<exists>e s'. run_container scripted (\<lambda>_. ''Killed'') ContainerConfig_init (Some []) (fresh_os [A_pair 3 4,
      A_int 100, A_int 0, A_fail 2, A_fail 2, A_fail 2, A_fail 2, A_fail 2, A_fail 2, A_fail 2,
      A_int 0, A_int 9]) = Some ((137, e), s') \<and>
    (\<exists>rfd wfd pid evs before status after.
      trace s' = [] @ E_pipe (Inr (rfd, wfd)) #
        E_call (Sys_clone (clone_flags ContainerConfig_init) (child_args ContainerConfig_init rfd wfd)) (Inr pid) # evs \<and>
      parent_run rfd wfd pid evs before status after)"
proof -
  let ?s = "fresh_os [A_pair 3 4, A_int 100, A_int 0, A_fail 2, A_fail 2, A_fail 2, A_fail 2,
    A_fail 2, A_fail 2, A_fail 2, A_int 0, A_int 9]"
  have cfg: "memory_limit ContainerConfig_init = -1" "pids_limit ContainerConfig_init = -1"
    by (simp_all add: ContainerConfig_init_def)
  have status: "report_status (\<lambda>_. ''Killed'') 9 s = (137, put_out (''  container killed by signal '' @
      to_string 9 @ '' (Killed)'' @ newline) s)" for s :: "answer list os"
    by (simp add: report_status_def wifexited_def wifsignaled_def wtermsig_def)
  have "\<exists>e s'. run_container scripted (\<lambda>_. ''Killed'') ContainerConfig_init (Some []) ?s = Some ((137, e), s')"
    by (simp add: run_container_def fresh_os_def cfg sys_pipe_def call_def finish_def
        namespaces_snap put_out_def wait_snap report_oom_def Cgroup_valid_def status)
  then obtain e s' where run: "run_container scripted (\<lambda>_. ''Killed'') ContainerConfig_init (Some []) ?s =
      Some ((137, e), s')" by blast
  have "trace ?s = []" by simp
  with run_container_result [OF run] run show ?thesis by (simp del: split_paired_Ex) blast
qed

end
