(* ===== verification/Mc_Main.thy ===== *)
theory Mc_Main
  imports Mc_Container
begin

section \<open>minicontainer: the command line\<close>

text \<open>
  Models \<open>minicontainer/src/main.cpp\<close>. The arguments after the program's name are a list of
  strings; the loop over the options ends with an exit status, with the configuration and the
  arguments that are left, or with an exception, which nothing catches.
\<close>

definition usage :: string where
  "usage =
     ''minicontainer - what Docker does, reduced to the parts that matter'' @ newline @ newline @
     ''Usage:'' @ newline @
     ''  minicontainer run [options] -- COMMAND [ARGS...]'' @ newline @
     ''  minicontainer ns [pid]        Show the namespace ids of a process (default: self)'' @
       newline @ newline @
     ''Options for run:'' @ newline @
     ''  --rootfs=DIR      pivot_root into DIR (see scripts/make-rootfs.sh)'' @ newline @
     ''  --hostname=NAME   hostname inside the container      (default: container)'' @ newline @
     ''  --memory=SIZE     memory limit, e.g. 64M             (cgroup v2)'' @ newline @
     ''  --pids=N          maximum number of processes        (cgroup v2)'' @ newline @
     ''  --share-net       keep the host network namespace    (default: isolated)'' @
       newline @ newline @
     ''Requires root and a writable cgroup2 filesystem:'' @ newline @
     ''  docker run --rm -it --privileged --cgroupns=private ...'' @ newline"

definition cmd_ns :: "'w kernel \<Rightarrow> string \<Rightarrow> 'w os \<Rightarrow> int \<times> 'w os" where
  "cmd_ns K pid s =
     (0, put_out (newline @ ''  Two processes share a namespace exactly when these ids match.'' @
          newline @ ''  Compare this against a container to see which ones were replaced.'' @ newline)
        (print_namespaces K pid (''namespaces of pid '' @ pid) s))"

fun parse_options ::
  "string list \<Rightarrow> ContainerConfig \<Rightarrow> 'w os \<Rightarrow> (int + ContainerConfig \<times> string list) cpp \<times> 'w os" where
  "parse_options [] cfg s = (Inr (Inr (cfg, [])), s)"
| "parse_options (arg # args) cfg s =
     (if arg = ''--'' then (Inr (Inr (cfg, args)), s)
      else if prefix ''--rootfs='' arg then parse_options args (cfg\<lparr>rootfs := drop 9 arg\<rparr>) s
      else if prefix ''--hostname='' arg then parse_options args (cfg\<lparr>hostname := drop 11 arg\<rparr>) s
      else if prefix ''--memory='' arg then
        (case parse_size (drop 9 arg) of
           Inl e \<Rightarrow> (Inl e, s)
         | Inr None \<Rightarrow> (Inr (Inl 2), put_err (''Invalid size: '' @ drop 9 arg @ newline) s)
         | Inr (Some bytes) \<Rightarrow> parse_options args (cfg\<lparr>memory_limit := bytes\<rparr>) s)
      else if prefix ''--pids='' arg then
        (case stoll (drop 7 arg) of
           Inl e \<Rightarrow> (Inl e, s)
         | Inr n \<Rightarrow> parse_options args (cfg\<lparr>pids_limit := n\<rparr>) s)
      else if arg = ''--share-net'' then parse_options args (cfg\<lparr>isolate_network := False\<rparr>) s
      else (Inr (Inl 2),
        put_out usage (put_err (''Unknown option: '' @ arg @ newline @ newline) s)))"

text \<open>\<open>run\<close> with its options parsed; \<open>None\<close> is a run that does not return.\<close>

definition run_command ::
  "'w kernel \<Rightarrow> (int \<Rightarrow> string) \<Rightarrow> ContainerConfig \<Rightarrow> 'w os \<Rightarrow> (int \<times> 'w os) option" where
  "run_command K strsignal cfg s =
     (if command cfg = [] then
        Some (2, put_err (''No command given. Use -- to separate it from the options.'' @ newline) s)
      else let (uid, s) = call K Sys_geteuid s in
      if uid \<noteq> 0 then
        Some (1, put_err (''minicontainer: needs root to create namespaces and cgroups.'' @ newline) s)
      else
        let s = put_out (''minicontainer'' @ newline) s;
            s = print_namespaces K ''self'' ''host namespaces'' s;
            s = put_out newline s;
            s = (if 0 < memory_limit cfg then
                   put_out (''  memory limit            '' @ human_bytes (memory_limit cfg) @ newline) s
                 else s);
            s = (if 0 < pids_limit cfg then
                   put_out (''  pids limit              '' @ to_string (pids_limit cfg) @ newline) s
                 else s)
        in do {
          ((status, error), s) \<leftarrow> run_container K strsignal cfg (Some []) s;
          Some (if status < 0 then (1, put_err (''minicontainer: '' @ the error @ newline) s)
            else (status, s))
        })"

definition main ::
  "'w kernel \<Rightarrow> (int \<Rightarrow> string) \<Rightarrow> string list \<Rightarrow> 'w os \<Rightarrow> (int cpp \<times> 'w os) option" where
  "main K strsignal args s =
     (if args = [] \<or> hd args = ''-h'' \<or> hd args = ''--help'' then
        Some (Inr (if args = [] then 2 else 0), put_out usage s)
      else if hd args = ''ns'' then
        (case cmd_ns K (if 1 < length args then args ! 1 else ''self'') s of
           (status, s) \<Rightarrow> Some (Inr status, s))
      else if hd args \<noteq> ''run'' then
        Some (Inr 2, put_out usage (put_err (''Unknown command: '' @ hd args @ newline @ newline) s))
      else
        (case parse_options (tl args) ContainerConfig_init s of
           (Inl e, s) \<Rightarrow> Some (Inl e, s)
         | (Inr (Inl status), s) \<Rightarrow> Some (Inr status, s)
         | (Inr (Inr (cfg, rest)), s) \<Rightarrow> do {
             (status, s) \<leftarrow> run_command K strsignal (cfg\<lparr>command := command cfg @ rest\<rparr>) s;
             Some (Inr status, s)
           }))"

subsection \<open>Options that spell out a configuration\<close>

text \<open>
  The arguments that ask for a configuration, with sizes in bytes; -1 is "no limit", which is
  the absence of an option.
\<close>

definition config_args :: "ContainerConfig \<Rightarrow> string list" where
  "config_args cfg =
     [''--rootfs='' @ rootfs cfg, ''--hostname='' @ hostname cfg] @
     (if memory_limit cfg = -1 then [] else [''--memory='' @ to_string (memory_limit cfg)]) @
     (if pids_limit cfg = -1 then [] else [''--pids='' @ to_string (pids_limit cfg)]) @
     (if isolate_network cfg then [] else [''--share-net'']) @ ''--'' # command cfg"

lemma parse_size_to_string:
  assumes "0 \<le> n" and "n < 2 ^ 63"
  shows "parse_size (to_string n) = Inr (Some n)"
proof -
  have d: "to_string n = digits 10 (nat n)" using assms(1) by (simp add: to_string_def)
  have tw: "takeWhile isdigit (digits 10 (nat n)) = digits 10 (nat n)"
    and dw: "dropWhile isdigit (digits 10 (nat n)) = []"
    using digits_10_isdigit by (simp_all add: takeWhile_eq_all_conv)
  show ?thesis
    unfolding parse_size_spec size_spec_def d tw dw Let_def
    using assms by (simp add: value_of_digits)
qed

lemma stoll_to_string: "ll_range n \<Longrightarrow> stoll (to_string n) = Inr n"
  using strto_subject_to_string [of "[]" n]
  by (auto simp: stoll_def sto_signed_def value_of_digits Let_def)

text \<open>
  Options round trip: the command line that spells out a configuration is parsed to it, with
  nothing printed, for every limit that is absent or a positive \<open>long long\<close>.
\<close>

lemma parse_options_roundtrip:
  assumes "memory_limit cfg = -1 \<or> 0 \<le> memory_limit cfg" and "ll_range (memory_limit cfg)"
    and "ll_range (pids_limit cfg)"
  shows "parse_options (config_args cfg) ContainerConfig_init s =
    (Inr (Inr (cfg\<lparr>command := []\<rparr>, command cfg)), s)"
  using assms
  by (cases cfg) (auto simp: config_args_def ContainerConfig_init_def ll_range_def
      parse_size_to_string stoll_to_string)

text \<open>Without root, \<open>run\<close> makes no system call but \<open>geteuid\<close>.\<close>

lemma run_needs_root:
  assumes "call K Sys_geteuid s = (uid, s1)" and "uid \<noteq> 0" and "command cfg \<noteq> []"
  shows "run_command K strsignal cfg s =
    Some (1, put_err (''minicontainer: needs root to create namespaces and cgroups.'' @ newline) s1)"
  using assms by (simp add: run_command_def)

text \<open>
  The status that the program ends with is the container's, and 1 when there is none: it is
  never negative.
\<close>

lemma run_command_status:
  assumes "run_command K strsignal cfg s = Some (status, s')"
  shows "0 \<le> status"
  using assms
  by (auto simp: run_command_def Let_def bind_eq_Some_conv split: if_splits prod.splits)

text \<open>
  A call of \<open>run_container\<close> as the program reports it: the pipe or the clone failed, which is
  status 1, or a child was made from the configuration and waited for. A run without a
  diagnostic has the limits in place before it lets the child go on, and removes the group last.
\<close>

definition ran_container :: "ContainerConfig \<Rightarrow> int \<Rightarrow> bool \<Rightarrow> event list \<Rightarrow> bool" where
  "ran_container cfg status silent evs \<longleftrightarrow>
     status = 1 \<and> (\<exists>e. evs = [E_pipe (Inl e)]) \<or>
     status = 1 \<and> (\<exists>rfd wfd q. c_int q < 0 \<and>
       evs = [E_pipe (Inr (rfd, wfd)), E_call (Sys_clone (clone_flags cfg) (child_args cfg rfd wfd)) q]) \<or>
     (\<exists>rfd wfd pid pevs before waited after. 0 \<le> pid \<and>
       evs = E_pipe (Inr (rfd, wfd)) # E_call (Sys_clone (clone_flags cfg) (child_args cfg rfd wfd)) (Inr pid) # pevs \<and>
       parent_run rfd wfd pid pevs before waited after \<and>
       status = (case waited of Inl e \<Rightarrow> 1
         | Inr word \<Rightarrow> if container_code word < 0 then 1 else container_code word) \<and>
       (silent \<and> (0 < memory_limit cfg \<or> 0 < pids_limit cfg) \<longrightarrow>
         performed (limit_writes cfg pid) before \<and>
         (\<exists>evs' c. after = evs' @ [E_call (Sys_rmdir (group_of pid)) c])))"

lemma run_container_reported:
  assumes run: "run_container K strsignal cfg error s = Some ((code, error'), s')"
    and silent: "silent \<Longrightarrow> prefix (err s) (err s') \<Longrightarrow> err s' = err s"
  shows "\<exists>evs. trace s' = trace s @ evs \<and>
    ran_container cfg (if code < 0 then 1 else code) silent evs"
  using run_container_trace [OF run]
proof (elim disjE conjE exE)
  fix q
  assume "code = -1" and "trace s' = trace s @ [E_pipe (Inl q)]"
  then show ?thesis by (intro exI [of _ "[E_pipe (Inl q)]"]) (simp add: ran_container_def)
next
  fix rfd wfd q
  let ?evs = "[E_pipe (Inr (rfd, wfd)), E_call (Sys_clone (clone_flags cfg) (child_args cfg rfd wfd)) q]"
  assume "code = -1" and "c_int q < 0" and "trace s' = trace s @ ?evs"
  then show ?thesis by (intro exI [of _ ?evs]) (simp add: ran_container_def)
next
  fix rfd wfd pid evs before
  let ?evs = "E_pipe (Inr (rfd, wfd)) # E_call (Sys_clone (clone_flags cfg) (child_args cfg rfd wfd)) (Inr pid) # evs"
  assume c: "container_run cfg s s' code rfd wfd pid evs before"
  then obtain waited after where
    p: "parent_run rfd wfd pid evs before waited after"
      "code = (case waited of Inl e \<Rightarrow> -1 | Inr st \<Rightarrow> container_code st)"
      "err s' = err s \<and> (0 < memory_limit cfg \<or> 0 < pids_limit cfg) \<longrightarrow>
        performed (limit_writes cfg pid) before \<and>
        (\<exists>evs' c. after = evs' @ [E_call (Sys_rmdir (group_of pid)) c])"
    unfolding container_run_def by blast
  have status: "(if code < 0 then 1 else code) = (case waited of Inl e \<Rightarrow> 1
      | Inr word \<Rightarrow> if container_code word < 0 then 1 else container_code word)"
    using p(2) by (cases waited) simp_all
  have "ran_container cfg (if code < 0 then 1 else code) silent ?evs"
    unfolding ran_container_def status using c p(1,3) silent
    by (intro disjI2 exI [of _ rfd] exI [of _ wfd] exI [of _ pid] exI [of _ evs]
        exI [of _ before] exI [of _ waited] exI [of _ after]) (simp add: container_run_def)
  with c show ?thesis by (intro exI [of _ ?evs]) (simp add: container_run_def)
qed

lemma run_command_result:
  assumes run: "run_command K strsignal cfg s = Some (status, s')" and cmd: "command cfg \<noteq> []"
  shows "\<exists>q rest. trace s' = trace s @ E_call Sys_geteuid q # rest \<and>
    (if c_int q \<noteq> 0 then status = 1 \<and> rest = []
     else \<exists>reads evs. rest = reads @ evs \<and> namespace_reads ''self'' namespace_kinds reads \<and>
       ran_container cfg status (err s' = err s) evs)"
proof -
  obtain uid s1 where uid: "call K Sys_geteuid s = (uid, s1)" by (metis surj_pair)
  from call_extends [OF uid] obtain q where
    q: "uid = c_int q" "extends [E_call Sys_geteuid q] s s1" by blast
  show ?thesis
  proof (cases "uid = 0")
    case False
    with run cmd uid have "status = 1" "trace s' = trace s1" by (auto simp: run_command_def)
    with False q show ?thesis by (intro exI [of _ q] exI [of _ "[]"]) (simp add: extends_def)
  next
    case True
    define s2 where "s2 = print_namespaces K ''self'' ''host namespaces'' (put_out (''minicontainer'' @ newline) s1)"
    define s3 where "s3 = (if 0 < memory_limit cfg then
        put_out (''  memory limit            '' @ human_bytes (memory_limit cfg) @ newline) (put_out newline s2)
      else put_out newline s2)"
    define s4 where "s4 = (if 0 < pids_limit cfg then
        put_out (''  pids limit              '' @ to_string (pids_limit cfg) @ newline) s3 else s3)"
    obtain reads where "says reads [] (put_out (''minicontainer'' @ newline) s1) s2"
      and kinds: "namespace_reads ''self'' namespace_kinds reads"
      unfolding s2_def using print_namespaces_says by blast
    then have reads: "trace s4 = trace s1 @ reads" "err s4 = err s1"
      by (auto simp: says_def s3_def s4_def)
    have "run_container K strsignal cfg (Some []) s4 \<bind> (\<lambda>((code, error), s).
        Some (if code < 0 then (1, put_err (''minicontainer: '' @ the error @ newline) s)
          else (code, s))) = Some (status, s')"
      using run cmd True unfolding run_command_def uid split_conv Let_def s2_def s3_def s4_def
      by (simp split del: if_split)
    then obtain code error s5 where
      rc: "run_container K strsignal cfg (Some []) s4 = Some ((code, error), s5)"
      and fin: "(status, s') = (if code < 0 then (1, put_err (''minicontainer: '' @ the error @ newline) s5)
        else (code, s5))"
      by (auto simp: bind_eq_Some_conv)
    have "err s5 = err s4" if "err s' = err s" "prefix (err s4) (err s5)"
      using that fin reads(2) q(2) by (auto simp: extends_def prefix_def split: if_splits)
    from run_container_reported [OF rc this] obtain evs where
      evs: "trace s5 = trace s4 @ evs"
        "ran_container cfg (if code < 0 then 1 else code) (err s' = err s) evs" by blast
    have "trace s' = trace s @ E_call Sys_geteuid q # reads @ evs"
      using evs(1) reads(1) q(2) fin by (auto simp: extends_def split: if_splits)
    moreover have "status = (if code < 0 then 1 else code)" using fin by (auto split: if_splits)
    ultimately have "\<exists>reads' evs'. reads @ evs = reads' @ evs' \<and>
        namespace_reads ''self'' namespace_kinds reads' \<and> ran_container cfg status (err s' = err s) evs'"
      using evs(2) kinds by metis
    with \<open>trace s' = _\<close> q(1) True show ?thesis
      by (intro exI [of _ q] exI [of _ "reads @ evs"]) simp
  qed
qed

lemma reported_range:
  "0 \<le> (case waited of Inl e \<Rightarrow> 1
     | Inr word \<Rightarrow> if container_code word < 0 then 1 else container_code word) \<and>
   (case waited of Inl e \<Rightarrow> 1
     | Inr word \<Rightarrow> if container_code word < 0 then 1 else container_code word) \<le> 255"
  by (cases waited) (simp_all add: container_code_range)

lemma ran_container_status: "ran_container cfg status silent evs \<Longrightarrow> 0 \<le> status \<and> status \<le> 255"
  unfolding ran_container_def by (elim disjE exE conjE) (simp_all add: reported_range)

subsection \<open>A whole run\<close>

text \<open>C13: A whole run of \<open>minicontainer run\<close>, from the command line that spells out a
  configuration to the exit status. The program asks for its user id first; without root it does
  nothing else and ends with status 1. With root it reads the seven namespace links of itself
  and then runs a container with exactly the configuration of the command line: the pipe or the
  clone fails and the status is 1; or a child is made with the flags asked for and, in the memory
  it starts from, every field of that configuration (root, host name, limits, network, command with
  its arguments) and the two ends of the pipe; it is released by
  closing the write end of the pipe, waited for until the wait is not interrupted, and the status
  is the child's exit status, 128 plus the number of the signal that ended it, or 1 when the wait
  failed. The status fits a byte. When a limit was asked for and nothing was printed on
  \<open>std::cerr\<close>, every limit of the command line was written in full into the child's own group,
  and the child moved into it, before the barrier opened, and the group was removed last.\<close>

theorem minicontainer_run:
  assumes run: "main K strsignal (''run'' # config_args cfg) s = Some (res, s')"
    and cmd: "command cfg \<noteq> []"
    and memory: "memory_limit cfg = -1 \<or> 0 \<le> memory_limit cfg" "ll_range (memory_limit cfg)"
    and pids: "ll_range (pids_limit cfg)"
  shows "\<exists>status q rest. res = Inr status \<and> 0 \<le> status \<and> status \<le> 255 \<and>
    trace s' = trace s @ E_call Sys_geteuid q # rest \<and>
    (if c_int q \<noteq> 0 then status = 1 \<and> rest = []
     else \<exists>reads evs. rest = reads @ evs \<and> namespace_reads ''self'' namespace_kinds reads \<and>
       ran_container cfg status (err s' = err s) evs)"
proof -
  have "cfg\<lparr>command := [] @ command cfg\<rparr> = cfg" by simp
  with run parse_options_roundtrip [OF memory pids, of s] obtain status where
    res: "res = Inr status" and "run_command K strsignal cfg s = Some (status, s')"
    by (auto simp: main_def bind_eq_Some_conv)
  from run_command_result [OF this(2) cmd] res show ?thesis
    by (auto split: if_splits dest: ran_container_status)
qed

text \<open>A command that is killed, on a kernel that tells nothing about namespaces. The memory that
  its \<open>clone\<close> points to is spelled out.\<close>

lemma minicontainer_run_witness:
  "\<exists>s' q rest rfd wfd. main scripted (\<lambda>_. ''Killed'')
      [''run'', ''--rootfs=/r'', ''--hostname=box'', ''--share-net'', ''--'', ''sh'', ''-i'']
      (fresh_os [A_int 0, A_fail 2, A_fail 2, A_fail 2, A_fail 2, A_fail 2, A_fail 2, A_fail 2,
        A_pair 3 4, A_int 100, A_int 0, A_fail 2, A_fail 2, A_fail 2, A_fail 2, A_fail 2, A_fail 2, A_fail 2,
        A_int 0, A_int 9]) = Some (Inr 137, s') \<and>
    trace s' = [] @ E_call Sys_geteuid q # rest \<and>
    (\<exists>q. E_call (Sys_clone [CLONE_NEWPID, CLONE_NEWNS, CLONE_NEWUTS, CLONE_NEWIPC, SIGCHLD]
      (D_list [D_list [D_string ''/r'', D_string ''box'', D_int (-1), D_int (-1), D_bool False,
        D_list [D_string ''sh'', D_string ''-i'']], D_int rfd, D_int wfd])) q \<in> set rest)"
proof -
  let ?cfg = "ContainerConfig_init\<lparr>rootfs := ''/r'', hostname := ''box'', isolate_network := False,
    command := [''sh'', ''-i'']\<rparr>"
  let ?s = "fresh_os [A_int 0, A_fail 2, A_fail 2, A_fail 2, A_fail 2, A_fail 2, A_fail 2, A_fail 2,
    A_pair 3 4, A_int 100, A_int 0, A_fail 2, A_fail 2, A_fail 2, A_fail 2, A_fail 2, A_fail 2, A_fail 2,
    A_int 0, A_int 9]"
  have cfg: "memory_limit ?cfg = -1" "pids_limit ?cfg = -1" "command ?cfg = [''sh'', ''-i'']"
    by (simp_all add: ContainerConfig_init_def)
  have args: "[''run'', ''--rootfs=/r'', ''--hostname=box'', ''--share-net'', ''--'', ''sh'', ''-i''] =
      ''run'' # config_args ?cfg"
    by (simp add: config_args_def ContainerConfig_init_def)
  have status: "report_status (\<lambda>_. ''Killed'') 9 s = (137, put_out (''  container killed by signal '' @
      to_string 9 @ '' (Killed)'' @ newline) s)" for s :: "answer list os"
    by (simp add: report_status_def wifexited_def wifsignaled_def wtermsig_def)
  have "\<exists>s'. run_command scripted (\<lambda>_. ''Killed'') ?cfg ?s = Some (137, s')"
    by (simp add: run_command_def run_container_def fresh_os_def cfg sys_pipe_def call_def finish_def
        namespaces_snap put_out_def wait_snap report_oom_def Cgroup_valid_def status)
  then obtain s' where "run_command scripted (\<lambda>_. ''Killed'') ?cfg ?s = Some (137, s')" by blast
  moreover have "?cfg\<lparr>command := [] @ command ?cfg\<rparr> = ?cfg" by simp
  ultimately have run: "main scripted (\<lambda>_. ''Killed'') (''run'' # config_args ?cfg) ?s = Some (Inr 137, s')"
    using parse_options_roundtrip [of ?cfg ?s] cfg by (simp add: main_def ll_range_def)
  have clone: "E_call (Sys_clone (clone_flags ?cfg) (child_args ?cfg rfd wfd)) q =
      E_call (Sys_clone [CLONE_NEWPID, CLONE_NEWNS, CLONE_NEWUTS, CLONE_NEWIPC, SIGCHLD]
        (D_list [D_list [D_string ''/r'', D_string ''box'', D_int (-1), D_int (-1), D_bool False,
          D_list [D_string ''sh'', D_string ''-i'']], D_int rfd, D_int wfd])) q" for rfd wfd q
    by (simp add: clone_flags_def child_args_def ContainerConfig_init_def)
  from minicontainer_run [OF run] cfg obtain q rest where
    tr: "trace s' = [] @ E_call Sys_geteuid q # rest" and
    then_ran: "if c_int q \<noteq> 0 then 137 = (1::int) \<and> rest = []
     else \<exists>reads evs. rest = reads @ evs \<and> namespace_reads ''self'' namespace_kinds reads \<and>
       ran_container ?cfg 137 (err s' = err ?s) evs"
    by (auto simp: ll_range_def)
  from then_ran obtain rfd wfd pid pevs reads where
    "rest = reads @ E_pipe (Inr (rfd, wfd)) #
       E_call (Sys_clone (clone_flags ?cfg) (child_args ?cfg rfd wfd)) (Inr pid) # pevs"
    unfolding ran_container_def by (fastforce split: if_splits)
  then have "E_call (Sys_clone (clone_flags ?cfg) (child_args ?cfg rfd wfd)) (Inr pid) \<in> set rest"
    by simp
  with run tr show ?thesis unfolding clone args by blast
qed

end
