(* ===== verification/Mc_History.thy ===== *)
theory Mc_History
  imports Mc_Container
begin

section \<open>minicontainer: parent and child together\<close>

text \<open>
  The history of a container is a merge of the trace of its parent and the trace of its child.
  What the two know of each other is the pipe: the hypothesis \<open>pipe_respected\<close> states what the
  kernel documents about it, and the property states the order that the barrier is there for.
\<close>

subsection \<open>The history of both processes\<close>

datatype process = Parent | Child

definition parent_events :: "(process \<times> event) list \<Rightarrow> event list" where
  "parent_events h = map snd (filter (\<lambda>e. fst e = Parent) h)"

lemma shuffles_split:
  "zs \<in> shuffles xs (ys @ y # ys') \<Longrightarrow> \<exists>zs1 zs2 xs1 xs2. zs = zs1 @ y # zs2 \<and> xs = xs1 @ xs2 \<and>
    zs1 \<in> shuffles xs1 ys"
proof (induction zs arbitrary: xs ys)
  case Nil
  then show ?case by simp
next
  case (Cons z zs)
  then consider (left) xs' where "xs = z # xs'" "zs \<in> shuffles xs' (ys @ y # ys')"
    | (right) "hd (ys @ y # ys') = z" "zs \<in> shuffles xs (tl (ys @ y # ys'))"
    by (auto simp: Cons_in_shuffles_iff neq_Nil_conv)
  then show ?case
  proof cases
    case left
    from Cons.IH [OF left(2)] obtain zs1 zs2 xs1 xs2 where
      "zs = zs1 @ y # zs2" "xs' = xs1 @ xs2" "zs1 \<in> shuffles xs1 ys" by blast
    with left(1) show ?thesis
      by (intro exI [of _ "z # zs1"] exI [of _ zs2] exI [of _ "z # xs1"] exI [of _ xs2])
         (simp add: Cons_in_shuffles_leftI)
  next
    case right
    show ?thesis
    proof (cases ys)
      case Nil
      with right show ?thesis 
        by (intro exI [of _ "[]"] exI [of _ zs] exI [of _ xs]) simp
    next
      case (Cons w ws)
      with right have "zs \<in> shuffles xs (ws @ y # ys')" "w = z" by simp_all
      from Cons.IH [OF this(1)] obtain zs1 zs2 xs1 xs2 where
        "zs = zs1 @ y # zs2" "xs = xs1 @ xs2" "zs1 \<in> shuffles xs1 ws" by blast
      with Cons \<open>w = z\<close> show ?thesis
        by (intro exI [of _ "z # zs1"] exI [of _ zs2] exI [of _ xs1] exI [of _ xs2])
           (simp add: Cons_in_shuffles_rightI)
    qed
  qed
qed

lemma parent_events_shuffles:
  "h \<in> shuffles (map (Pair Parent) xs) (map (Pair Child) ys) \<Longrightarrow> parent_events h = xs"
proof (induction h arbitrary: xs ys)
  case Nil
  then show ?case by (simp add: parent_events_def)
next
  case (Cons e h)
  then consider x xs' where "xs = x # xs'" "e = (Parent, x)"
      "h \<in> shuffles (map (Pair Parent) xs') (map (Pair Child) ys)"
    | y ys' where "ys = y # ys'" "e = (Child, y)"
      "h \<in> shuffles (map (Pair Parent) xs) (map (Pair Child) ys')"
    by (auto simp: Cons_in_shuffles_iff map_eq_Cons_conv neq_Nil_conv)
  then show ?case using Cons.IH by cases (auto simp: parent_events_def)
qed

text \<open>
  What the kernel documents about the two descriptors of a pipe. They are distinct; a read
  reports the end of the pipe only when every write end was closed, so after the parent closed
  its own; nobody writes, so a read returns nothing else, unless it is interrupted; and a
  descriptor that is in use is not handed out by \<open>open\<close>.
\<close>

definition pipe_respected :: "int \<Rightarrow> int \<Rightarrow> (process \<times> event) list \<Rightarrow> bool" where
  "pipe_respected rfd wfd h \<longleftrightarrow> rfd \<noteq> wfd \<and>
     (\<forall>h1 n h2. h = h1 @ (Child, E_read rfd n (Inr [])) # h2 \<longrightarrow>
       (\<exists>c. (Parent, E_call (Sys_close wfd) c) \<in> set h1)) \<and>
     (\<forall>n q. (Child, E_read rfd n q) \<in> set h \<longrightarrow> q = Inr [] \<or> q = Inl EINTR) \<and>
     (\<forall>h1 p fl h2. h = h1 @ (Parent, E_call (Sys_open p fl) (Inr wfd)) # h2 \<longrightarrow>
       (\<exists>c. (Parent, E_call (Sys_close wfd) c) \<in> set h1))"

lemma closed_in: "fd \<in> \<Union> (fd_closed ` set evs) \<longleftrightarrow> (\<exists>c. E_call (Sys_close fd) c \<in> set evs)"
proof -
  have "fd \<in> fd_closed ev \<longleftrightarrow> (\<exists>c. ev = E_call (Sys_close fd) c)" for ev
    by (cases ev rule: fd_closed.cases) auto
  then show ?thesis by auto
qed

lemma opened_iff: "fd \<in> fd_opened ev \<longleftrightarrow> (\<exists>p fl. ev = E_call (Sys_open p fl) (Inr fd))"
  by (cases ev rule: fd_opened.cases) auto

text \<open>The parent's part of a history in which it closed the write end covers the limits.\<close>

lemma parent_before_close:
  assumes split: "pevs = xs @ ys" and run: "parent_run rfd wfd pid pevs before status after"
    and closed: "E_call (Sys_close wfd) c \<in> set xs" and fds: "rfd \<noteq> wfd"
    and opens: "\<forall>e1 p fl e2. pevs = e1 @ E_call (Sys_open p fl) (Inr wfd) # e2 \<longrightarrow>
      (\<exists>c. E_call (Sys_close wfd) c \<in> set e1)"
  shows "\<exists>more c1. xs = E_call (Sys_close rfd) c1 # before @ more"
proof -
  from run obtain c1 c2 waits where
    pevs: "pevs = E_call (Sys_close rfd) c1 # before @ E_call (Sys_close wfd) c2 # waits @
      E_waitpid pid status # after" and own: "closes_own before"
    by (auto simp: parent_run_def)
  let ?rest = "E_call (Sys_close wfd) c2 # waits @ E_waitpid pid status # after"
  have "\<forall>e1 ev e2. before = e1 @ ev # e2 \<and> wfd \<in> fd_opened ev \<longrightarrow> wfd \<in> \<Union> (fd_closed ` set e1)"
  proof (intro allI impI, elim conjE)
    fix e1 ev e2
    assume b: "before = e1 @ ev # e2" and "wfd \<in> fd_opened ev"
    then obtain p fl where "ev = E_call (Sys_open p fl) (Inr wfd)" by (auto simp: opened_iff)
    with b pevs have "pevs = (E_call (Sys_close rfd) c1 # e1) @
        E_call (Sys_open p fl) (Inr wfd) # e2 @ ?rest" by simp
    with opens obtain c where "E_call (Sys_close wfd) c \<in> set (E_call (Sys_close rfd) c1 # e1)" by blast
    with fds show "wfd \<in> \<Union> (fd_closed ` set e1)" by (auto simp only: closed_in) auto
  qed
  from closes_own_other [OF own this] have none: "E_call (Sys_close wfd) c \<notin> set before" for c
    using closed_in [of wfd before] by blast
  from split pevs closed obtain xs' where xs: "xs = E_call (Sys_close rfd) c1 # xs'"
    by (cases xs) auto
  with split pevs have eq: "xs' @ ys = before @ ?rest" by simp
  from closed xs fds have "E_call (Sys_close wfd) c \<in> set xs'" by simp
  then have "\<not> (\<exists>us. before = xs' @ us)" using none by auto
  then show ?thesis using eq xs by (auto simp: append_eq_append_conv2)
qed

lemma shuffles_pairs:
  "e \<in> set h \<Longrightarrow> h \<in> shuffles (map (Pair Parent) xs) (map (Pair Child) ys) \<Longrightarrow>
    snd e \<in> set (case fst e of Parent \<Rightarrow> xs | Child \<Rightarrow> ys)"
  by (drule set_shuffles) auto

text \<open>The parent opens a descriptor of the number of the write end only after closing that.\<close>

lemma parent_opens_after_close:
  assumes history: "h \<in> shuffles (map (Pair Parent) pevs) (map (Pair Child) cevs)"
    and pipe: "pipe_respected rfd wfd h" and e: "pevs = e1 @ E_call (Sys_open p fl) (Inr wfd) # e2"
  shows "\<exists>c. E_call (Sys_close wfd) c \<in> set e1"
proof -
  have "h \<in> shuffles (map (Pair Child) cevs)
      (map (Pair Parent) e1 @ (Parent, E_call (Sys_open p fl) (Inr wfd)) # map (Pair Parent) e2)"
    using history e by (simp add: shuffles_commutes)
  from shuffles_split [OF this] obtain g1 g2 y1 y2 where
    g: "h = g1 @ (Parent, E_call (Sys_open p fl) (Inr wfd)) # g2"
    and y: "map (Pair Child) cevs = y1 @ y2" "g1 \<in> shuffles y1 (map (Pair Parent) e1)" by blast
  from y(1) obtain c' where "y1 = map (Pair Child) c'" by (metis map_eq_append_conv)
  with y(2) have sh: "g1 \<in> shuffles (map (Pair Parent) e1) (map (Pair Child) c')"
    by (simp add: shuffles_commutes)
  from g pipe obtain c where "(Parent, E_call (Sys_close wfd) c) \<in> set g1"
    unfolding pipe_respected_def by metis
  from shuffles_pairs [OF this sh] show ?thesis by auto
qed

text \<open>
  The barrier: a child that passed it, having read the end of the pipe, did so after the parent
  closed its write end.
\<close>

lemma barrier_orders:
  assumes history: "h \<in> shuffles (map (Pair Parent) pevs) (map (Pair Child) (pre @ ev # post))"
    and pipe: "pipe_respected rfd wfd h"
    and reads: "barrier_reads rfd reads" "set reads \<subseteq> set pre"
  shows "\<exists>h1 h2 p1 p2 c. h = h1 @ (Child, ev) # h2 \<and> pevs = p1 @ p2 \<and> parent_events h1 = p1 \<and>
    E_call (Sys_close wfd) c \<in> set p1"
proof -
  have "h \<in> shuffles (map (Pair Parent) pevs)
      (map (Pair Child) pre @ (Child, ev) # map (Pair Child) post)"
    using history by simp
  from shuffles_split [OF this] obtain h1 h2 xs1 xs2 where
    h: "h = h1 @ (Child, ev) # h2" and xs: "map (Pair Parent) pevs = xs1 @ xs2"
    and sh: "h1 \<in> shuffles xs1 (map (Pair Child) pre)" by blast
  from xs obtain p1 p2 where ps: "xs1 = map (Pair Parent) p1" "pevs = p1 @ p2"
    by (metis map_eq_append_conv)
  from reads(1) obtain rs q' where rs: "reads = rs @ [E_read rfd 1 q']" and q0: "q' \<noteq> Inl EINTR"
    by (auto simp: barrier_reads_def)
  then have q': "(Child, E_read rfd 1 q') \<in> set h1"
    using set_shuffles [OF sh] reads(2) by auto
  with q0 pipe h have "q' = Inr []" unfolding pipe_respected_def by (metis UnCI set_append)
  with q' obtain ha hb where h1: "h1 = ha @ (Child, E_read rfd 1 (Inr [])) # hb"
    by (metis split_list)
  with h pipe obtain c where "(Parent, E_call (Sys_close wfd) c) \<in> set ha"
    unfolding pipe_respected_def by (metis append_Cons append_assoc)
  with h1 have "(Parent, E_call (Sys_close wfd) c) \<in> set h1" by simp
  from shuffles_pairs [OF this sh [unfolded ps(1)]] have "E_call (Sys_close wfd) c \<in> set p1" by simp
  with h ps(2) parent_events_shuffles [OF sh [unfolded ps(1)]] show ?thesis by blast
qed

text \<open>C4: Limits are in place before the command runs. Take any merge of the trace of a parent
  that was asked for a limit and printed no diagnostic, and the trace of a child that became
  the command, in which the pipe behaves as documented. Then, before the child's \<open>execvp\<close>, the
  parent had completely written the memory limit (if any), the limit on processes (if any) and
  the child's pid, in this order, into the files of the child's own group.\<close>

theorem limits_before_exec:
  assumes parent: "run_container K strsignal cfg error s = Some ((code, error'), s')"
    "trace s' = trace s @ E_pipe (Inr (rfd, wfd)) # E_call (Sys_clone (clone_flags cfg) (child_args cfg rfd wfd)) (Inr pid) # pevs"
      "0 \<le> pid"
    and silent: "err s' = err s"
    and limited: "0 < memory_limit cfg \<or> 0 < pids_limit cfg"
    and child: "child_main K' cfg rfd wfd t = Some (Inr Exec, t')" "trace t' = trace t @ cevs"
    and cmd: "command cfg \<noteq> []"
    and history: "h \<in> shuffles (map (Pair Parent) pevs) (map (Pair Child) cevs)"
    and pipe: "pipe_respected rfd wfd h"
  shows "\<exists>h1 q h2. h = h1 @ (Child, E_call (Sys_execvp (command cfg)) q) # h2 \<and>
    performed (limit_writes cfg pid) (parent_events h1)"
proof -
  obtain before where run: "container_run cfg s s' code rfd wfd pid pevs before"
    using run_container_trace [OF parent(1)]
  proof (elim disjE conjE exE)
    fix rfd' wfd' pid' evs before
    assume r: "container_run cfg s s' code rfd' wfd' pid' evs before"
    then have "rfd' = rfd \<and> wfd' = wfd \<and> pid' = pid \<and> evs = pevs"
      using parent(2) by (simp add: container_run_def)
    with r that show thesis by blast
  qed (use parent(2,3) in simp_all)
  then obtain status after where p: "parent_run rfd wfd pid pevs before status after"
    and lim: "performed (limit_writes cfg pid) before"
    using silent limited unfolding container_run_def by blast
  from child_main_result [OF child(1) cmd] child(2) obtain c1 reads c2 evs msg where
    cevs: "cevs = E_call (Sys_close wfd) c1 # reads @ E_call (Sys_close rfd) c2 # evs"
    and reads: "barrier_reads rfd reads" and ended: "child_ended K' cfg (Inr Exec) evs msg"
    by auto
  from ended obtain sts q where evs: "evs = sts @ [E_call (Sys_execvp (command cfg)) q]"
    by (auto simp: child_ended_def split: if_splits)
  let ?pre = "E_call (Sys_close wfd) c1 # reads @ E_call (Sys_close rfd) c2 # sts"
  have "h \<in> shuffles (map (Pair Parent) pevs)
      (map (Pair Child) (?pre @ E_call (Sys_execvp (command cfg)) q # []))"
    using history cevs evs by simp
  note ordered = barrier_orders [OF this pipe reads]
  have "set reads \<subseteq> set ?pre" by auto
  from ordered [OF this] obtain h1 h2 p1 p2 c where
    h: "h = h1 @ (Child, E_call (Sys_execvp (command cfg)) q) # h2" and ps: "pevs = p1 @ p2"
    and h1: "parent_events h1 = p1" and closed: "E_call (Sys_close wfd) c \<in> set p1" by blast
  have "rfd \<noteq> wfd" using pipe by (simp add: pipe_respected_def)
  from parent_before_close [OF ps p closed this] parent_opens_after_close [OF history pipe]
  obtain more c3 where "p1 = E_call (Sys_close rfd) c3 # before @ more" by blast
  with h1 performed_more [OF lim, of "[E_call (Sys_close rfd) c3]" more]
  have "performed (limit_writes cfg pid) (parent_events h1)" by simp
  with h show ?thesis by blast
qed

subsection \<open>A run\<close>

text \<open>
  A parent that limits the number of processes, the child of the same configuration, and a
  merge of their traces. The kernel hands out descriptor 3 again and again, which is the number
  of the read end that the parent closed.
\<close>

lemma shuffles_insert: "xs @ ys @ xs' \<in> shuffles (xs @ xs') ys"
proof (induction xs)
  case Nil
  have "ys @ xs' \<in> shuffles xs' ys"
    by (induction ys) (auto simp: Cons_in_shuffles_rightI shuffles_commutes [of xs' "[]"])
  then show ?case by simp
next
  case (Cons x xs)
  then show ?case by (simp add: Cons_in_shuffles_leftI)
qed

text \<open>The hypothesis on the pipe, checked from the left.\<close>

fun event_respects :: "int \<Rightarrow> int \<Rightarrow> bool \<Rightarrow> process \<times> event \<Rightarrow> bool" where
  "event_respects rfd wfd shut (Child, E_read fd n q) \<longleftrightarrow>
     fd = rfd \<longrightarrow> q = Inl EINTR \<or> q = Inr [] \<and> shut"
| "event_respects rfd wfd shut (Parent, E_call (Sys_open p fl) (Inr fd)) \<longleftrightarrow> fd = wfd \<longrightarrow> shut"
| "event_respects rfd wfd shut _ \<longleftrightarrow> True"

fun parent_closes :: "int \<Rightarrow> process \<times> event \<Rightarrow> bool" where
  "parent_closes wfd (Parent, E_call (Sys_close fd) r) \<longleftrightarrow> fd = wfd"
| "parent_closes wfd _ \<longleftrightarrow> False"

fun pipe_scan :: "int \<Rightarrow> int \<Rightarrow> bool \<Rightarrow> (process \<times> event) list \<Rightarrow> bool" where
  "pipe_scan rfd wfd shut [] \<longleftrightarrow> True"
| "pipe_scan rfd wfd shut (e # h) \<longleftrightarrow>
     event_respects rfd wfd shut e \<and> pipe_scan rfd wfd (shut \<or> parent_closes wfd e) h"

lemma pipe_scan_append:
  "pipe_scan rfd wfd shut (h1 @ e # h2) \<Longrightarrow>
    event_respects rfd wfd (shut \<or> (\<exists>x \<in> set h1. parent_closes wfd x)) e"
proof (induction h1 arbitrary: shut)
  case Nil
  then show ?case by simp
next
  case (Cons x h1)
  then have "pipe_scan rfd wfd (shut \<or> parent_closes wfd x) (h1 @ e # h2)" by simp
  from Cons.IH [OF this] show ?case by (simp add: disj_assoc)
qed

lemma parent_closes_iff:
  "parent_closes wfd x \<longleftrightarrow> (\<exists>c. x = (Parent, E_call (Sys_close wfd) c))"
  by (cases "(wfd, x)" rule: parent_closes.cases) auto

lemma pipe_scan_respected:
  assumes "pipe_scan rfd wfd False h" and "rfd \<noteq> wfd"
  shows "pipe_respected rfd wfd h"
proof -
  have each: "event_respects rfd wfd (\<exists>c. (Parent, E_call (Sys_close wfd) c) \<in> set h1) e"
    if "h = h1 @ e # h2" for h1 e h2
  proof -
    have "(\<exists>x \<in> set h1. parent_closes wfd x) \<longleftrightarrow> (\<exists>c. (Parent, E_call (Sys_close wfd) c) \<in> set h1)"
      by (auto simp: parent_closes_iff)
    with pipe_scan_append [of rfd wfd False h1 e h2] assms(1) that show ?thesis by simp
  qed
  then have "q = Inr [] \<or> q = Inl EINTR" if "(Child, E_read rfd n q) \<in> set h" for n q
    using split_list [OF that] by fastforce
  with each assms(2) show ?thesis by (fastforce simp: pipe_respected_def)
qed

abbreviation reading :: "string \<Rightarrow> event list" where
  "reading p \<equiv> [E_call (Sys_open p [O_RDONLY, O_CLOEXEC]) (Inr 3),
    E_read 3 4096 (Inr ''pids''), E_read 3 4096 (Inl 5), E_call (Sys_close 3) (Inr 0)]"

abbreviation writing :: "string \<Rightarrow> string \<Rightarrow> event list" where
  "writing p v \<equiv> [E_call (Sys_open p [O_WRONLY, O_CLOEXEC]) (Inr 3),
    E_write 3 v (Inr (length v)), E_call (Sys_close 3) (Inr 0)]"

abbreviation enabling :: "string \<Rightarrow> event list" where
  "enabling dir \<equiv> reading (dir @ ''/cgroup.controllers'') @
    writing (dir @ ''/cgroup.subtree_control'') ''+pids''"

lemma read_snap:
  "read_file scripted p (snap (A_int 3 # A_bytes ''pids'' # A_fail 5 # A_int 0 # as) e tr x) =
    Some (Some ''pids'', snap as 5 (tr @ reading p) x)"
  by (simp add: read_file_def read_loop.simps run_simps finish_def strip_trailing.simps
      ends_blank_def)

lemma read_snap_fails:
  "read_file scripted p (snap (A_fail 2 # as) e tr x) =
    Some (None, snap as 2 (tr @ [E_call (Sys_open p [O_RDONLY, O_CLOEXEC]) (Inl 2)]) x)"
  by (simp add: read_file_def run_simps finish_def)

lemma write_snap:
  "int (length v) = n \<Longrightarrow>
    write_file scripted p v er (snap (A_int 3 # A_int n # A_int 0 # as) e tr x) =
      ((True, er), snap as e (tr @ writing p v) x)"
  by (auto simp: write_file_def run_simps finish_def)

lemma enable_snap:
  "enable_controllers scripted dir er (snap (A_int 3 # A_bytes ''pids'' # A_fail 5 # A_int 0 #
      A_int 3 # A_int 5 # A_int 0 # as) e tr x) =
    Some ((True, er), snap as 5 (tr @ enabling dir) x)"
  by (simp add: enable_controllers_def contains_def read_snap write_snap)

definition group_script :: "answer list" where
  "group_script = [A_int 0x63677270, A_fail 2,
     A_int 3, A_bytes ''pids'', A_fail 5, A_int 0, A_int 3, A_int 5, A_int 0, A_int 0,
     A_int 3, A_bytes ''pids'', A_fail 5, A_int 0, A_int 3, A_int 5, A_int 0, A_int 0]"

definition group_events :: "string \<Rightarrow> event list" where
  "group_events name = [E_call (Sys_statfs kRoot) (Inr 0x63677270),
     E_call (Sys_open (kRoot @ ''/cgroup.procs'') [O_RDONLY, O_CLOEXEC]) (Inl 2)] @
     enabling kRoot @ [E_call (Sys_mkdir kParent 493) (Inr 0)] @ enabling kParent @
     [E_call (Sys_mkdir (kParent @ ''/'' @ name) 493) (Inr 0)]"

lemma create_snap:
  "Cgroup_create scripted [] name er (snap (group_script @ as) e tr x) =
    Some ((True, er, kParent @ ''/'' @ name), snap as 5 (tr @ group_events name) x)"
  by (simp add: group_script_def group_events_def Cgroup_create_def cgroup_v2_available_def
      vacate_root_def call_value_def read_snap_fails call_def finish_def enable_snap
      kCgroup2Magic_def Let_def)

definition sample_cfg :: ContainerConfig where
  "sample_cfg = ContainerConfig_init\<lparr>pids_limit := 9, command := [''sh'']\<rparr>"

definition parent_script :: "answer list" where
  "parent_script = A_pair 3 4 # A_int 100 # A_int 0 # group_script @
     [A_int 3, A_int 1, A_int 0, A_int 3, A_int 3, A_int 0] @ [A_fail 2, A_fail 2, A_fail 2, A_fail 2, A_fail 2, A_fail 2, A_fail 2] @
     [A_int 0, A_int 0, A_fail 2, A_int 0]"

definition parent_setup :: "event list" where
  "parent_setup = E_call (Sys_close 3) (Inr 0) # group_events (''mc-'' @ to_string 100) @
     writing (group_of 100 @ ''/pids.max'') (to_string 9) @
     writing (group_of 100 @ ''/cgroup.procs'') (to_string 100) @
     no_namespaces (to_string 100) @ [E_call (Sys_close 4) (Inr 0)]"

definition parent_rest :: "event list" where
  "parent_rest = [E_waitpid 100 (Inr 0),
     E_call (Sys_open (group_of 100 @ ''/memory.events'') [O_RDONLY, O_CLOEXEC]) (Inl 2),
     E_call (Sys_rmdir (group_of 100)) (Inr 0)]"

lemma to_string_lengths: "length (to_string 9) = 1" "length (to_string 100) = 3"
  by (simp_all add: to_string_def digits.simps)

lemma parent_sample:
  "\<exists>s'. run_container scripted (\<lambda>_. []) sample_cfg (Some []) (fresh_os parent_script) =
      Some ((0, Some []), s') \<and>
    trace s' = [] @ E_pipe (Inr (3, 4)) # E_call (Sys_clone (clone_flags sample_cfg) (child_args sample_cfg 3 4)) (Inr 100) #
      parent_setup @ parent_rest \<and> err s' = []"
proof -
  have w: "int (length (to_string 9)) = 1" "int (length (to_string 100)) = 3"
    by (simp_all add: to_string_lengths)
  have g: "kParent @ ''/'' @ ''mc-'' @ to_string 100 = group_of 100" by (simp add: group_of_def)
  have limits: "apply_limits scripted sample_cfg 100 (snap (group_script @ A_int 3 # A_int 1 # A_int 0 #
      A_int 3 # A_int 3 # A_int 0 # as) e tr x) = Some (group_of 100, snap as 5
      (tr @ group_events (''mc-'' @ to_string 100) @
        writing (group_of 100 @ ''/pids.max'') (to_string 9) @
        writing (group_of 100 @ ''/cgroup.procs'') (to_string 100)) x)" for as e tr x
    by (simp add: apply_limits_def create_snap g [simplified] sample_cfg_def ContainerConfig_init_def set_pids_limit_def
        add_process_def write_snap [OF w(1)] write_snap [OF w(2)] complain_def)
  have cfg: "memory_limit sample_cfg = -1" "pids_limit sample_cfg = 9"
    by (simp_all add: sample_cfg_def ContainerConfig_init_def)
  have some: "group_of 100 \<noteq> []" by (simp add: group_of_def kParent_def)
  have oom: "report_oom scripted (group_of 100) (snap (A_fail 2 # as) e tr x) = Some (snap as 2 (tr @
      [E_call (Sys_open (group_of 100 @ ''/memory.events'') [O_RDONLY, O_CLOEXEC]) (Inl 2)]) x)" for as e tr x
    by (simp add: report_oom_def oom_kill_count_def Cgroup_valid_def read_snap_fails some)
  have st: "report_status (\<lambda>_. []) 0 s = (0, s)" for s :: "answer list os"
    by (simp add: report_status_def wifexited_def wexitstatus_def wtermsig_def)
  have rm: "Cgroup_destroy scripted (group_of 100) (snap [A_int 0] e tr x) =
      snap [] e (tr @ [E_call (Sys_rmdir (group_of 100)) (Inr 0)]) x" for e tr x
    by (simp add: Cgroup_destroy_def group_of_def kParent_def call_def finish_def)
  show ?thesis
    by (simp add: run_container_def parent_script_def fresh_os_def cfg sys_pipe_def call_def
        finish_def limits put_out_def namespaces_snap wait_snap oom st rm parent_setup_def parent_rest_def)
qed

definition child_script :: "answer list" where
  "child_script = [A_int 0, A_bytes [], A_int 0, A_int 0, A_int 0, A_int 0, A_int 0]"

definition child_events :: "event list" where
  "child_events = [E_call (Sys_close 4) (Inr 0), E_read 3 1 (Inr []), E_call (Sys_close 3) (Inr 0),
     E_call (Sys_sethostname ''container'') (Inr 0), E_call (Sys_mkdir ''/proc'' 365) (Inr 0),
     E_call (Sys_mount (Some ''proc'') ''/proc'' (Some ''proc'') []) (Inr 0),
     E_call (Sys_execvp [''sh'']) (Inr 0)]"

lemma child_sample:
  "\<exists>t'. child_main scripted sample_cfg 3 4 (fresh_os child_script) = Some (Inr Exec, t') \<and>
    trace t' = [] @ child_events"
  by (simp add: child_main_def sample_cfg_def ContainerConfig_init_def child_script_def
      child_events_def barrier_loop.simps run_simps mount_proc_def)

definition sample_history :: "(process \<times> event) list" where
  "sample_history = map (Pair Parent) parent_setup @ map (Pair Child) child_events @
     map (Pair Parent) parent_rest"

lemma limits_before_exec_witness:
  "\<exists>h1 q h2. sample_history = h1 @ (Child, E_call (Sys_execvp [''sh'']) q) # h2 \<and>
    performed (limit_writes sample_cfg 100) (parent_events h1)"
proof -
  from parent_sample obtain s' where p: "run_container scripted (\<lambda>_. []) sample_cfg (Some [])
      (fresh_os parent_script) = Some ((0, Some []), s')"
    "trace s' = trace (fresh_os parent_script) @ E_pipe (Inr (3, 4)) #
      E_call (Sys_clone (clone_flags sample_cfg) (child_args sample_cfg 3 4)) (Inr 100) # parent_setup @ parent_rest"
    "err s' = err (fresh_os parent_script)" by auto
  from child_sample obtain t' where c: "child_main scripted sample_cfg 3 4 (fresh_os child_script) =
      Some (Inr Exec, t')" "trace t' = trace (fresh_os child_script) @ child_events" by auto
  have cfg: "0 < memory_limit sample_cfg \<or> 0 < pids_limit sample_cfg" "command sample_cfg \<noteq> []"
    "command sample_cfg = [''sh'']" by (simp_all add: sample_cfg_def)
  have h: "sample_history \<in> shuffles (map (Pair Parent) (parent_setup @ parent_rest))
      (map (Pair Child) child_events)"
    unfolding sample_history_def map_append by (rule shuffles_insert)
  have "pipe_scan 3 4 False sample_history"
    by (simp add: sample_history_def parent_setup_def parent_rest_def child_events_def
        group_events_def namespace_kinds_def)
  then have "pipe_respected 3 4 sample_history" by (rule pipe_scan_respected) simp
  from limits_before_exec [OF p(1,2) _ p(3) cfg(1) c cfg(2) h this] cfg(3) show ?thesis by simp
qed

end
