(* ===== verification/Mc_Memhog.thy ===== *)
theory Mc_Memhog
  imports Os Numbers "HOL-Library.Word"
begin

section \<open>minicontainer: the memory hog\<close>

text \<open>
  Models \<open>minicontainer/demo/memhog.cpp\<close>: it allocates and fills blocks until \<open>malloc\<close> fails. A
  \<open>size_t\<close> is a 64-bit word. The kernel may kill the program at any call, which no state of the
  program sees; the loop itself ends only by a failed allocation, so it is a partial function.
\<close>

definition pad_left :: "nat \<Rightarrow> string \<Rightarrow> string" where
  "pad_left n tx = replicate (n - length tx) CHR '' '' @ tx"

definition in_megabytes :: "64 word \<Rightarrow> string" where
  "in_megabytes tot = digits 10 (unat (tot div (1024 * 1024)))"

partial_function (option) hog ::
  "'w kernel \<Rightarrow> 64 word \<Rightarrow> int list \<Rightarrow> 64 word \<Rightarrow> 'w os \<Rightarrow> (int \<times> 'w os) option" where
  "hog K chunk blocks tot s =
     (let (block, s) = call K (Sys_malloc (unat chunk)) s in
      if block = -1 then
        Some (1, put_out (''malloc failed after '' @ in_megabytes tot @ '' MB'' @ newline) s)
      else let (_, s) = call K (Sys_store block 1 (unat chunk)) s;
          blocks = blocks @ [block]; tot = tot + chunk;
          s = put_out (''allocated '' @ pad_left 4 (in_megabytes tot) @ '' MB'' @ newline) s in
        hog K chunk blocks tot s)"

definition memhog_main :: "'w kernel \<Rightarrow> string list \<Rightarrow> 'w os \<Rightarrow> (int \<times> 'w os) option" where
  "memhog_main K args s =
     (let chunk_mb = (case args of [] \<Rightarrow> 10 | a # _ \<Rightarrow> strtoull 10 a);
          chunk = chunk_mb * 1024 * 1024 in
      hog K chunk [] 0 s)"

text \<open>
  What a run that ends did: a number of blocks of the same size, each filled completely and
  reported before the next was asked for, then an allocation that failed, and status 1. The
  totals it prints are the multiples of the block size, modulo \<open>2 ^ 64\<close>.
\<close>

definition block_events :: "nat \<Rightarrow> int \<times> (errno + int) \<Rightarrow> event list" where
  "block_events n b = [E_call (Sys_malloc n) (Inr (fst b)), E_call (Sys_store (fst b) 1 n) (snd b)]"

fun reports :: "64 word \<Rightarrow> 64 word \<Rightarrow> nat \<Rightarrow> string" where
  "reports chunk tot 0 = ''malloc failed after '' @ in_megabytes tot @ '' MB'' @ newline"
| "reports chunk tot (Suc n) =
     ''allocated '' @ pad_left 4 (in_megabytes (tot + chunk)) @ '' MB'' @ newline @
     reports chunk (tot + chunk) n"

lemma hog_result:
  assumes "hog K chunk blocks tot s = Some (status, s')"
  shows "status = 1 \<and> (\<exists>bs x. c_int x = -1 \<and> out s' = out s @ reports chunk tot (length bs) \<and>
    trace s' = trace s @ concat (map (block_events (unat chunk)) bs) @
      [E_call (Sys_malloc (unat chunk)) x])"
proof -
  let ?Q = "\<lambda>chunk tot s (status, s'). status = 1 \<and> (\<exists>bs x. c_int x = -1 \<and>
    out s' = out s @ reports chunk tot (length bs) \<and>
    trace s' = trace s @ concat (map (block_events (unat chunk)) bs) @
      [E_call (Sys_malloc (unat chunk)) x])"
  have "?Q chunk tot s (status, s')"
  proof (rule hog.raw_induct [where P = "\<lambda>K chunk blocks. ?Q chunk", OF _ assms], goal_cases)
    case (1 f K chunk blocks tot s r)
    obtain b s1 where m: "call K (Sys_malloc (unat chunk)) s = (b, s1)" by (metis surj_pair)
    from call_extends [OF m] obtain x where
      x: "extends [E_call (Sys_malloc (unat chunk)) x] s s1" "b = c_int x" by blast
    obtain y s2 where f: "call K (Sys_store b 1 (unat chunk)) s1 = (y, s2)" by (metis surj_pair)
    from call_extends [OF f] obtain z where
      z: "extends [E_call (Sys_store b 1 (unat chunk)) z] s1 s2" by blast
    show ?case
    proof (cases "b = -1")
      case True
      with "1"(2) m x show ?thesis
        by (auto simp: extends_def intro!: exI [of _ "[]"] exI [of _ x])
    next
      case False
      with x(2) have "x = Inr b" by (cases x) auto
      let ?s3 = "put_out (''allocated '' @ pad_left 4 (in_megabytes (tot + chunk)) @ '' MB'' @
        newline) s2"
      from "1"(2) m f False have "f K chunk (blocks @ [b]) (tot + chunk) ?s3 = Some r"
        by (simp add: Let_def)
      from "1"(1) [OF this] obtain bs v where IH: "c_int v = -1"
        "out (snd r) = out ?s3 @ reports chunk (tot + chunk) (length bs)"
        "trace (snd r) = trace ?s3 @ concat (map (block_events (unat chunk)) bs) @
          [E_call (Sys_malloc (unat chunk)) v]" "fst r = 1"
        by (auto simp: case_prod_beta)
      with x(1) z \<open>x = Inr b\<close> show ?thesis
        by (auto simp: case_prod_beta extends_def block_events_def
            intro!: exI [of _ "(b, z) # bs"] exI [of _ v])
    qed
  qed
  then show ?thesis by simp
qed

text \<open>A kernel that always finds memory keeps the program running for ever.\<close>

lemma hog_for_ever:
  assumes "\<And>n w. \<exists>b. fst (k_call K (Sys_malloc n) w) = Inr b \<and> b \<noteq> -1"
  shows "memhog_main K args s = None"
proof -
  have never: "\<not> (\<forall>n w. \<exists>b. fst (k_call K (Sys_malloc n) w) = Inr b \<and> b \<noteq> -1)"
    if "hog K chunk blocks tot s = Some r" for K :: "'a kernel" and chunk blocks tot s r
  proof (rule hog.raw_induct [where P = "\<lambda>K chunk blocks tot s r.
      \<not> (\<forall>n w. \<exists>b. fst (k_call K (Sys_malloc n) w) = Inr b \<and> b \<noteq> -1)", OF _ that], goal_cases)
    case (1 f K chunk blocks tot s r)
    show ?case
    proof
      assume memory: "\<forall>n w. \<exists>b. fst (k_call K (Sys_malloc n) w) = Inr b \<and> b \<noteq> -1"
      then obtain b where b: "fst (k_call K (Sys_malloc (unat chunk)) (world s)) = Inr b" "b \<noteq> -1"
        by blast
      then have "fst (call K (Sys_malloc (unat chunk)) s) \<noteq> -1"
        by (simp add: call_def case_prod_beta)
      with "1"(2) obtain chunk' blocks' tot' s'' where "f K chunk' blocks' tot' s'' = Some r"
        by (auto simp: case_prod_beta Let_def)
      from "1"(1) [OF this] memory show False by blast
    qed
  qed
  show ?thesis
  proof (rule ccontr)
    assume "memhog_main K args s \<noteq> None"
    then obtain chunk r where "hog K chunk [] 0 s = Some r"
      by (auto simp: memhog_main_def Let_def)
    from never [OF this] assms show False by blast
  qed
qed

end
