(* ===== verification/Elf_Lab.thy ===== *)
theory Elf_Lab
  imports Os Numbers
begin

section \<open>elf-lab: a program and the libraries it may be linked with\<close>

text \<open>
  Models \<open>elf-lab/src/greeter.cpp\<close>, \<open>libgreet.cpp\<close> and \<open>libpreload.cpp\<close>. A library is the
  functions that it exports; a symbol that a program leaves open is bound to the first of the
  loaded libraries that exports it, which is the rule of the ELF dynamic linker (a library that
  is named in \<open>LD_PRELOAD\<close> is loaded before those the program was linked with). A program with
  an open symbol that no library exports is not started.
\<close>

record 'w library =
  sym_greet :: "(string \<Rightarrow> 'w os \<Rightarrow> 'w os) option"
  sym_add :: "(int \<Rightarrow> int \<Rightarrow> int cpp) option"

definition greet :: "string \<Rightarrow> 'w os \<Rightarrow> 'w os" where
  "greet name s = put_out (''  greet: hello, '' @ name @ newline) s"

definition add :: "int \<Rightarrow> int \<Rightarrow> int cpp" where
  "add a b = (if int_range (a + b) then Inr (a + b) else Inl Undefined_Behaviour)"

definition interposed_greet :: "string \<Rightarrow> 'w os \<Rightarrow> 'w os" where
  "interposed_greet name s =
     put_out (''  [interposed] greet was hijacked, name='' @ name @ newline) s"

definition libgreet :: "'w library" where
  "libgreet = \<lparr>sym_greet = Some greet, sym_add = Some add\<rparr>"

definition libpreload :: "'w library" where
  "libpreload = \<lparr>sym_greet = Some interposed_greet, sym_add = None\<rparr>"

fun resolve :: "('w library \<Rightarrow> 'f option) \<Rightarrow> 'w library list \<Rightarrow> 'f option" where
  "resolve symbol [] = None"
| "resolve symbol (lib # libs) =
     (case symbol lib of Some f \<Rightarrow> Some f | None \<Rightarrow> resolve symbol libs)"

definition greeter_main ::
  "'w kernel \<Rightarrow> (string \<Rightarrow> 'w os \<Rightarrow> 'w os) \<Rightarrow> (int \<Rightarrow> int \<Rightarrow> int cpp) \<Rightarrow> 'w os \<Rightarrow> int cpp \<times> 'w os"
where
  "greeter_main K hello adder s =
     (let (p, s) = call K Sys_getpid s;
          s = put_out (''  pid '' @ to_string p @ newline) s;
          s = put_out (''  before first call to greet()'' @ newline) s;
          s = hello ''world'' s in
      case adder 2 3 of
        Inl e \<Rightarrow> (Inl e, s)
      | Inr n \<Rightarrow> (Inr 0, put_out (''  add(2, 3) = '' @ to_string n @ newline) s))"

definition load ::
  "'w kernel \<Rightarrow> 'w library list \<Rightarrow> 'w os \<Rightarrow> (int cpp \<times> 'w os) option" where
  "load K libs s =
     (case (resolve sym_greet libs, resolve sym_add libs) of
        (Some g, Some a) \<Rightarrow> Some (greeter_main K g a s)
      | _ \<Rightarrow> None)"

text \<open>
  Interposition: with the preloaded library in front, every call of \<open>greet\<close> is the interposed
  one, and \<open>add\<close>, which it does not define, is still the one of \<open>libgreet\<close>.
\<close>

lemma preload_interposes:
  "load K (libpreload # libgreet # libs) s = Some (greeter_main K interposed_greet add s)"
  "load K (libgreet # libs) s = Some (greeter_main K greet add s)"
  by (simp_all add: load_def libpreload_def libgreet_def)

lemma greeter_output:
  assumes "call K Sys_getpid s = (p, s1)"
  shows "\<exists>s'. load K ((if preload then [libpreload] else []) @ [libgreet]) s = Some (Inr 0, s') \<and>
    trace s' = trace s1 \<and>
    out s' = out s1 @ ''  pid '' @ to_string p @ newline @ ''  before first call to greet()'' @ newline @
      (if preload then ''  [interposed] greet was hijacked, name=world'' else ''  greet: hello, world'')
        @ newline @ ''  add(2, 3) = '' @ to_string 5 @ newline"
  by (simp add: preload_interposes greeter_main_def assms add_def int_range_def greet_def
      interposed_greet_def)

end
