(* ===== verification/Spec2Isabelle.thy ===== *)
theory Spec2Isabelle
  imports Procmon_Resources Ev_Main_Threads Ev_Load_Threads Mc_Main Mc_History Mc_Memhog Elf_Lab
begin

text \<open>
  A verification library for the repository linux-internals: four independent C++ projects that
  show how Linux works from user space. It models all of their programs; every definition is a
  translation of code under \<open>src/\<close>, and every theorem is about those definitions.

  \<^bold>\<open>The programs and how their parts interact.\<close>

  \<^item> \<open>procmon\<close> prints what /proc says. \<open>main.cpp\<close> has one function per command; it calls
    \<open>process.cpp\<close> and \<open>system.cpp\<close>, which read files through \<open>util.cpp\<close> (the owning class
    \<open>FileDescriptor\<close>, \<open>read_file\<close>, the text helpers), and prints through \<open>format.cpp\<close> (quantities,
    the class \<open>Table\<close>). \<open>mapped_file.cpp\<close> has the owning class \<open>MappedFile\<close>, on top of
    \<open>FileDescriptor\<close>; the two programs of \<open>demo/\<close> use it.
  \<^item> \<open>evserver\<close> is one echo server written four ways. \<open>main.cpp\<close> parses the options and drives an
    object of the virtual base class \<open>Server\<close> (construct, \<open>start\<close>, \<open>run\<close>, \<open>stats\<close>, destroy) that
    \<open>server.cpp\<close> makes: \<open>server_epoll.cpp\<close> (level- and edge-triggered), \<open>server_uring.cpp\<close>
    (completions from a shared ring) or \<open>server_threads.cpp\<close> (one blocking thread for each
    connection). All use \<open>socket.cpp\<close>, \<open>signals.cpp\<close> and the counters of \<open>stats.hpp\<close>.
    \<open>bench/loadgen.cpp\<close> is the client that measures them.
  \<^item> \<open>minicontainer\<close> runs a command in new namespaces with limits: \<open>main.cpp\<close> parses the options,
    \<open>container.cpp\<close> clones the child, sets the limits through the class \<open>Cgroup\<close> of
    \<open>cgroup.cpp\<close> while the child waits at a pipe, releases it and waits for its end; \<open>util.cpp\<close>
    reads and writes the small files and parses sizes. \<open>demo/memhog.cpp\<close> fills memory.
  \<^item> \<open>elf-lab\<close> is a program with an open symbol and two libraries that define it.

  \<^bold>\<open>How state and operations correspond.\<close> A C++ record is a record with the same members, an enum a
  datatype, a member function a definition of the same name that takes the object and returns it
  updated; the name of a class is a prefix where operators and constructors have no name. A
  \<open>std::string\<close> is a list of bytes, a fixed-width counter a word, a signed integer an \<open>int\<close> whose
  range is checked where the code can leave it. What a function may do besides returning is a value:
  \<^item> an uncaught exception or undefined behaviour is \<open>Inl\<close> of a \<^theory_text>\<open>cpp_error\<close> (\<^theory_text>\<open>Prelude\<close>);
  \<^item> "does not return" is \<open>None\<close> of a \<^theory_text>\<open>partial_function\<close>, used for every loop that the kernel or
    a peer can keep going for ever. No fuel is used anywhere: such a loop is the least fixed point
    of its equation, and that it does return is proved where it does (\<open>read_file_terminates\<close>,
    \<open>write_all_correct\<close>, \<open>loadgen_ends\<close>) or refuted (\<open>shutdown_waits_for_worker\<close>, \<open>hog_for_ever\<close>).
    Where a function has a bound on its steps (\<open>scheduled_upto\<close>), it is only to evaluate an
    example, and is proved to give the unbounded result;
  \<^item> a \<open>std::string *error\<close> is an option that is returned updated, \<open>None\<close> being the null pointer.
  The kernel is a parameter \<open>K\<close> (\<^theory_text>\<open>Os\<close>): a record of functions over a world of any type. The state
  of a program carries the world, \<open>errno\<close>, the two output streams and the trace of all calls with
  their results. Theorems hold for every \<open>K\<close> unless a hypothesis says what is needed of it;
  descriptors that are opened and closed, bytes that are echoed, regions that are mapped are all read
  off the trace. The witnesses run the model on \<open>scripted\<close>, a kernel that answers from a list.

  \<^bold>\<open>The theories.\<close>

  \<^item> \<^theory_text>\<open>Prelude\<close>: outcomes, machine integers, character classes, searching and slicing of strings.
    \<^theory_text>\<open>Numbers\<close>: printing and the parsers of the standard library, with their round trips.
    \<^theory_text>\<open>Doubles\<close>: doubles as rationals rounded to 53 bits, \<open>%.Nf\<close>, the scaling to units.
    \<^theory_text>\<open>Os\<close>: the kernel, calls, traces and the relations between states that only extend the trace.
  \<^item> \<^theory_text>\<open>Handle\<close>: the locale \<open>owning_handle\<close>, the contract that \<open>proc::FileDescriptor\<close> and
    \<open>ev::Socket\<close> share; its lemma is that over any sequence of operations on any number of objects
    each descriptor is closed once or released. \<^theory_text>\<open>Procmon_Util\<close> and \<^theory_text>\<open>Ev_Socket\<close> interpret it.
    \<^theory_text>\<open>Schedule\<close>: runs of several threads along a schedule, with the locales \<open>threaded\<close> (what every
    schedule keeps) and \<open>progressing\<close> (every fair schedule comes to an end).
  \<^item> \<^theory_text>\<open>Procmon_Util\<close>, \<^theory_text>\<open>Procmon_Text\<close>: \<open>procmon/src/util.cpp\<close>; the index loops are proved equal to
    reference functions on lists, and text that was printed is parsed back.
    \<^theory_text>\<open>Procmon_Process\<close>: \<open>process.cpp\<close>; a line of stat or maps is read back as what it describes.
    \<^theory_text>\<open>Procmon_System\<close>: \<open>system.cpp\<close>. \<^theory_text>\<open>Procmon_Format\<close>: \<open>format.cpp\<close>; a table is rectangular and its
    columns line up. \<^theory_text>\<open>Procmon_Mapped\<close>: \<open>mapped_file.cpp\<close>; no region and no descriptor leaks.
    \<^theory_text>\<open>Procmon_Main\<close>: \<open>main.cpp\<close>; the list shows the leading processes. \<^theory_text>\<open>Procmon_Demos\<close>: \<open>demo/\<close>.
    \<^theory_text>\<open>Procmon_Resources\<close>: whole runs; procmon only observes, the demos clean up.
  \<^item> \<^theory_text>\<open>Ev_Socket\<close>: \<open>socket.cpp\<close>, \<open>signals.cpp\<close>. \<^theory_text>\<open>Ev_Server\<close>: \<open>stats.hpp\<close>, \<open>server.hpp\<close>,
    \<open>server.cpp\<close> and the options. \<^theory_text>\<open>Ev_Echo\<close>: the abstract specification, a monitor that accepts the
    calls of an echo server and a tally of its counters. \<^theory_text>\<open>Ev_Epoll\<close>, \<^theory_text>\<open>Ev_Uring\<close>, \<^theory_text>\<open>Ev_Threads\<close>:
    the backends, each proved to refine the monitor: \<^theory_text>\<open>Ev_Epoll\<close> by a relation that composes along the
    calls, \<^theory_text>\<open>Ev_Uring\<close> by an invariant of the states that completions in any order can reach,
    \<^theory_text>\<open>Ev_Threads\<close> by an invariant of every interleaving of the main thread and its workers.
    \<^theory_text>\<open>Ev_Main\<close>: \<open>main.cpp\<close>; the locale \<open>server\<close> is what it relies on of a \<open>Server\<close>, interpreted on the
    epoll and io_uring backends, and gives the theorems on whole runs. \<^theory_text>\<open>Ev_Main_Threads\<close>: the same
    for the thread backend, whose \<open>run\<close> and destructor follow a schedule of the steps of \<^theory_text>\<open>Ev_Threads\<close>.
    \<^theory_text>\<open>Ev_Loadgen\<close>: the client's options, a worker by itself, the statistics; \<^theory_text>\<open>Ev_Load_Threads\<close>: the
    workers side by side and \<open>main\<close>, whose runs are interleavings of clients, and end.
  \<^item> \<^theory_text>\<open>Mc_Util\<close>, \<^theory_text>\<open>Mc_Cgroup\<close>, \<^theory_text>\<open>Mc_Container\<close>, \<^theory_text>\<open>Mc_Main\<close>: the files of those names in
    \<open>minicontainer/src\<close>. The setup of the child is proved equal to a list of calls that are made in
    order until one fails, and \<^theory_text>\<open>Mc_Main\<close> follows a whole run from the options to the exit status.
    \<^theory_text>\<open>Mc_History\<close>: the merges of the traces of parent and child; the limits are
    in place before the command runs. \<^theory_text>\<open>Mc_Memhog\<close>: \<open>demo/memhog.cpp\<close>.
  \<^item> \<^theory_text>\<open>Elf_Lab\<close>: \<open>elf-lab/src\<close>.

  \<^bold>\<open>What the model takes as given.\<close>

  \<^item> liburing is the parameter \<open>U\<close> of \<^theory_text>\<open>Ev_Uring\<close>; its documented behaviour (what may complete, and
    with which results) is built in where a completion is taken. \<open>std::sort\<close> is a parameter of
    \<^theory_text>\<open>Procmon_Main\<close> with its documented contract as the hypothesis \<open>sorts\<close>. The page size, the clock
    rate and the size of the buffer of the standard input are parameters.
  \<^item> Which thread runs next is a parameter, the schedule; the theorems hold for every schedule, and
    \<open>loadgen_ends\<close> for every fair one. A step is one system call, one update of a counter or one test:
    the counters and flags are atomic, and relaxed order between them is not modelled beyond the
    interleaving. Creating a thread does not fail. An exception in a worker thread, which ends the
    program, is the outcome of the run. The theorems on the thread backend need one fact about the
    kernel, that a new descriptor was not open (\<open>fresh_spawn\<close>, \<open>new_fds\<close>). The clock of the load
    generator is a parameter, and how long its \<open>main\<close> sleeps is up to the schedule.
  \<^item> Parent and child of a container are two functions with their own states; a history is any merge
    of their traces in which the pipe behaves as documented (\<open>pipe_respected\<close>).
  \<^item> Doubles have no infinities and no range of exponents, and \<open>strtod\<close> reads decimal text only: the
    values are byte counts, ticks and seconds. The allocator does not fail, except where a vector is
    longer than \<open>max_size()\<close> and in \<open>memhog\<close>, whose subject it is.
  \<^item> The order in which stdout and stderr are interleaved, and when buffered output is flushed, are
    not visible: each stream is the text written to it.

  \<^bold>\<open>Not modelled.\<close> The Makefiles, images, shell scripts and notes, which are not C++, and of the C++
  files the include lines, declarations and comments. \<open>proc::page_size\<close> and
  \<open>proc::clock_ticks_per_sec\<close> cache a value of \<open>sysconf\<close> and are the parameters named above.
\<close>

end
